(* ===== verification/Prelude.thy ===== *)
theory Prelude
  imports Main "HOL-Library.Word"
begin

text \<open>
  Shared vocabulary of the development: the machine integers of the 32-bit ARM target, the
  outcome type that makes undefined behaviour and failed assertions explicit, byte arrays with
  checked access, C strings, and the generic lemmas on words and lists that the component
  theories use.  The collections \<open>c_bind\<close> (the outcome monad), \<open>c_mem\<close> (checked array access)
  and \<open>c_unat\<close> (words that do not wrap) are passed to \<open>simp\<close> by the component proofs.
\<close>

unbundle bit_operations_syntax

named_theorems c_bind \<open>unfolding of the outcome monad\<close>
named_theorems c_mem \<open>checked accesses to byte arrays\<close>
named_theorems c_unat \<open>word operations that do not wrap around\<close>

section \<open>Machine integers\<close>

type_synonym u8 = "8 word"
type_synonym u16 = "16 word"
type_synonym u32 = "32 word"

type_synonym bytes = "u8 list"

text \<open>
  A C string is the list of its characters before the terminating NUL, so that \<open>strlen\<close> is
  \<open>length\<close>; a block of memory that is read as a string gives its prefix before the first NUL.
\<close>

type_synonym cstring = "u8 list"

definition cstr :: "bytes \<Rightarrow> cstring" where
  "cstr bs = takeWhile (\<lambda>c. c \<noteq> 0) bs"

definition is_cstring :: "cstring \<Rightarrow> bool" where
  "is_cstring s \<longleftrightarrow> 0 \<notin> set s"

section \<open>Outcomes of a call\<close>

text \<open>
  What C leaves undefined, and a failed \<open>assert\<close>, end the execution of the model: a call
  returns \<open>Inl\<close> of the fault, or \<open>Inr\<close> of its value and the updated state.  \<open>Diverges\<close> marks
  a loop that has used up the number of iterations its model allows.
\<close>

datatype fault = NullPointer | OutOfBounds | AssertFailed | DivByZero | UninitRead | Diverges

type_synonym 'a outcome = "fault + 'a"

fun ebind :: "'a outcome \<Rightarrow> ('a \<Rightarrow> 'b outcome) \<Rightarrow> 'b outcome" where
  "ebind (Inl e) f = Inl e"
| "ebind (Inr x) f = f x"

definition assertE :: "bool \<Rightarrow> unit outcome" where
  "assertE P = (if P then Inr () else Inl AssertFailed)"

section \<open>Checked access to byte arrays\<close>

definition load :: "'a list \<Rightarrow> nat \<Rightarrow> 'a outcome" where
  "load m i = (if i < length m then Inr (m ! i) else Inl OutOfBounds)"

definition load_n :: "'a list \<Rightarrow> nat \<Rightarrow> nat \<Rightarrow> 'a list outcome" where
  "load_n m i n = (if i + n \<le> length m then Inr (take n (drop i m)) else Inl OutOfBounds)"

definition store :: "'a list \<Rightarrow> nat \<Rightarrow> 'a \<Rightarrow> 'a list outcome" where
  "store m i x = (if i < length m then Inr (m[i := x]) else Inl OutOfBounds)"

definition store_n :: "'a list \<Rightarrow> nat \<Rightarrow> 'a list \<Rightarrow> 'a list outcome" where
  "store_n m i xs =
     (if i + length xs \<le> length m then Inr (take i m @ xs @ drop (i + length xs) m)
      else Inl OutOfBounds)"

section \<open>Lemmas on outcomes and arrays\<close>

lemma ebind_Inr_iff [c_bind]:
  "ebind m f = Inr y \<longleftrightarrow> (\<exists>x. m = Inr x \<and> f x = Inr y)"
  by (cases m) auto

lemma ebind_cong [fundef_cong]:
  "m = m' \<Longrightarrow> (\<And>x. m' = Inr x \<Longrightarrow> f x = f' x) \<Longrightarrow> ebind m f = ebind m' f'"
  by (cases m') auto

lemma assertE_True [simp]: "assertE True = Inr ()"
  by (simp add: assertE_def)

lemma assertE_False [simp]: "assertE False = Inl AssertFailed"
  by (simp add: assertE_def)

lemma load_in [c_mem]: "i < length m \<Longrightarrow> load m i = Inr (m ! i)"
  by (simp add: load_def)

lemma load_n_in [c_mem]: "i + n \<le> length m \<Longrightarrow> load_n m i n = Inr (take n (drop i m))"
  by (simp add: load_n_def)

lemma store_in [c_mem]: "i < length m \<Longrightarrow> store m i x = Inr (m[i := x])"
  by (simp add: store_def)

lemma store_n_in [c_mem]:
  "i + length xs \<le> length m \<Longrightarrow>
     store_n m i xs = Inr (take i m @ xs @ drop (i + length xs) m)"
  by (simp add: store_n_def)

lemma take_Suc_update:
  "i < length m \<Longrightarrow> take (Suc i) (m[i := x]) = take i m @ [x]"
  by (simp add: take_Suc_conv_app_nth)

lemma take_store_n:
  "i + length xs \<le> length m \<Longrightarrow>
     take (i + length xs) (take i m @ xs @ drop (i + length xs) m) = take i m @ xs"
  by simp

lemma drop_nth_Cons: "i < length m \<Longrightarrow> drop i m = m ! i # drop (Suc i) m"
  by (rule Cons_nth_drop_Suc [symmetric])

lemma drop_eq_ConsD:
  assumes "drop i m = x # xs"
  shows "i < length m" and "m ! i = x" and "drop (Suc i) m = xs"
proof -
  show *: "i < length m"
    using assms by (cases "i < length m") auto
  show "m ! i = x" and "drop (Suc i) m = xs"
    using assms drop_nth_Cons [OF *] by auto
qed

lemma cstr_id: "is_cstring s \<Longrightarrow> cstr s = s"
  by (auto simp: cstr_def is_cstring_def takeWhile_eq_all_conv)

lemma is_cstring_cstr [simp]: "is_cstring (cstr bs)"
  by (auto simp: cstr_def is_cstring_def dest: set_takeWhileD)

lemma cstr_append_NUL: "is_cstring xs \<Longrightarrow> cstr (xs @ 0 # ys) = xs"
  by (induction xs) (auto simp: cstr_def is_cstring_def)

section \<open>Words that do not wrap around\<close>

lemma unat_add_no_wrap [c_unat]:
  fixes x y :: "'a::len word"
  shows "unat x + unat y < 2 ^ LENGTH('a) \<Longrightarrow> unat (x + y) = unat x + unat y"
  by (simp add: unat_word_ariths)

lemma unat_sub_no_wrap [c_unat]:
  fixes x y :: "'a::len word"
  shows "unat y \<le> unat x \<Longrightarrow> unat (x - y) = unat x - unat y"
  by (simp add: unat_sub word_le_nat_alt)

lemma unat_Suc_no_wrap:
  fixes x :: "'a::len word"
  shows "Suc (unat x) < 2 ^ LENGTH('a) \<Longrightarrow> unat (x + 1) = Suc (unat x)"
  by (simp add: unat_word_ariths)

lemma unat_of_nat_no_wrap [c_unat]:
  "n < 2 ^ LENGTH('a) \<Longrightarrow> unat (word_of_nat n :: 'a::len word) = n"
  by (simp add: unat_of_nat)

lemma unat_lt_pow [simp]: "unat (x :: 'a::len word) < 2 ^ LENGTH('a)"
  by (rule unsigned_less)

lemma unat_u32_less: "unat (x :: u32) < 4294967296"
  using unsigned_less [of x, where 'a = nat] by simp

lemma unat_u16_less: "unat (x :: u16) < 65536"
  using unsigned_less [of x, where 'a = nat] by simp

lemma unat_u8_less: "unat (x :: u8) < 256"
  using unsigned_less [of x, where 'a = nat] by simp

lemma sint_unat_small:
  fixes v :: u32
  assumes "unat v < 2 ^ 31"
  shows "sint v = int (unat v)"
proof -
  have "nat (uint v) < 2 ^ 31" using assms by (simp only: unat_eq_nat_uint)
  then have "uint v < 2147483648" by (simp only: nat_less_numeral_power_cancel_iff) simp
  then have "signed_take_bit 31 (uint v) = uint v"
    by (intro signed_take_bit_int_eq_self) (simp_all add: order_trans [OF _ uint_ge_0])
  then show ?thesis by (simp add: sint_uint)
qed

lemma sint_nat:
  fixes v :: u32
  assumes "unat v = n" and "n < 2 ^ 31"
  shows "sint v = int n"
  using sint_unat_small [of v] assms by metis

section \<open>Big-endian bytes\<close>

definition be16 :: "u16 \<Rightarrow> bytes" where
  "be16 v = [ucast (drop_bit 8 v), ucast v]"

definition be32 :: "u32 \<Rightarrow> bytes" where
  "be32 v = [ucast (drop_bit 24 v), ucast (drop_bit 16 v), ucast (drop_bit 8 v), ucast v]"

lemma length_be16 [simp]: "length (be16 v) = 2"
  by (simp add: be16_def)

lemma length_be32 [simp]: "length (be32 v) = 4"
  by (simp add: be32_def)

lemma be16_join:
  fixes v :: u16
  shows "push_bit 8 (ucast (ucast (drop_bit 8 v) :: u8)) + ucast (ucast v :: u8) = v"
proof -
  have "push_bit 8 (ucast (ucast (drop_bit 8 v) :: u8)) + ucast (ucast v :: u8) =
        push_bit 8 (ucast (ucast (drop_bit 8 v) :: u8)) OR (ucast (ucast v :: u8) :: u16)"
    by (rule disjunctive_add) (auto simp: bit_simps)
  also have "\<dots> = v"
    by (rule bit_word_eqI) (auto simp: bit_simps)
  finally show ?thesis .
qed

lemma be32_join:
  fixes v :: u32
  shows "push_bit 8 (push_bit 8 (push_bit 8 (push_bit 8 0 OR
           ucast (ucast (drop_bit 24 v) :: u8)) OR ucast (ucast (drop_bit 16 v) :: u8)) OR
           ucast (ucast (drop_bit 8 v) :: u8)) OR ucast (ucast v :: u8) = v"
proof (rule bit_word_eqI)
  fix n :: nat
  consider "n < 8" | "8 \<le> n" "n < 16" | "16 \<le> n" "n < 24" | "24 \<le> n" by linarith
  then show "bit (push_bit 8 (push_bit 8 (push_bit 8 (push_bit 8 0 OR
      ucast (ucast (drop_bit 24 v) :: u8)) OR ucast (ucast (drop_bit 16 v) :: u8)) OR
      ucast (ucast (drop_bit 8 v) :: u8)) OR ucast (ucast v :: u8) :: u32) n = bit v n"
    by cases (auto simp: bit_simps dest: bit_imp_le_length)
qed

section \<open>The high bit of a byte\<close>

lemma unat_and_7f: "unat ((b::u8) AND 0x7f) = unat b mod 128"
proof -
  have "b AND 0x7f = take_bit 7 b"
    by (simp add: take_bit_eq_mask mask_eq_exp_minus_1)
  then show ?thesis
    by (simp add: take_bit_eq_mod unat_mod)
qed

lemma and_80_iff: "(b::u8) AND 0x80 = 0 \<longleftrightarrow> unat b < 128"
proof -
  have "b AND 0x80 = 0 \<longleftrightarrow> \<not> bit b 7"
    using and_exp_eq_0_iff_not_bit [of b 7] by simp
  also have "bit b 7 \<longleftrightarrow> bit (unat b) 7"
    by (simp add: bit_unsigned_iff)
  also have "bit (unat b) 7 \<longleftrightarrow> odd (unat b div 128)"
    by (simp add: bit_iff_odd)
  also have "unat b div 128 = (if unat b < 128 then 0 else 1)"
    using unat_u8_less [of b] by (simp add: div_nat_eqI)
  also have "odd (if unat b < 128 then 0 else 1 :: nat) \<longleftrightarrow> \<not> unat b < 128"
    by simp
  finally show ?thesis by blast
qed

lemma or_80: "unat (b::u8) < 128 \<Longrightarrow> b OR 0x80 = b + 0x80"
  by (simp add: and_80_iff flip: disjunctive_add_eq_or)

section \<open>Little-endian words in memory\<close>

definition le32 :: "u32 \<Rightarrow> bytes" where
  "le32 v = [ucast v, ucast (drop_bit 8 v), ucast (drop_bit 16 v), ucast (drop_bit 24 v)]"

definition le32_at :: "bytes \<Rightarrow> nat \<Rightarrow> u32 outcome" where
  "le32_at m i =
     ebind (load m i) (\<lambda>a. ebind (load m (i + 1)) (\<lambda>b. ebind (load m (i + 2)) (\<lambda>c.
     ebind (load m (i + 3)) (\<lambda>d.
     Inr (ucast a OR push_bit 8 (ucast b) OR push_bit 16 (ucast c) OR push_bit 24 (ucast d))))))"

lemma le32_join:
  "ucast (ucast v :: u8) OR push_bit 8 (ucast (ucast (drop_bit 8 v) :: u8)) OR
     push_bit 16 (ucast (ucast (drop_bit 16 v) :: u8)) OR push_bit 24 (ucast (ucast (drop_bit 24 v) :: u8)) = (v :: u32)"
proof (rule bit_word_eqI)
  fix n :: nat
  consider "n < 8" | "8 \<le> n" "n < 16" | "16 \<le> n" "n < 24" | "24 \<le> n" by linarith
  then show "bit (ucast (ucast v :: u8) OR push_bit 8 (ucast (ucast (drop_bit 8 v) :: u8)) OR
      push_bit 16 (ucast (ucast (drop_bit 16 v) :: u8)) OR push_bit 24 (ucast (ucast (drop_bit 24 v) :: u8)) :: u32) n = bit v n"
    by cases (auto simp: bit_simps dest: bit_imp_le_length)
qed

lemma load_drop: "drop i m = x # xs \<Longrightarrow> load m i = Inr x"
  using drop_eq_ConsD [of i m x xs] by (simp add: load_in)

lemma le32_at_ok:
  assumes "drop i m = le32 v @ rest"
  shows "le32_at m i = Inr v"
proof -
  have d: "drop i m = ucast v # ucast (drop_bit 8 v) # ucast (drop_bit 16 v) # ucast (drop_bit 24 v) # rest"
    using assms by (simp add: le32_def)
  note d1 = drop_eq_ConsD(3) [OF d] note d2 = drop_eq_ConsD(3) [OF d1] note d3 = drop_eq_ConsD(3) [OF d2]
  have "load m i = Inr (ucast v)" "load m (i + 1) = Inr (ucast (drop_bit 8 v))"
    "load m (i + 2) = Inr (ucast (drop_bit 16 v))" "load m (i + 3) = Inr (ucast (drop_bit 24 v))"
    using load_drop [OF d] load_drop [OF d1] load_drop [OF d2] load_drop [OF d3]
    by (simp_all add: numeral_2_eq_2 numeral_3_eq_3)
  then show ?thesis by (simp add: le32_at_def le32_join)
qed

end
