(* ===== verification/EdpBuffer.thy ===== *)
theory EdpBuffer
  imports Prelude
begin

text \<open>
  The byte buffer of the EDP protocol library (\<open>OneNet/EdpKit.c\<close>, \<open>OneNet/EdpKit.h\<close>): the
  \<open>Buffer\<close> struct, its growth in \<open>CheckCapacity\<close>, the six readers and the six writers.  The
  allocator is the argument \<open>mm\<close>: the contents of the fresh block for a request, or \<open>None\<close>
  where \<open>malloc\<close> returns NULL.  Its contract is the locale \<open>byte_malloc\<close>; the theory DynMem
  interprets it on the pool allocator that \<open>common.h\<close> substitutes for \<open>malloc\<close>.

  A reader returns \<open>Some v\<close> where the C function returns 0 and stores \<open>v\<close> through its
  pointer, and \<open>None\<close> where it returns -1 and stores nothing.  A writer returns the C return
  code and the updated buffer.
\<close>

section \<open>The buffer\<close>

definition BUFFER_SIZE :: u32 where
  "BUFFER_SIZE = 1500"

definition sizeof_Buffer :: u32 where
  "sizeof_Buffer = 16"

record edp_buffer =
  bdata :: bytes
  write_pos :: u32
  read_pos :: u32
  capacity :: u32

type_synonym mallocator = "u32 \<Rightarrow> bytes option"

definition NewBuffer :: "mallocator \<Rightarrow> edp_buffer outcome" where
  "NewBuffer mm =
     (case mm sizeof_Buffer of
        None \<Rightarrow> Inl NullPointer
      | Some _ \<Rightarrow>
          (case mm BUFFER_SIZE of
             None \<Rightarrow> Inl NullPointer
           | Some d \<Rightarrow> Inr \<lparr>bdata = d, write_pos = 0, read_pos = 0, capacity = BUFFER_SIZE\<rparr>))"

definition DeleteBuffer :: "edp_buffer option \<Rightarrow> edp_buffer option outcome" where
  "DeleteBuffer buf = (case buf of None \<Rightarrow> Inl NullPointer | Some b \<Rightarrow> Inr None)"

text \<open>The doubling loop of \<open>CheckCapacity\<close>; \<open>flag\<close> counts the doublings.\<close>

function cap_loop :: "u32 \<Rightarrow> u32 \<Rightarrow> u32 \<Rightarrow> nat \<Rightarrow> u32 \<times> nat" where
  "cap_loop wp len cap_len flag =
     (if cap_len - wp < len
      then if Suc flag > 32 then (push_bit 1 cap_len, Suc flag)
           else cap_loop wp len (push_bit 1 cap_len) (Suc flag)
      else (cap_len, flag))"
  by pat_completeness auto
termination
  by (relation "measure (\<lambda>(wp, len, cap_len, flag). 33 - flag)") auto

declare cap_loop.simps [simp del]

definition CheckCapacity ::
  "mallocator \<Rightarrow> edp_buffer \<Rightarrow> u32 \<Rightarrow> (int \<times> edp_buffer) outcome" where
  "CheckCapacity mm buf len =
     (let (cap_len, flag) = cap_loop (write_pos buf) len (capacity buf) 0 in
      if flag > 32 then Inr (-1, buf)
      else if cap_len > capacity buf
      then (case mm cap_len of
              None \<Rightarrow> Inl NullPointer
            | Some pdata \<Rightarrow>
                ebind (load_n (bdata buf) 0 (unat (write_pos buf))) (\<lambda>old.
                ebind (store_n pdata 0 old) (\<lambda>pdata.
                Inr (0, buf\<lparr>bdata := pdata, capacity := cap_len\<rparr>))))
      else Inr (0, buf))"

section \<open>Readers\<close>

definition ReadByte :: "edp_buffer \<Rightarrow> (u8 option \<times> edp_buffer) outcome" where
  "ReadByte pkg =
     (if read_pos pkg + 1 > write_pos pkg then Inr (None, pkg)
      else ebind (load (bdata pkg) (unat (read_pos pkg))) (\<lambda>v.
           Inr (Some v, pkg\<lparr>read_pos := read_pos pkg + 1\<rparr>)))"

definition ReadBytes ::
  "mallocator \<Rightarrow> edp_buffer \<Rightarrow> u32 \<Rightarrow> (bytes option \<times> edp_buffer) outcome" where
  "ReadBytes mm pkg count =
     (if read_pos pkg + count > write_pos pkg then Inr (None, pkg)
      else if mm count = None \<and> count \<noteq> 0 then Inl NullPointer
      else ebind (load_n (bdata pkg) (unat (read_pos pkg)) (unat count)) (\<lambda>v.
           Inr (Some v, pkg\<lparr>read_pos := read_pos pkg + count\<rparr>)))"

definition ReadUint16 :: "edp_buffer \<Rightarrow> (u16 option \<times> edp_buffer) outcome" where
  "ReadUint16 pkg =
     (if read_pos pkg + 2 > write_pos pkg then Inr (None, pkg)
      else ebind (load (bdata pkg) (unat (read_pos pkg))) (\<lambda>msb.
           let pkg = pkg\<lparr>read_pos := read_pos pkg + 1\<rparr> in
           ebind (load (bdata pkg) (unat (read_pos pkg))) (\<lambda>lsb.
           let pkg = pkg\<lparr>read_pos := read_pos pkg + 1\<rparr> in
           Inr (Some (push_bit 8 (ucast msb) + ucast lsb), pkg))))"

primrec read_u32_loop :: "nat \<Rightarrow> u32 \<Rightarrow> edp_buffer \<Rightarrow> (u32 \<times> edp_buffer) outcome" where
  "read_u32_loop 0 tmpval pkg = Inr (tmpval, pkg)"
| "read_u32_loop (Suc n) tmpval pkg =
     ebind (load (bdata pkg) (unat (read_pos pkg))) (\<lambda>v.
     read_u32_loop n (push_bit 8 tmpval OR ucast v) (pkg\<lparr>read_pos := read_pos pkg + 1\<rparr>))"

definition ReadUint32 :: "edp_buffer \<Rightarrow> (u32 option \<times> edp_buffer) outcome" where
  "ReadUint32 pkg =
     (if read_pos pkg + 4 > write_pos pkg then Inr (None, pkg)
      else ebind (read_u32_loop 4 0 pkg) (\<lambda>(v, pkg). Inr (Some v, pkg)))"

text \<open>
  \<open>strncpy\<close> into a zeroed block of \<open>len + 1\<close> bytes: the resulting C string is the prefix of
  the \<open>len\<close> bytes before the first NUL.  The read position moves by \<open>len\<close> in any case.
\<close>

definition ReadStr ::
  "mallocator \<Rightarrow> edp_buffer \<Rightarrow> (cstring option \<times> edp_buffer) outcome" where
  "ReadStr mm pkg =
     ebind (ReadUint16 pkg) (\<lambda>(rc, pkg).
     (case rc of
        None \<Rightarrow> Inr (None, pkg)
      | Some len \<Rightarrow>
          if read_pos pkg + ucast len > write_pos pkg then Inr (None, pkg)
          else if mm (ucast len + 1) = None then Inl NullPointer
          else ebind (load_n (bdata pkg) (unat (read_pos pkg)) (unat len)) (\<lambda>v.
               Inr (Some (cstr v), pkg\<lparr>read_pos := read_pos pkg + ucast len\<rparr>))))"

text \<open>The loop of \<open>ReadRemainlen\<close>; \<open>len_len\<close> counts the digits read so far.\<close>

function remainlen_loop ::
  "edp_buffer \<Rightarrow> u32 \<Rightarrow> u32 \<Rightarrow> nat \<Rightarrow> (u32 option \<times> edp_buffer) outcome" where
  "remainlen_loop pkg len_val multiplier len_len =
     ebind (ReadByte pkg) (\<lambda>(rc, pkg).
     (case rc of
        None \<Rightarrow> Inr (None, pkg)
      | Some onebyte \<Rightarrow>
          let len_val = len_val + ucast (onebyte AND 0x7f) * multiplier;
              multiplier = multiplier * 0x80
          in if Suc len_len > 4 then Inr (None, pkg)
             else if onebyte AND 0x80 \<noteq> 0
             then remainlen_loop pkg len_val multiplier (Suc len_len)
             else Inr (Some len_val, pkg)))"
  by pat_completeness auto
termination
  by (relation "measure (\<lambda>(pkg, len_val, multiplier, len_len). 5 - len_len)") auto

declare remainlen_loop.simps [simp del]

definition ReadRemainlen :: "edp_buffer \<Rightarrow> (u32 option \<times> edp_buffer) outcome" where
  "ReadRemainlen pkg = remainlen_loop pkg 0 1 0"

section \<open>Writers\<close>

type_synonym writer = "edp_buffer \<Rightarrow> (int \<times> edp_buffer) outcome"

definition WriteByte :: "mallocator \<Rightarrow> u8 \<Rightarrow> writer" where
  "WriteByte mm x buf =
     ebind (assertE (read_pos buf = 0)) (\<lambda>_.
     ebind (CheckCapacity mm buf 1) (\<lambda>(rc, buf).
     if rc \<noteq> 0 then Inr (-1, buf)
     else ebind (store (bdata buf) (unat (write_pos buf)) x) (\<lambda>d.
          Inr (0, buf\<lparr>bdata := d, write_pos := write_pos buf + 1\<rparr>))))"

definition WriteBytes :: "mallocator \<Rightarrow> bytes \<Rightarrow> u32 \<Rightarrow> writer" where
  "WriteBytes mm src count buf =
     ebind (assertE (read_pos buf = 0)) (\<lambda>_.
     ebind (CheckCapacity mm buf count) (\<lambda>(rc, buf).
     if rc \<noteq> 0 then Inr (-1, buf)
     else ebind (load_n src 0 (unat count)) (\<lambda>xs.
          ebind (store_n (bdata buf) (unat (write_pos buf)) xs) (\<lambda>d.
          Inr (0, buf\<lparr>bdata := d, write_pos := write_pos buf + count\<rparr>)))))"

text \<open>C's \<open>f(buf) || g(buf)\<close> on return codes: \<open>g\<close> runs only where \<open>f\<close> returned 0.\<close>

definition or_else :: "writer \<Rightarrow> writer \<Rightarrow> writer" where
  "or_else f g buf =
     ebind (f buf) (\<lambda>(rc, buf).
     if rc \<noteq> 0 then Inr (1, buf)
     else ebind (g buf) (\<lambda>(rc, buf). Inr (if rc \<noteq> 0 then 1 else 0, buf)))"

definition MOSQ_MSB :: "u16 \<Rightarrow> u8" where
  "MOSQ_MSB a = ucast (drop_bit 8 (a AND 0xFF00))"

definition MOSQ_LSB :: "u16 \<Rightarrow> u8" where
  "MOSQ_LSB a = ucast (a AND 0x00FF)"

definition WriteUint16 :: "mallocator \<Rightarrow> u16 \<Rightarrow> writer" where
  "WriteUint16 mm val buf =
     ebind (assertE (read_pos buf = 0)) (\<lambda>_.
     or_else (WriteByte mm (MOSQ_MSB val)) (WriteByte mm (MOSQ_LSB val)) buf)"

definition WriteUint32 :: "mallocator \<Rightarrow> u32 \<Rightarrow> writer" where
  "WriteUint32 mm val buf =
     ebind (assertE (read_pos buf = 0)) (\<lambda>_.
     or_else (or_else (or_else
       (WriteByte mm (ucast (drop_bit 24 val AND 0x00FF)))
       (WriteByte mm (ucast (drop_bit 16 val AND 0x00FF))))
       (WriteByte mm (ucast (drop_bit 8 val AND 0x00FF))))
       (WriteByte mm (ucast (val AND 0x00FF))) buf)"

definition WriteStr :: "mallocator \<Rightarrow> cstring \<Rightarrow> writer" where
  "WriteStr mm str buf =
     (let len = (word_of_nat (length str) :: u16) in
      ebind (assertE (read_pos buf = 0)) (\<lambda>_.
      or_else (WriteUint16 mm len) (WriteBytes mm str (ucast len)) buf))"

text \<open>
  The loop of \<open>WriteRemainlen\<close>, which stores without \<open>CheckCapacity\<close>;
  \<open>count\<close> is \<open>remaining_count\<close>.
\<close>

function write_remainlen_loop ::
  "edp_buffer \<Rightarrow> u32 \<Rightarrow> nat \<Rightarrow> (nat \<times> edp_buffer) outcome" where
  "write_remainlen_loop buf remaining_length count =
     (let b0 = (ucast (remaining_length mod 128) :: u8);
          remaining_length = remaining_length div 128;
          b = (if remaining_length > 0 then b0 OR 0x80 else b0)
      in ebind (store (bdata buf) (unat (write_pos buf)) b) (\<lambda>d.
         let buf = buf\<lparr>bdata := d, write_pos := write_pos buf + 1\<rparr>
         in if remaining_length > 0 \<and> Suc count < 5
            then write_remainlen_loop buf remaining_length (Suc count)
            else Inr (Suc count, buf)))"
  by pat_completeness auto
termination
  by (relation "measure (\<lambda>(buf, remaining_length, count). 5 - count)") auto

declare write_remainlen_loop.simps [simp del]

definition WriteRemainlen :: "u32 \<Rightarrow> writer" where
  "WriteRemainlen len_val buf =
     ebind (assertE (read_pos buf = 0)) (\<lambda>_.
     ebind (write_remainlen_loop buf len_val 0) (\<lambda>(remaining_count, buf).
     ebind (assertE (remaining_count \<noteq> 5)) (\<lambda>_.
     Inr (0, buf))))"

section \<open>Well-formed buffers\<close>

text \<open>What has been written to a buffer.\<close>

definition contents :: "edp_buffer \<Rightarrow> bytes" where
  "contents b = take (unat (write_pos b)) (bdata b)"

text \<open>A buffer under construction: nothing read yet, the array as long as its capacity says.\<close>

definition wbuf :: "edp_buffer \<Rightarrow> bool" where
  "wbuf b \<longleftrightarrow> read_pos b = 0 \<and> unat (write_pos b) \<le> unat (capacity b) \<and>
     unat (capacity b) = length (bdata b) \<and> 1500 \<le> unat (capacity b) \<and>
     unat (capacity b) < 2 ^ 31"

text \<open>A buffer being parsed, with the bytes \<open>rs\<close> still unread.\<close>

definition rbuf :: "edp_buffer \<Rightarrow> bytes \<Rightarrow> bool" where
  "rbuf b rs \<longleftrightarrow> unat (read_pos b) \<le> unat (write_pos b) \<and>
     unat (write_pos b) \<le> unat (capacity b) \<and> unat (capacity b) = length (bdata b) \<and>
     unat (capacity b) < 2 ^ 31 \<and> rs = drop (unat (read_pos b)) (contents b)"

lemma length_contents: "wbuf b \<Longrightarrow> length (contents b) = unat (write_pos b)"
  by (simp add: wbuf_def contents_def)

lemma wbuf_rbuf: "wbuf b \<Longrightarrow> rbuf b (contents b)"
  by (simp add: wbuf_def rbuf_def)

section \<open>Growth\<close>

lemma unat_shl1:
  fixes x :: u32
  assumes "2 * unat x < 2 ^ 32"
  shows "unat (push_bit 1 x) = 2 * unat x"
  using assms by (simp add: push_bit_eq_mult unat_word_ariths mult.commute)

lemma cap_guard_iff:
  fixes wp cap len :: u32
  assumes "unat wp \<le> unat cap"
  shows "cap - wp < len \<longleftrightarrow> unat cap < unat wp + unat len"
  using assms by (auto simp: word_less_nat_alt unat_sub_no_wrap)

text \<open>
  The doubling loop reaches a capacity with room for \<open>len\<close> more bytes, at most twice what is
  needed, before the 32 doublings are spent.
\<close>

definition cap_ok :: "u32 \<Rightarrow> u32 \<Rightarrow> u32 \<Rightarrow> u32 \<times> nat \<Rightarrow> bool" where
  "cap_ok wp len cap r \<longleftrightarrow> snd r \<le> 32 \<and> unat wp + unat len \<le> unat (fst r) \<and>
     unat cap \<le> unat (fst r) \<and>
     (fst r = cap \<or>
      unat cap < unat wp + unat len \<and> unat (fst r) < 2 * (unat wp + unat len))"

lemma cap_loop_ok:
  "unat wp \<le> unat cap \<Longrightarrow> 1500 * 2 ^ flag \<le> unat cap \<Longrightarrow>
   unat wp + unat len \<le> 2 ^ 31 \<Longrightarrow> cap_ok wp len cap (cap_loop wp len cap flag)"
proof (induction wp len cap flag rule: cap_loop.induct)
  case (1 wp len cap flag)
  have flag: "flag < 22"
  proof (rule ccontr)
    assume "\<not> flag < 22"
    then have "(2::nat) ^ 22 \<le> 2 ^ flag" by (intro power_increasing) simp_all
    with "1.prems"(2) unat_u32_less [of cap] show False by simp
  qed
  show ?case
  proof (cases "cap - wp < len")
    case False
    with "1.prems" flag show ?thesis
      by (simp add: cap_loop.simps [of wp len cap flag] cap_ok_def cap_guard_iff)
  next
    case True
    with "1.prems" have small: "unat cap < unat wp + unat len"
      by (simp add: cap_guard_iff)
    with "1.prems"(3) have dbl: "unat (push_bit 1 cap) = 2 * unat cap"
      by (intro unat_shl1) simp
    have "cap_ok wp len (push_bit 1 cap) (cap_loop wp len (push_bit 1 cap) (Suc flag))"
      using "1.IH" True flag "1.prems" dbl by simp
    moreover have "cap_loop wp len cap flag = cap_loop wp len (push_bit 1 cap) (Suc flag)"
      using True flag by (simp add: cap_loop.simps [of wp len cap flag])
    ultimately show ?thesis
      using dbl small by (auto simp: cap_ok_def)
  qed
qed

text \<open>
  A buffer can grow to \<open>n\<close> bytes: no growth is needed, or an allocator that serves \<open>limit\<close>
  bytes serves the doubled array.
\<close>

definition fits :: "nat \<Rightarrow> nat \<Rightarrow> bool" where
  "fits limit n \<longleftrightarrow> n \<le> 1500 \<or> 2 * n \<le> limit"

lemma fits_mono: "fits limit n \<Longrightarrow> m \<le> n \<Longrightarrow> fits limit m"
  by (auto simp: fits_def)

section \<open>What a writer appends\<close>

text \<open>
  The writer \<open>f\<close> returns 0 and appends exactly \<open>bs\<close>, provided the buffer may grow to the
  new length.
\<close>

definition appends :: "nat \<Rightarrow> writer \<Rightarrow> bytes \<Rightarrow> bool" where
  "appends limit f bs \<longleftrightarrow>
     (\<forall>b. wbuf b \<longrightarrow> fits limit (length (contents b) + length bs) \<longrightarrow>
        (\<exists>b'. f b = Inr (0, b') \<and> wbuf b' \<and> contents b' = contents b @ bs))"

lemma appendsD:
  assumes "appends limit f bs" and "wbuf b" and "fits limit (length (contents b) + length bs)"
  obtains b' where "f b = Inr (0, b')" and "wbuf b'" and "contents b' = contents b @ bs"
  using assms unfolding appends_def by blast

lemma appends_or_else:
  assumes f: "appends limit f xs" and g: "appends limit g ys"
  shows "appends limit (or_else f g) (xs @ ys)"
  unfolding appends_def
proof (intro allI impI)
  fix b assume b: "wbuf b" and fit: "fits limit (length (contents b) + length (xs @ ys))"
  have "fits limit (length (contents b) + length xs)"
    using fit by (rule fits_mono) simp
  with f b obtain b1 where b1: "f b = Inr (0, b1)" "wbuf b1" "contents b1 = contents b @ xs"
    by (rule appendsD)
  have "fits limit (length (contents b1) + length ys)"
    using fit b1 by (simp add: add.assoc)
  with g b1(2) obtain b2 where "g b1 = Inr (0, b2)" "wbuf b2" "contents b2 = contents b1 @ ys"
    by (rule appendsD)
  with b1 show "\<exists>b'. or_else f g b = Inr (0, b') \<and> wbuf b' \<and> contents b' = contents b @ xs @ ys"
    by (simp add: or_else_def)
qed

lemma appends_assert:
  assumes "appends limit f bs" and "\<And>b. g b = ebind (assertE (read_pos b = 0)) (\<lambda>_. f b)"
  shows "appends limit g bs"
  using assms unfolding appends_def by (simp add: wbuf_def)

lemma be16_MOSQ: "[MOSQ_MSB v, MOSQ_LSB v] = be16 v"
proof -
  have m: "(0xFF00::u16) = push_bit 8 (mask 8)" "(0xFF :: u16) = mask 8"
    by (simp_all add: mask_eq_exp_minus_1)
  show ?thesis
    unfolding MOSQ_MSB_def MOSQ_LSB_def be16_def m
    by (auto intro!: bit_word_eqI simp: bit_simps)
qed

lemma be32_masked:
  "[ucast (drop_bit 24 v AND 0x00FF), ucast (drop_bit 16 v AND 0x00FF),
    ucast (drop_bit 8 v AND 0x00FF), ucast (v AND 0x00FF)] = be32 v"
proof -
  have m: "(0xFF :: u32) = mask 8" by (simp add: mask_eq_exp_minus_1)
  show ?thesis
    unfolding be32_def m by (auto intro!: bit_word_eqI simp: bit_simps)
qed

text \<open>
  The contract between the buffer and the allocator: a block is as long as the request, and
  requests up to \<open>limit\<close> bytes are served.
\<close>

locale byte_malloc =
  fixes mm :: mallocator and limit :: nat
  assumes mm_length: "mm n = Some d \<Longrightarrow> length d = unat n"
    and mm_total: "unat n \<le> limit \<Longrightarrow> \<exists>d. mm n = Some d"
    and limit_ge: "1500 \<le> limit"
    and limit_less: "limit < 2 ^ 31"
begin

lemma fits_bound: "fits limit n \<Longrightarrow> n < 2 ^ 30"
  using limit_less by (auto simp: fits_def)

lemma NewBuffer_ok: "\<exists>b. NewBuffer mm = Inr b \<and> wbuf b \<and> contents b = []"
proof -
  obtain d1 where "mm sizeof_Buffer = Some d1"
    using mm_total [of sizeof_Buffer] limit_ge by (auto simp: sizeof_Buffer_def)
  moreover obtain d where "mm BUFFER_SIZE = Some d"
    using mm_total [of BUFFER_SIZE] limit_ge by (auto simp: BUFFER_SIZE_def)
  ultimately show ?thesis
    using mm_length [of BUFFER_SIZE d]
    by (simp add: NewBuffer_def wbuf_def contents_def BUFFER_SIZE_def)
qed

lemma CheckCapacity_ok:
  assumes b: "wbuf b" and fit: "fits limit (length (contents b) + unat len)"
  shows "\<exists>b'. CheckCapacity mm b len = Inr (0, b') \<and> wbuf b' \<and> contents b' = contents b \<and>
    write_pos b' = write_pos b \<and> unat (write_pos b) + unat len \<le> length (bdata b')"
proof -
  let ?r = "cap_loop (write_pos b) len (capacity b) 0"
  have len: "length (contents b) = unat (write_pos b)"
    using b by (rule length_contents)
  have ok: "cap_ok (write_pos b) len (capacity b) ?r"
    using b fits_bound [OF fit] len by (intro cap_loop_ok) (auto simp: wbuf_def)
  obtain c f where r: "?r = (c, f)" by (cases ?r)
  show ?thesis
  proof (cases "c > capacity b")
    case False
    then have "c = capacity b"
      using ok r by (auto simp: cap_ok_def word_less_nat_alt word_unat_eq_iff)
    with ok r b show ?thesis
      by (auto simp: CheckCapacity_def cap_ok_def wbuf_def)
  next
    case True
    with ok r have c: "unat c < 2 * (unat (write_pos b) + unat len)"
      and c1: "unat (capacity b) < unat (write_pos b) + unat len"
      and c2: "unat (write_pos b) + unat len \<le> unat c" and c3: "unat (capacity b) \<le> unat c"
      and f: "f \<le> 32"
      by (auto simp: cap_ok_def)
    have "unat c \<le> limit"
      using c c1 b len fit by (auto simp: fits_def wbuf_def)
    then obtain d where d: "mm c = Some d" and cl: "unat c < 2 ^ 31"
      using mm_total limit_less by fastforce
    from d have ld: "length d = unat c" by (rule mm_length)
    have "CheckCapacity mm b len = Inr (0, b\<lparr>bdata := take 0 d @ contents b @
        drop (0 + length (contents b)) d, capacity := c\<rparr>)"
      using True r f d ld b c3
      by (simp add: CheckCapacity_def wbuf_def load_n_in store_n_in contents_def)
    moreover have "wbuf (b\<lparr>bdata := take 0 d @ contents b @
        drop (0 + length (contents b)) d, capacity := c\<rparr>)"
      using b c3 ld len cl by (auto simp: wbuf_def)
    ultimately show ?thesis
      using len ld c2 by (auto simp: contents_def)
  qed
qed

lemma appends_WriteByte: "appends limit (WriteByte mm x) [x]"
  unfolding appends_def
proof (intro allI impI)
  fix b assume b: "wbuf b" and fit: "fits limit (length (contents b) + length [x])"
  from CheckCapacity_ok [OF b, of 1] fit obtain b' where
    cc: "CheckCapacity mm b 1 = Inr (0, b')" and b': "wbuf b'" and
    c': "contents b' = contents b" and room: "unat (write_pos b') + 1 \<le> length (bdata b')"
    by auto
  have wp: "unat (write_pos b' + 1) = Suc (unat (write_pos b'))"
    using b' room fits_bound [OF fit] length_contents [OF b'] c'
    by (intro unat_Suc_no_wrap) simp
  let ?b = "b'\<lparr>bdata := (bdata b')[unat (write_pos b') := x], write_pos := write_pos b' + 1\<rparr>"
  have "WriteByte mm x b = Inr (0, ?b)"
    using b cc room by (simp add: WriteByte_def wbuf_def store_in)
  moreover have "wbuf ?b" and "contents ?b = contents b @ [x]"
    using b' room wp c' by (auto simp: wbuf_def contents_def take_Suc_update)
  ultimately show "\<exists>b'. WriteByte mm x b = Inr (0, b') \<and> wbuf b' \<and> contents b' = contents b @ [x]"
    by blast
qed

lemma appends_WriteBytes:
  assumes count: "unat count \<le> length src"
  shows "appends limit (WriteBytes mm src count) (take (unat count) src)"
  unfolding appends_def
proof (intro allI impI)
  let ?xs = "take (unat count) src"
  fix b assume b: "wbuf b" and fit: "fits limit (length (contents b) + length ?xs)"
  have len: "length ?xs = unat count" using count by simp
  from CheckCapacity_ok [OF b, of count] fit len obtain b' where
    cc: "CheckCapacity mm b count = Inr (0, b')" and b': "wbuf b'" and
    c': "contents b' = contents b" and w: "write_pos b' = write_pos b" and
    room: "unat (write_pos b') + unat count \<le> length (bdata b')"
    by auto
  have wp: "unat (write_pos b' + count) = unat (write_pos b') + unat count"
    using fits_bound [OF fit] length_contents [OF b'] c' len
    by (intro unat_add_no_wrap) simp
  let ?d = "take (unat (write_pos b')) (bdata b') @ ?xs @
    drop (unat (write_pos b') + length ?xs) (bdata b')"
  let ?b = "b'\<lparr>bdata := ?d, write_pos := write_pos b' + count\<rparr>"
  have "WriteBytes mm src count b = Inr (0, ?b)"
    using b cc room count len by (simp add: WriteBytes_def wbuf_def load_n_in store_n_in)
  moreover have "wbuf ?b" and "contents ?b = contents b' @ ?xs"
    using b' room wp len by (auto simp: wbuf_def contents_def)
  ultimately show "\<exists>b'. WriteBytes mm src count b = Inr (0, b') \<and> wbuf b' \<and>
      contents b' = contents b @ ?xs"
    using c' by auto
qed

lemma appends_WriteUint16: "appends limit (WriteUint16 mm v) (be16 v)"
proof -
  have "appends limit (or_else (WriteByte mm (MOSQ_MSB v)) (WriteByte mm (MOSQ_LSB v)))
      ([MOSQ_MSB v] @ [MOSQ_LSB v])"
    by (intro appends_or_else appends_WriteByte)
  then have "appends limit (WriteUint16 mm v) ([MOSQ_MSB v] @ [MOSQ_LSB v])"
    by (rule appends_assert) (simp add: WriteUint16_def)
  then show ?thesis by (simp add: be16_MOSQ)
qed

lemma appends_WriteUint32: "appends limit (WriteUint32 mm v) (be32 v)"
proof -
  let ?w = "\<lambda>k. WriteByte mm (ucast (drop_bit k v AND 0x00FF))"
  let ?x = "\<lambda>k. ucast (drop_bit k v AND 0x00FF) :: u8"
  have "appends limit (or_else (or_else (or_else (?w 24) (?w 16)) (?w 8))
      (WriteByte mm (ucast (v AND 0x00FF)))) ((([?x 24] @ [?x 16]) @ [?x 8]) @ [ucast (v AND 0x00FF)])"
    by (intro appends_or_else appends_WriteByte)
  then have "appends limit (WriteUint32 mm v)
      ((([?x 24] @ [?x 16]) @ [?x 8]) @ [ucast (v AND 0x00FF)])"
    by (rule appends_assert) (simp add: WriteUint32_def)
  then show ?thesis using be32_masked [of v] by simp
qed

lemma appends_WriteStr:
  assumes "length s < 2 ^ 16"
  shows "appends limit (WriteStr mm s) (be16 (word_of_nat (length s)) @ s)"
proof -
  let ?len = "word_of_nat (length s) :: u16"
  have len: "unat (ucast ?len :: u32) = length s"
    using assms by (simp add: unsigned_ucast_eq unat_of_nat take_bit_nat_eq_self)
  have "appends limit (or_else (WriteUint16 mm ?len) (WriteBytes mm s (ucast ?len)))
      (be16 ?len @ take (unat (ucast ?len :: u32)) s)"
    by (intro appends_or_else appends_WriteUint16 appends_WriteBytes) (simp add: len)
  then have "appends limit (WriteStr mm s) (be16 ?len @ take (unat (ucast ?len :: u32)) s)"
    by (rule appends_assert) (simp only: WriteStr_def Let_def)
  then show ?thesis by (simp add: len)
qed

end

section \<open>The remaining-length field\<close>

text \<open>The reference encoding: base 128, least significant digit first, high bit on all but the last.\<close>

fun rl_enc :: "nat \<Rightarrow> bytes" where
  "rl_enc n = (if n < 128 then [word_of_nat n]
               else word_of_nat (n mod 128 + 128) # rl_enc (n div 128))"

declare rl_enc.simps [simp del]

lemma rl_enc_nonempty [simp]: "rl_enc n \<noteq> []"
  by (simp add: rl_enc.simps [of n])

lemma length_rl_enc: "0 < k \<Longrightarrow> n < 128 ^ k \<Longrightarrow> length (rl_enc n) \<le> k"
proof (induction k arbitrary: n)
  case (Suc k)
  show ?case
  proof (cases "n < 128")
    case False
    then have "0 < k" using Suc.prems(2) by (cases k) auto
    moreover have "n div 128 < 128 ^ k"
      using Suc.prems(2) by (simp add: less_mult_imp_div_less mult.commute)
    ultimately show ?thesis
      using Suc.IH [of "n div 128"] False by (simp add: rl_enc.simps [of n])
  qed (simp add: rl_enc.simps [of n])
qed simp

lemma length_rl_enc4: "n < 2 ^ 28 \<Longrightarrow> length (rl_enc n) \<le> 4"
  using length_rl_enc [of 4 n] by simp

lemma length_rl_enc_gt: "128 ^ k \<le> n \<Longrightarrow> k < length (rl_enc n)"
proof (induction k arbitrary: n)
  case (Suc k)
  have "(128::nat) * 1 \<le> 128 * 128 ^ k" by (intro mult_le_mono2) simp
  then have "\<not> n < 128"
    using Suc.prems [unfolded power_Suc] by linarith
  moreover have "128 ^ k \<le> n div 128"
    using div_le_mono [OF Suc.prems, of 128] by simp
  ultimately show ?case
    using Suc.IH [of "n div 128"] by (simp add: rl_enc.simps [of n])
qed simp

lemma store_one_ok:
  assumes b: "wbuf b" and room: "Suc (length (contents b)) \<le> 1500"
  shows "\<exists>d. store (bdata b) (unat (write_pos b)) x = Inr d \<and>
    wbuf (b\<lparr>bdata := d, write_pos := write_pos b + 1\<rparr>) \<and>
    contents (b\<lparr>bdata := d, write_pos := write_pos b + 1\<rparr>) = contents b @ [x]"
proof -
  have len: "length (contents b) = unat (write_pos b)"
    using b by (rule length_contents)
  have "unat (write_pos b + 1) = Suc (unat (write_pos b))"
    using room len by (intro unat_Suc_no_wrap) simp
  then show ?thesis
    using b room len by (auto simp: store_in wbuf_def contents_def take_Suc_update)
qed

lemma unat_numeral_128: "unat (128 :: u32) = 128"
  by simp

lemma write_remainlen_digit:
  fixes v :: u32
  shows "(if v div 128 > 0 then (ucast (v mod 128) :: u8) OR 0x80 else ucast (v mod 128)) =
     (if unat v < 128 then word_of_nat (unat v) else word_of_nat (unat v mod 128 + 128))"
proof -
  have m: "(ucast (v mod 128) :: u8) = word_of_nat (unat v mod 128)"
    by (metis of_nat_unat unat_mod unat_numeral_128)
  have lt: "unat (word_of_nat (unat v mod 128) :: u8) < 128"
    by (subst unat_of_nat_no_wrap) simp_all
  have "v div 128 > 0 \<longleftrightarrow> \<not> unat v < 128"
    by (simp add: word_less_nat_alt unat_div div_greater_zero_iff not_less)
  then show ?thesis
    using or_80 [OF lt] by (simp add: m)
qed

lemma write_remainlen_loop_ok:
  "wbuf b \<Longrightarrow> length (contents b) + length (rl_enc (unat v)) \<le> 1500 \<Longrightarrow>
   count + length (rl_enc (unat v)) \<le> 5 \<Longrightarrow>
   \<exists>b'. write_remainlen_loop b v count = Inr (count + length (rl_enc (unat v)), b') \<and>
     wbuf b' \<and> contents b' = contents b @ rl_enc (unat v)"
proof (induction b v count rule: write_remainlen_loop.induct)
  case (1 b v count)
  let ?x = "if unat v < 128 then word_of_nat (unat v) else word_of_nat (unat v mod 128 + 128) :: u8"
  have "1 \<le> length (rl_enc (unat v))"
    by (simp add: rl_enc.simps [of "unat v"])
  then obtain d where d: "store (bdata b) (unat (write_pos b)) ?x = Inr d"
    and b': "wbuf (b\<lparr>bdata := d, write_pos := write_pos b + 1\<rparr>)"
    and c': "contents (b\<lparr>bdata := d, write_pos := write_pos b + 1\<rparr>) = contents b @ [?x]"
    using store_one_ok [of b ?x] "1.prems" by force
  have div: "unat (v div 128) = unat v div 128" and pos: "v div 128 > 0 \<longleftrightarrow> \<not> unat v < 128"
    by (simp_all add: unat_div word_less_nat_alt div_greater_zero_iff not_less)
  note step = write_remainlen_loop.simps [of b v count, unfolded Let_def write_remainlen_digit d ebind.simps]
  show ?case
  proof (cases "unat v < 128")
    case True
    with step b' c' pos show ?thesis
      by (simp add: rl_enc.simps [of "unat v"])
  next
    case False
    with "1.prems"(3) have "Suc count < 5"
      by (cases "rl_enc (unat v div 128)") (simp_all add: rl_enc.simps [of "unat v"])
    with False show ?thesis
      using "1.IH" [OF refl refl, unfolded write_remainlen_digit, OF refl d refl] "1.prems" step b' c' pos
      by (simp add: rl_enc.simps [of "unat v"] div)
  qed
qed

text \<open>
  \<open>WriteRemainlen\<close> writes the reference encoding of any length below \<open>2 ^ 28\<close>; a longer one
  trips its assertion, after the five digits have been stored.
\<close>

lemma WriteRemainlen_ok:
  assumes "wbuf b" and "length (contents b) \<le> 1496" and "unat v < 2 ^ 28"
  shows "\<exists>b'. WriteRemainlen v b = Inr (0, b') \<and> wbuf b' \<and>
    contents b' = contents b @ rl_enc (unat v)"
  using write_remainlen_loop_ok [of b v 0] length_rl_enc4 [OF assms(3)] assms
  by (auto simp: WriteRemainlen_def wbuf_def)

lemma WriteRemainlen_too_long:
  assumes "wbuf b" and "length (contents b) \<le> 1495" and "2 ^ 28 \<le> unat v"
  shows "WriteRemainlen v b = Inl AssertFailed"
proof -
  have "length (rl_enc (unat v)) = 5"
    using length_rl_enc_gt [of 4 "unat v"] assms(3) length_rl_enc [of 5 "unat v"] unat_u32_less [of v] by simp
  then show ?thesis
    using write_remainlen_loop_ok [of b v 0] assms by (auto simp: WriteRemainlen_def wbuf_def)
qed

section \<open>What a reader consumes\<close>

abbreviation adv :: "edp_buffer \<Rightarrow> u32 \<Rightarrow> edp_buffer" where
  "adv b k \<equiv> b\<lparr>read_pos := read_pos b + k\<rparr>"

lemma rbuf_length: "rbuf b rs \<Longrightarrow> length rs = unat (write_pos b) - unat (read_pos b)"
  by (auto simp: rbuf_def contents_def)

lemma rbuf_length_less: "rbuf b rs \<Longrightarrow> length rs < 2 ^ 31"
  by (auto simp: rbuf_def contents_def)

lemma rbuf_sum:
  assumes "rbuf b rs" and "unat k < 2 ^ 31"
  shows "unat (read_pos b + k) = unat (read_pos b) + unat k"
  using assms by (intro unat_add_no_wrap) (auto simp: rbuf_def)

lemma rbuf_guard:
  assumes "rbuf b rs" and "unat k < 2 ^ 31"
  shows "read_pos b + k > write_pos b \<longleftrightarrow> length rs < unat k"
  using assms rbuf_length [OF assms(1)] rbuf_sum [OF assms]
  by (auto simp: word_less_nat_alt rbuf_def)

lemma rbuf_adv:
  assumes b: "rbuf b rs" and k: "unat k \<le> length rs"
  shows "rbuf (adv b k) (drop (unat k) rs)"
proof -
  have "unat k < 2 ^ 31" using k rbuf_length_less [OF b] by simp
  with b have "unat (read_pos b + k) = unat (read_pos b) + unat k" by (rule rbuf_sum)
  then show ?thesis
    using b k rbuf_length [OF b] by (auto simp: rbuf_def contents_def add.commute)
qed

lemma rbuf_load:
  assumes "rbuf b (x # rs)"
  shows "load (bdata b) (unat (read_pos b)) = Inr x"
proof -
  have "drop (unat (read_pos b)) (contents b) = x # rs"
    using assms by (simp add: rbuf_def)
  from drop_eq_ConsD [OF this] show ?thesis
    by (simp add: contents_def load_in)
qed

lemma rbuf_load_n:
  assumes "rbuf b rs" and "n \<le> length rs"
  shows "load_n (bdata b) (unat (read_pos b)) n = Inr (take n rs)"
  using assms rbuf_length [OF assms(1)]
  by (auto simp: rbuf_def contents_def load_n_def take_drop min_def)

lemma rbuf_adv1: "rbuf b (x # rs) \<Longrightarrow> rbuf (adv b 1) rs"
  using rbuf_adv [of b "x # rs" 1] by simp

lemma rbuf_adv_append:
  "rbuf b (xs @ rs) \<Longrightarrow> length xs = unat k \<Longrightarrow> rbuf (adv b k) rs"
  using rbuf_adv [of b "xs @ rs" k] by simp

lemma ReadByte_Cons: "rbuf b (x # rs) \<Longrightarrow> ReadByte b = Inr (Some x, adv b 1)"
  by (simp add: ReadByte_def rbuf_guard rbuf_load)

lemma ReadByte_Nil: "rbuf b [] \<Longrightarrow> ReadByte b = Inr (None, b)"
  by (simp add: ReadByte_def rbuf_guard)

lemma ReadUint16_ok:
  assumes "rbuf b (be16 v @ rs)"
  shows "ReadUint16 b = Inr (Some v, adv b 2)"
proof -
  have b: "rbuf b (ucast (drop_bit 8 v) # ucast v # rs)"
    using assms by (simp add: be16_def)
  have l2: "load (bdata b) (unat (read_pos b + 1)) = Inr (ucast v)"
    using rbuf_load [OF rbuf_adv1 [OF b]] by simp
  show ?thesis
    using b l2 by (simp add: ReadUint16_def rbuf_guard rbuf_load Let_def be16_join add.assoc)
qed

lemma ReadUint16_short:
  "rbuf b rs \<Longrightarrow> length rs < 2 \<Longrightarrow> ReadUint16 b = Inr (None, b)"
  by (simp add: ReadUint16_def rbuf_guard)

lemma ReadUint32_ok:
  assumes "rbuf b (be32 v @ rs)"
  shows "ReadUint32 b = Inr (Some v, adv b 4)"
proof -
  have b: "rbuf b (ucast (drop_bit 24 v) # ucast (drop_bit 16 v) # ucast (drop_bit 8 v) # ucast v # rs)"
    using assms by (simp add: be32_def)
  note b1 = rbuf_adv1 [OF b] note b2 = rbuf_adv1 [OF b1] note b3 = rbuf_adv1 [OF b2]
  have "read_u32_loop 4 0 b = Inr (v, adv b 4)"
    using rbuf_load [OF b] rbuf_load [OF b1] rbuf_load [OF b2] rbuf_load [OF b3] be32_join [of v]
    by (simp add: eval_nat_numeral add.assoc)
  then show ?thesis
    using b by (simp add: ReadUint32_def rbuf_guard)
qed

lemma ReadUint32_short:
  "rbuf b rs \<Longrightarrow> length rs < 4 \<Longrightarrow> ReadUint32 b = Inr (None, b)"
  by (simp add: ReadUint32_def rbuf_guard)

lemma ReadBytes_ok:
  assumes "rbuf b (xs @ rs)" and "length xs = unat n" and "n = 0 \<or> mm n \<noteq> None"
  shows "ReadBytes mm b n = Inr (Some xs, adv b n)"
proof -
  have "unat n < 2 ^ 31" using assms(2) rbuf_length_less [OF assms(1)] by simp
  then show ?thesis
    using assms rbuf_load_n [OF assms(1), of "unat n"] by (auto simp: ReadBytes_def rbuf_guard)
qed

lemma ReadBytes_short:
  "rbuf b rs \<Longrightarrow> length rs < unat n \<Longrightarrow> unat n < 2 ^ 31 \<Longrightarrow> ReadBytes mm b n = Inr (None, b)"
  by (simp add: ReadBytes_def rbuf_guard)

lemma ReadStr_ok:
  assumes b: "rbuf b (be16 (word_of_nat (length xs)) @ xs @ rs)" and len: "length xs < 2 ^ 16"
    and m: "mm (word_of_nat (length xs) + 1) \<noteq> None"
  shows "ReadStr mm b = Inr (Some (cstr xs), adv b (2 + word_of_nat (length xs)))"
proof -
  let ?n = "word_of_nat (length xs) :: u16"
  have n: "(ucast ?n :: u32) = word_of_nat (length xs)"
    using len by (simp add: word_unat_eq_iff unsigned_ucast_eq unat_of_nat take_bit_nat_eq_self)
  have un: "unat (word_of_nat (length xs) :: u32) = length xs"
    using len by (intro unat_of_nat_no_wrap) simp
  have b2: "rbuf (adv b 2) (xs @ rs)"
    using b by (rule rbuf_adv_append) simp
  have unn: "unat ?n = length xs"
    using len by (intro unat_of_nat_no_wrap) simp
  have g: "\<not> read_pos (adv b 2) + word_of_nat (length xs) > write_pos (adv b 2)"
    using rbuf_guard [OF b2, of "word_of_nat (length xs)"] un len by simp
  have l: "load_n (bdata (adv b 2)) (unat (read_pos (adv b 2))) (length xs) = Inr xs"
    using rbuf_load_n [OF b2, of "length xs"] by simp
  show ?thesis
    using m g l ReadUint16_ok [OF b] by (simp add: ReadStr_def n unn add.assoc)
qed

text \<open>The digits of the reference encoding, as the readers take them apart.\<close>

lemma rl_digit_last:
  assumes "n < 128"
  shows "rl_enc n = [word_of_nat n]"
    and "(word_of_nat n :: u8) AND 0x80 = 0"
    and "(ucast ((word_of_nat n :: u8) AND 0x7f) :: u32) = word_of_nat n"
proof -
  have x: "unat (word_of_nat n :: u8) = n"
    using assms by (intro unat_of_nat_no_wrap) simp
  show "rl_enc n = [word_of_nat n]" using assms by (simp add: rl_enc.simps [of n])
  show "(word_of_nat n :: u8) AND 0x80 = 0" using assms x by (simp add: and_80_iff)
  show "(ucast ((word_of_nat n :: u8) AND 0x7f) :: u32) = word_of_nat n"
    using assms x by (metis mod_less of_nat_unat unat_and_7f)
qed

lemma rl_digit_more:
  assumes "\<not> n < 128"
  shows "rl_enc n = word_of_nat (n mod 128 + 128) # rl_enc (n div 128)"
    and "(word_of_nat (n mod 128 + 128) :: u8) AND 0x80 \<noteq> 0"
    and "(ucast ((word_of_nat (n mod 128 + 128) :: u8) AND 0x7f) :: u32) = word_of_nat (n mod 128)"
proof -
  have x: "unat (word_of_nat (n mod 128 + 128) :: u8) = n mod 128 + 128"
    by (intro unat_of_nat_no_wrap) simp
  show "rl_enc n = word_of_nat (n mod 128 + 128) # rl_enc (n div 128)"
    using assms by (simp add: rl_enc.simps [of n])
  show "(word_of_nat (n mod 128 + 128) :: u8) AND 0x80 \<noteq> 0" using x by (simp add: and_80_iff)
  show "(ucast ((word_of_nat (n mod 128 + 128) :: u8) AND 0x7f) :: u32) = word_of_nat (n mod 128)"
    using x by (metis mod_add_self2 mod_mod_trivial of_nat_unat unat_and_7f)
qed

lemma rl_sum:
  fixes lv mult :: u32
  shows "lv + word_of_nat (n mod 128) * mult + word_of_nat (n div 128) * (mult * 0x80) =
    lv + word_of_nat n * mult"
proof -
  have "(word_of_nat n :: u32) = word_of_nat (n mod 128 + 128 * (n div 128))"
    by simp
  also have "\<dots> = word_of_nat (n mod 128) + 128 * word_of_nat (n div 128)"
    by (simp only: of_nat_add of_nat_mult of_nat_numeral)
  finally show ?thesis by (simp add: algebra_simps)
qed

text \<open>Reading back the reference encoding of a length gives the length.\<close>

lemma remainlen_loop_ok:
  "rbuf b (rl_enc n @ rs) \<Longrightarrow> len_len + length (rl_enc n) \<le> 4 \<Longrightarrow>
   remainlen_loop b lv mult len_len =
     Inr (Some (lv + word_of_nat n * mult), adv b (word_of_nat (length (rl_enc n))))"
proof (induction n arbitrary: b lv mult len_len rule: rl_enc.induct)
  case (1 n)
  show ?case
  proof (cases "n < 128")
    case True
    note d = rl_digit_last [OF True]
    from d "1.prems" show ?thesis
      by (auto simp: remainlen_loop.simps [of b] ReadByte_Cons Let_def)
  next
    case False
    note d = rl_digit_more [OF False]
    from d "1.prems"(1) have b: "rbuf b (word_of_nat (n mod 128 + 128) # rl_enc (n div 128) @ rs)"
      by simp
    from d "1.prems"(2) have l: "Suc len_len + length (rl_enc (n div 128)) \<le> 4"
      by simp
    have "remainlen_loop b lv mult len_len =
        remainlen_loop (adv b 1) (lv + word_of_nat (n mod 128) * mult) (mult * 0x80) (Suc len_len)"
      using ReadByte_Cons [OF b] d l
      by (simp add: remainlen_loop.simps [of b lv mult len_len] Let_def)
    also have "\<dots> = Inr (Some (lv + word_of_nat n * mult),
        adv (adv b 1) (word_of_nat (length (rl_enc (n div 128)))))"
      using "1.IH" [OF False rbuf_adv1 [OF b] l] by (simp only: rl_sum)
    finally show ?thesis
      using d by (simp add: algebra_simps)
  qed
qed

lemma ReadRemainlen_ok:
  assumes "rbuf b (rl_enc n @ rs)" and "n < 2 ^ 28"
  shows "ReadRemainlen b = Inr (Some (word_of_nat n), adv b (word_of_nat (length (rl_enc n))))"
  using remainlen_loop_ok [OF assms(1), of 0 0 1] length_rl_enc4 [OF assms(2)]
  by (simp add: ReadRemainlen_def)

lemma rbuf_adv_rl_enc:
  assumes "rbuf b (rl_enc n @ rs)" and "n < 2 ^ 28"
  shows "rbuf (adv b (word_of_nat (length (rl_enc n)))) rs"
  using assms(1) length_rl_enc4 [OF assms(2)]
  by (intro rbuf_adv_append) (simp_all add: unat_of_nat_no_wrap)

end
