(* ===== verification/MemUtil.thy ===== *)
theory MemUtil
  imports Prelude
begin

text \<open>
  The overlapping block move of \<open>Sys/util.c\<close> (\<open>NST_MoveMemOvlap\<close>), on one array with the
  offsets of the destination and of the source.  The two loops copy byte by byte, upwards or
  downwards; the result is proved to be the block move of the C library (\<open>memmove\<close>).
\<close>

section \<open>The two copy loops\<close>

fun move_up :: "bytes \<Rightarrow> nat \<Rightarrow> nat \<Rightarrow> nat \<Rightarrow> bytes outcome" where
  "move_up m d s 0 = Inr m"
| "move_up m d s (Suc n) =
     ebind (load m s) (\<lambda>x. ebind (store m d x) (\<lambda>m. move_up m (Suc d) (Suc s) n))"

text \<open>Downwards, from the last byte: \<open>pDst + Size - 1\<close> and \<open>pSrc + Size - 1\<close>.\<close>

fun move_down :: "bytes \<Rightarrow> nat \<Rightarrow> nat \<Rightarrow> nat \<Rightarrow> bytes outcome" where
  "move_down m d s 0 = Inr m"
| "move_down m d s (Suc n) =
     ebind (load m (s + n)) (\<lambda>x. ebind (store m (d + n) x) (\<lambda>m. move_down m d s n))"

definition NST_MoveMemOvlap :: "bytes \<Rightarrow> nat \<Rightarrow> nat \<Rightarrow> u16 \<Rightarrow> bytes outcome" where
  "NST_MoveMemOvlap m dst src sz =
     (if dst > src then move_down m dst src (unat sz) else move_up m dst src (unat sz))"

section \<open>The block move\<close>

definition block_move :: "bytes \<Rightarrow> nat \<Rightarrow> nat \<Rightarrow> nat \<Rightarrow> bytes" where
  "block_move m d s n = take d m @ take n (drop s m) @ drop (d + n) m"

lemma length_block_move [simp]:
  "d + n \<le> length m \<Longrightarrow> s + n \<le> length m \<Longrightarrow> length (block_move m d s n) = length m"
  by (simp add: block_move_def)

lemma nth_block_move:
  assumes "d + n \<le> length m" and "s + n \<le> length m" and "i < length m"
  shows "block_move m d s n ! i = (if d \<le> i \<and> i < d + n then m ! (s + i - d) else m ! i)"
proof -
  consider "i < d" | "d \<le> i" "i < d + n" | "d + n \<le> i" by linarith
  moreover have "length (take n (drop s m)) = n" and "length (take d m) = d"
    using assms by simp_all
  ultimately show ?thesis
    using assms by cases (auto simp: block_move_def nth_append simp del: length_take length_drop)
qed

lemma move_up_block:
  "d \<le> s \<Longrightarrow> s + n \<le> length m \<Longrightarrow> move_up m d s n = Inr (block_move m d s n)"
proof (induction m d s n rule: move_up.induct)
  case (1 m d s)
  then show ?case by (simp add: block_move_def)
next
  case (2 m d s n)
  let ?m = "m[d := m ! s]"
  have "move_up m d s (Suc n) = move_up ?m (Suc d) (Suc s) n"
    using "2.prems" by (simp add: load_in store_in)
  also have "\<dots> = Inr (block_move ?m (Suc d) (Suc s) n)"
    using "2.prems" by (intro "2.IH") (auto simp: load_in store_in)
  also have "block_move ?m (Suc d) (Suc s) n = block_move m d s (Suc n)"
    using "2.prems" by (intro nth_equalityI) (auto simp: nth_block_move nth_list_update)
  finally show ?case .
qed

lemma move_down_block:
  "s < d \<Longrightarrow> d + n \<le> length m \<Longrightarrow> move_down m d s n = Inr (block_move m d s n)"
proof (induction m d s n rule: move_down.induct)
  case (1 m d s)
  then show ?case by (simp add: block_move_def)
next
  case (2 m d s n)
  let ?m = "m[d + n := m ! (s + n)]"
  have "move_down m d s (Suc n) = move_down ?m d s n"
    using "2.prems" by (simp add: load_in store_in)
  also have "\<dots> = Inr (block_move ?m d s n)"
    using "2.prems" by (intro "2.IH") (auto simp: load_in store_in)
  also have "block_move ?m d s n = block_move m d s (Suc n)"
    using "2.prems" by (intro nth_equalityI) (auto simp: nth_block_move nth_list_update less_Suc_eq)
  finally show ?case .
qed

lemma NST_MoveMemOvlap_block:
  assumes "dst + unat sz \<le> length m" and "src + unat sz \<le> length m"
  shows "NST_MoveMemOvlap m dst src sz = Inr (block_move m dst src (unat sz))"
  using assms by (auto simp: NST_MoveMemOvlap_def move_up_block move_down_block)

end
