(* ===== verification/EdpPacket.thy ===== *)
theory EdpPacket
  imports EdpBuffer MemUtil
begin

text \<open>
  The EDP packets of \<open>OneNet/EdpKit.c\<close> that carry plain strings and binary data: the message
  types and error codes, the packet builders (\<open>PacketConnect1\<close> to \<open>PacketPing\<close>), the framing
  of the receive stream (\<open>IsPkgComplete\<close>, \<open>GetEdpPacket\<close>) and the parsers (\<open>UnpackConnectResp\<close> to
  \<open>UnpackPingResp\<close>).  A parser returns \<open>Inl code\<close> where the C function returns an error code
  and \<open>Inr\<close> of its out-parameters where it returns 0.
\<close>

section \<open>Protocol constants\<close>

definition CONNREQ :: u8 where "CONNREQ = 0x10"
definition CONNRESP :: u8 where "CONNRESP = 0x20"
definition PUSHDATA :: u8 where "PUSHDATA = 0x30"
definition SAVEDATA :: u8 where "SAVEDATA = 0x80"
definition SAVEACK :: u8 where "SAVEACK = 0x90"
definition CMDREQ :: u8 where "CMDREQ = 0xA0"
definition CMDRESP :: u8 where "CMDRESP = 0xB0"
definition PINGREQ :: u8 where "PINGREQ = 0xC0"
definition PINGRESP :: u8 where "PINGRESP = 0xD0"

definition kTypeFullJson :: u8 where "kTypeFullJson = 0x01"
definition kTypeBin :: u8 where "kTypeBin = 0x02"
definition kTypeSimpleJsonWithoutTime :: u8 where "kTypeSimpleJsonWithoutTime = 0x03"
definition kTypeSimpleJsonWithTime :: u8 where "kTypeSimpleJsonWithTime = 0x04"
definition kTypeString :: u8 where "kTypeString = 0x05"

definition PROTOCOL_NAME :: cstring where "PROTOCOL_NAME = [0x45, 0x44, 0x50]"
definition PROTOCOL_VERSION :: u8 where "PROTOCOL_VERSION = 1"

definition ERR_UNPACK_CONNRESP_REMAIN :: int where "ERR_UNPACK_CONNRESP_REMAIN = -1000"
definition ERR_UNPACK_CONNRESP_FLAG :: int where "ERR_UNPACK_CONNRESP_FLAG = -1001"
definition ERR_UNPACK_CONNRESP_RTN :: int where "ERR_UNPACK_CONNRESP_RTN = -1002"
definition ERR_UNPACK_PUSHD_REMAIN :: int where "ERR_UNPACK_PUSHD_REMAIN = -1010"
definition ERR_UNPACK_PUSHD_DEVID :: int where "ERR_UNPACK_PUSHD_DEVID = -1011"
definition ERR_UNPACK_PUSHD_DATA :: int where "ERR_UNPACK_PUSHD_DATA = -1012"
definition ERR_UNPACK_SAVED_REMAIN :: int where "ERR_UNPACK_SAVED_REMAIN = -1020"
definition ERR_UNPACK_SAVED_TANSFLAG :: int where "ERR_UNPACK_SAVED_TANSFLAG = -1021"
definition ERR_UNPACK_SAVED_DEVID :: int where "ERR_UNPACK_SAVED_DEVID = -1022"
definition ERR_UNPACK_SAVED_DATAFLAG :: int where "ERR_UNPACK_SAVED_DATAFLAG = -1023"
definition ERR_UNPACK_SAVED_JSON :: int where "ERR_UNPACK_SAVED_JSON = -1024"
definition ERR_UNPACK_SAVED_BIN_DESC :: int where "ERR_UNPACK_SAVED_BIN_DESC = -1026"
definition ERR_UNPACK_SAVED_BINLEN :: int where "ERR_UNPACK_SAVED_BINLEN = -1028"
definition ERR_UNPACK_SAVED_BINDATA :: int where "ERR_UNPACK_SAVED_BINDATA = -1029"
definition ERR_UNPACK_PING_REMAIN :: int where "ERR_UNPACK_PING_REMAIN = -1030"
definition ERR_UNPACK_CMDREQ :: int where "ERR_UNPACK_CMDREQ = -1031"
definition ERR_UNPACK_SAVEDATA_ACK :: int where "ERR_UNPACK_SAVEDATA_ACK = -1033"

section \<open>Packet builders\<close>

text \<open>A sequence of write statements: the return codes are ignored.\<close>

fun run_writes :: "writer list \<Rightarrow> edp_buffer \<Rightarrow> edp_buffer outcome" where
  "run_writes [] pkg = Inr pkg"
| "run_writes (w # ws) pkg = ebind (w pkg) (\<lambda>(rc, pkg). run_writes ws pkg)"

definition PacketConnect1 ::
  "mallocator \<Rightarrow> cstring \<Rightarrow> cstring \<Rightarrow> edp_buffer outcome" where
  "PacketConnect1 mm devid auth_key =
     ebind (NewBuffer mm) (\<lambda>pkg.
     let remainlen = word_of_nat ((2+3)+1+1+2+(2+length devid)+(2+length auth_key)) in
     run_writes
       [WriteByte mm CONNREQ,
        WriteRemainlen remainlen,
        WriteStr mm PROTOCOL_NAME,
        WriteByte mm PROTOCOL_VERSION,
        WriteByte mm 0x40,
        WriteUint16 mm 0x0080,
        WriteStr mm devid,
        WriteStr mm auth_key] pkg)"

definition PacketConnect2 ::
  "mallocator \<Rightarrow> cstring \<Rightarrow> cstring \<Rightarrow> edp_buffer outcome" where
  "PacketConnect2 mm userid auth_info =
     ebind (NewBuffer mm) (\<lambda>pkg.
     let remainlen = word_of_nat ((2+3)+1+1+2+2+(2+length userid)+(2+length auth_info)) in
     run_writes
       [WriteByte mm CONNREQ,
        WriteRemainlen remainlen,
        WriteStr mm PROTOCOL_NAME,
        WriteByte mm PROTOCOL_VERSION,
        WriteByte mm 0xC0,
        WriteUint16 mm 0x0080,
        WriteByte mm 0x00,
        WriteByte mm 0x00,
        WriteStr mm userid,
        WriteStr mm auth_info] pkg)"

definition PacketPushdata ::
  "mallocator \<Rightarrow> cstring \<Rightarrow> bytes \<Rightarrow> u32 \<Rightarrow> edp_buffer outcome" where
  "PacketPushdata mm dst_devid data data_len =
     ebind (NewBuffer mm) (\<lambda>pkg.
     let remainlen = word_of_nat (2 + length dst_devid) + data_len in
     run_writes
       [WriteByte mm PUSHDATA,
        WriteRemainlen remainlen,
        WriteStr mm dst_devid,
        WriteBytes mm data data_len] pkg)"

text \<open>
  The address part shared by the SAVEDATA packets: with a destination the remaining length
  counts it and the flag is \<open>0x80\<close>, without one the flag is \<open>0x00\<close>.  \<open>rest\<close> is the length of
  what follows the address part.
\<close>

definition savedata_address :: "mallocator \<Rightarrow> cstring option \<Rightarrow> u32 \<Rightarrow> writer list" where
  "savedata_address mm dst_devid rest =
     (case dst_devid of
        Some devid \<Rightarrow>
          [WriteRemainlen (1 + word_of_nat (2 + length devid) + rest),
           WriteByte mm 0x80,
           WriteStr mm devid]
      | None \<Rightarrow>
          [WriteRemainlen (1 + rest),
           WriteByte mm 0x00])"

definition PacketSavedataBinStr ::
  "mallocator \<Rightarrow> cstring option \<Rightarrow> cstring \<Rightarrow> bytes \<Rightarrow> u32 \<Rightarrow> edp_buffer option outcome" where
  "PacketSavedataBinStr mm dst_devid desc_str bin_data bin_len =
     (let desc_len = (word_of_nat (length desc_str) :: u32) in
      if desc_len > push_bit 16 0x01 \<or> bin_len > 3 * push_bit 20 0x01 then Inr None
      else ebind (NewBuffer mm) (\<lambda>pkg.
           ebind (run_writes
             ([WriteByte mm SAVEDATA] @
              savedata_address mm dst_devid (1 + (2 + desc_len) + (4 + bin_len)) @
              [WriteByte mm 0x02,
               WriteStr mm desc_str,
               WriteUint32 mm bin_len,
               WriteBytes mm bin_data bin_len]) pkg) (\<lambda>pkg. Inr (Some pkg))))"

definition PacketSavedataSimpleString ::
  "mallocator \<Rightarrow> cstring option \<Rightarrow> cstring \<Rightarrow> edp_buffer outcome" where
  "PacketSavedataSimpleString mm dst_devid input =
     ebind (NewBuffer mm) (\<lambda>pkg.
     let input_len = (word_of_nat (length input) :: u32) in
     run_writes
       ([WriteByte mm SAVEDATA] @
        savedata_address mm dst_devid (1 + (2 + input_len)) @
        [WriteByte mm kTypeString,
         WriteStr mm input]) pkg)"

definition PacketCmdResp ::
  "mallocator \<Rightarrow> bytes \<Rightarrow> u16 \<Rightarrow> bytes \<Rightarrow> u32 \<Rightarrow> edp_buffer outcome" where
  "PacketCmdResp mm cmdid cmdid_len resp resp_len =
     ebind (NewBuffer mm) (\<lambda>send_pkg.
     let remainlen = ucast cmdid_len + resp_len + (if resp_len \<noteq> 0 then 6 else 2) in
     run_writes
       ([WriteByte mm CMDRESP,
         WriteRemainlen remainlen,
         WriteUint16 mm cmdid_len,
         WriteBytes mm cmdid (ucast cmdid_len)] @
        (if resp_len \<noteq> 0
         then [WriteUint32 mm resp_len, WriteBytes mm resp resp_len] else [])) send_pkg)"

definition PacketPing :: "mallocator \<Rightarrow> edp_buffer outcome" where
  "PacketPing mm =
     ebind (NewBuffer mm) (\<lambda>pkg. run_writes [WriteByte mm PINGREQ, WriteRemainlen 0] pkg)"

section \<open>Framing of the receive stream\<close>

text \<open>
  The digit loop of \<open>IsPkgComplete\<close>: \<open>Inl\<close> of an early return value, or \<open>Inr\<close> of the final
  \<open>len_len\<close> and \<open>len_val\<close>.  The digit is read at the index \<open>len_len\<close> had before its increment.
\<close>

function pkg_len_loop ::
  "bytes \<Rightarrow> u32 \<Rightarrow> nat \<Rightarrow> u32 \<Rightarrow> u32 \<Rightarrow> (int + nat \<times> u32) outcome" where
  "pkg_len_loop data data_len len_len len_val multiplier =
     (if len_len > 4 then Inr (Inl (-1))
      else if len_len > unat (data_len - 1) then Inr (Inl 0)
      else ebind (load data len_len) (\<lambda>digit.
           let len_val = len_val + ucast (digit AND 0x7f) * multiplier;
               multiplier = multiplier * 0x80
           in if digit AND 0x80 \<noteq> 0
              then pkg_len_loop data data_len (Suc len_len) len_val multiplier
              else Inr (Inr (Suc len_len, len_val))))"
  by pat_completeness auto
termination
  by (relation "measure (\<lambda>(data, data_len, len_len, len_val, multiplier). 5 - len_len)") auto

declare pkg_len_loop.simps [simp del]

definition IsPkgComplete :: "edp_buffer \<Rightarrow> int outcome" where
  "IsPkgComplete buf =
     (let data_len = write_pos buf in
      if data_len \<le> 1 then Inr 0
      else ebind (pkg_len_loop (bdata buf) data_len 1 0 1) (\<lambda>r.
           case r of
             Inl rc \<Rightarrow> Inr rc
           | Inr (len_len, len_val) \<Rightarrow>
               let pkg_total_len = word_of_nat len_len + len_val in
               if pkg_total_len \<le> data_len then Inr (sint pkg_total_len) else Inr 0))"

definition GetEdpPacket ::
  "mallocator \<Rightarrow> edp_buffer \<Rightarrow> (edp_buffer option \<times> edp_buffer) outcome" where
  "GetEdpPacket mm buf =
     ebind (IsPkgComplete buf) (\<lambda>flag.
     ebind (assertE (read_pos buf = 0)) (\<lambda>_.
     if flag \<le> 0 then Inr (None, buf)
     else ebind (NewBuffer mm) (\<lambda>pkg.
          ebind (WriteBytes mm (bdata buf) (word_of_int flag) pkg) (\<lambda>(rc, pkg).
          ebind (NST_MoveMemOvlap (bdata buf) 0 (nat flag)
                   (ucast (write_pos buf - word_of_int flag))) (\<lambda>d.
          Inr (Some pkg, buf\<lparr>bdata := d, write_pos := write_pos buf - word_of_int flag\<rparr>))))))"

definition EdpPacketType :: "edp_buffer \<Rightarrow> (u8 \<times> edp_buffer) outcome" where
  "EdpPacketType pkg =
     ebind (ReadByte pkg) (\<lambda>(rc, pkg). Inr (case rc of None \<Rightarrow> 0x00 | Some mtype \<Rightarrow> mtype, pkg))"

section \<open>Parsers\<close>

text \<open>\<open>if (Read...(pkg, &v)) return err;\<close> followed by the rest of the body.\<close>

definition read_or ::
  "('v option \<times> edp_buffer) outcome \<Rightarrow> int \<Rightarrow>
   ('v \<Rightarrow> edp_buffer \<Rightarrow> ((int + 'a) \<times> edp_buffer) outcome) \<Rightarrow> ((int + 'a) \<times> edp_buffer) outcome" where
  "read_or m err k =
     ebind m (\<lambda>(rc, pkg). case rc of None \<Rightarrow> Inr (Inl err, pkg) | Some v \<Rightarrow> k v pkg)"

text \<open>\<open>assert(pkg->_read_pos == pkg->_write_pos); return 0;\<close>\<close>

definition all_read :: "'a \<Rightarrow> edp_buffer \<Rightarrow> ((int + 'a) \<times> edp_buffer) outcome" where
  "all_read v pkg =
     ebind (assertE (read_pos pkg = write_pos pkg)) (\<lambda>_. Inr (Inr v, pkg))"

text \<open>The success value of \<open>UnpackConnectResp\<close> is the server's return byte.\<close>

definition UnpackConnectResp :: "edp_buffer \<Rightarrow> ((int + u8) \<times> edp_buffer) outcome" where
  "UnpackConnectResp pkg =
     read_or (ReadRemainlen pkg) ERR_UNPACK_CONNRESP_REMAIN (\<lambda>remainlen pkg.
     read_or (ReadByte pkg) ERR_UNPACK_CONNRESP_FLAG (\<lambda>flag pkg.
     read_or (ReadByte pkg) ERR_UNPACK_CONNRESP_RTN (\<lambda>rtn pkg.
     all_read rtn pkg)))"

definition UnpackPushdata ::
  "mallocator \<Rightarrow> edp_buffer \<Rightarrow> ((int + cstring \<times> bytes \<times> u32) \<times> edp_buffer) outcome" where
  "UnpackPushdata mm pkg =
     read_or (ReadRemainlen pkg) ERR_UNPACK_PUSHD_REMAIN (\<lambda>remainlen pkg.
     read_or (ReadStr mm pkg) ERR_UNPACK_PUSHD_DEVID (\<lambda>src_devid pkg.
     let remainlen = remainlen - (2 + word_of_nat (length src_devid)) in
     read_or (ReadBytes mm pkg remainlen) ERR_UNPACK_PUSHD_DATA (\<lambda>data pkg.
     all_read (src_devid, data, remainlen) pkg)))"

definition UnpackSavedata ::
  "mallocator \<Rightarrow> edp_buffer \<Rightarrow> ((int + cstring option \<times> u8) \<times> edp_buffer) outcome" where
  "UnpackSavedata mm pkg =
     read_or (ReadRemainlen pkg) ERR_UNPACK_SAVED_REMAIN (\<lambda>remainlen pkg.
     read_or (ReadByte pkg) ERR_UNPACK_SAVED_TANSFLAG (\<lambda>ta_flag pkg.
     if ta_flag = 0x80
     then read_or (ReadStr mm pkg) ERR_UNPACK_SAVED_DEVID (\<lambda>src_devid pkg.
          read_or (ReadByte pkg) ERR_UNPACK_SAVED_DATAFLAG (\<lambda>jb_flag pkg.
          Inr (Inr (Some src_devid, jb_flag), pkg)))
     else read_or (ReadByte pkg) ERR_UNPACK_SAVED_DATAFLAG (\<lambda>jb_flag pkg.
          Inr (Inr (None, jb_flag), pkg))))"

definition UnpackSavedataBinStr ::
  "mallocator \<Rightarrow> edp_buffer \<Rightarrow> ((int + cstring \<times> bytes \<times> u32) \<times> edp_buffer) outcome" where
  "UnpackSavedataBinStr mm pkg =
     read_or (ReadStr mm pkg) ERR_UNPACK_SAVED_BIN_DESC (\<lambda>desc_str pkg.
     read_or (ReadUint32 pkg) ERR_UNPACK_SAVED_BINLEN (\<lambda>bin_len pkg.
     read_or (ReadBytes mm pkg bin_len) ERR_UNPACK_SAVED_BINDATA (\<lambda>bin_data pkg.
     all_read (desc_str, bin_data, bin_len) pkg)))"

definition UnpackSavedataSimpleString ::
  "mallocator \<Rightarrow> edp_buffer \<Rightarrow> ((int + cstring) \<times> edp_buffer) outcome" where
  "UnpackSavedataSimpleString mm pkg =
     read_or (ReadStr mm pkg) ERR_UNPACK_SAVED_JSON (\<lambda>output pkg. Inr (Inr output, pkg))"

definition UnpackSavedataAck ::
  "mallocator \<Rightarrow> edp_buffer \<Rightarrow> ((int + bytes) \<times> edp_buffer) outcome" where
  "UnpackSavedataAck mm pkg =
     read_or (ReadRemainlen pkg) ERR_UNPACK_SAVEDATA_ACK (\<lambda>remainlen pkg.
     read_or (ReadByte pkg) ERR_UNPACK_SAVEDATA_ACK (\<lambda>flag pkg.
     read_or (ReadUint16 pkg) ERR_UNPACK_SAVEDATA_ACK (\<lambda>json_len pkg.
     read_or (ReadBytes mm pkg (ucast json_len)) ERR_UNPACK_SAVEDATA_ACK (\<lambda>json_ack pkg.
     Inr (Inr json_ack, pkg)))))"

definition UnpackCmdReq ::
  "mallocator \<Rightarrow> edp_buffer \<Rightarrow>
   ((int + bytes \<times> u16 \<times> bytes \<times> u32) \<times> edp_buffer) outcome" where
  "UnpackCmdReq mm pkg =
     read_or (ReadRemainlen pkg) ERR_UNPACK_CMDREQ (\<lambda>remainlen pkg.
     read_or (ReadUint16 pkg) (-1) (\<lambda>cmdid_len pkg.
     read_or (ReadBytes mm pkg (ucast cmdid_len)) ERR_UNPACK_CMDREQ (\<lambda>cmdid pkg.
     read_or (ReadUint32 pkg) (-1) (\<lambda>req_len pkg.
     read_or (ReadBytes mm pkg req_len) ERR_UNPACK_CMDREQ (\<lambda>req pkg.
     all_read (cmdid, cmdid_len, req, req_len) pkg)))))"

definition UnpackPingResp :: "edp_buffer \<Rightarrow> ((int + unit) \<times> edp_buffer) outcome" where
  "UnpackPingResp pkg =
     read_or (ReadRemainlen pkg) ERR_UNPACK_PING_REMAIN (\<lambda>remainlen pkg. all_read () pkg)"

end
