(* ===== verification/EdpWire.thy ===== *)
theory EdpWire
  imports EdpPacket
begin

text \<open>
  The wire format of the EDP packets, and what the builders and parsers of EdpPacket do with
  it: each builder produces exactly the frame of its message, and the parser of a message
  recovers the fields the builder was given.
\<close>

section \<open>Wire format\<close>

definition wire_str :: "cstring \<Rightarrow> bytes" where
  "wire_str s = be16 (word_of_nat (length s)) @ s"

definition frame :: "u8 \<Rightarrow> bytes \<Rightarrow> bytes" where
  "frame mtype body = mtype # rl_enc (length body) @ body"

text \<open>The address part of a SAVEDATA message.\<close>

definition wire_address :: "cstring option \<Rightarrow> bytes" where
  "wire_address dst = (case dst of None \<Rightarrow> [0x00] | Some devid \<Rightarrow> 0x80 # wire_str devid)"

lemma length_wire_str [simp]: "length (wire_str s) = 2 + length s"
  by (simp add: wire_str_def)

lemma length_frame: "length (frame t body) = 1 + length (rl_enc (length body)) + length body"
  by (simp add: frame_def)

section \<open>Builders\<close>

lemma run_writes_appends:
  assumes "list_all2 (appends limit) ws bss" and "wbuf b"
    and "fits limit (length (contents b) + length (concat bss))"
  shows "\<exists>b'. run_writes ws b = Inr b' \<and> wbuf b' \<and> contents b' = contents b @ concat bss"
  using assms
proof (induction ws bss arbitrary: b rule: list_all2_induct)
  case Nil
  then show ?case by simp
next
  case (Cons w ws bs bss)
  have "fits limit (length (contents b) + length bs)"
    using Cons.prems(2) by (rule fits_mono) simp
  with Cons.hyps(1) Cons.prems(1) obtain b1 where
    b1: "w b = Inr (0, b1)" "wbuf b1" "contents b1 = contents b @ bs"
    by (rule appendsD)
  then show ?case
    using Cons.IH [of b1] Cons.prems(2) by (simp add: add.assoc)
qed

lemma run_writes_append:
  "run_writes (us @ ws) b = ebind (run_writes us b) (run_writes ws)"
proof (induction us arbitrary: b)
  case (Cons u us)
  then show ?case by (cases "u b") auto
qed simp

context byte_malloc
begin

text \<open>
  The pattern of every builder: message type, remaining length, then the fields, whose total
  length is the remaining length.
\<close>

lemma build_packet:
  assumes P: "P = ebind (NewBuffer mm) (run_writes (WriteByte mm t # WriteRemainlen v # ws))"
    and ws: "list_all2 (appends limit) ws bss" and v: "unat v < 2 ^ 28"
    and fit: "fits limit (5 + length (concat bss))"
  shows "\<exists>pkg. P = Inr pkg \<and> wbuf pkg \<and> contents pkg = t # rl_enc (unat v) @ concat bss"
proof -
  obtain b where b: "NewBuffer mm = Inr b" "wbuf b" "contents b = []"
    using NewBuffer_ok by blast
  have "fits limit (length (contents b) + length [t])"
    using b by (simp add: fits_def)
  with appends_WriteByte b(2) obtain b1 where
    b1: "WriteByte mm t b = Inr (0, b1)" "wbuf b1" "contents b1 = contents b @ [t]"
    by (rule appendsD)
  obtain b2 where b2: "WriteRemainlen v b1 = Inr (0, b2)" "wbuf b2" "contents b2 = t # rl_enc (unat v)"
    using WriteRemainlen_ok [of b1 v] b1 b v by auto
  have "fits limit (length (contents b2) + length (concat bss))"
    using fit length_rl_enc4 [OF v] b2(3) by (auto elim: fits_mono)
  then show ?thesis
    using run_writes_appends [OF ws b2(2)] b b1 b2 P by simp
qed

lemma build_frame:
  assumes P: "P = ebind (NewBuffer mm) (run_writes (WriteByte mm t # WriteRemainlen v # ws))"
    and ws: "list_all2 (appends limit) ws bss" and body: "concat bss = body"
    and v: "unat v = length body" and small: "length body < 2 ^ 28"
    and fit: "fits limit (5 + length body)"
  shows "\<exists>pkg. P = Inr pkg \<and> wbuf pkg \<and> contents pkg = frame t body"
  using build_packet [OF P ws] v small fit body by (simp add: frame_def)

lemma appends_WriteStr': "length s < 2 ^ 16 \<Longrightarrow> appends limit (WriteStr mm s) (wire_str s)"
  unfolding wire_str_def by (rule appends_WriteStr)

lemma appends_WriteBytes_all:
  "unat count = length src \<Longrightarrow> appends limit (WriteBytes mm src count) src"
  using appends_WriteBytes [of count src] by simp

lemmas appends_writers =
  appends_WriteByte appends_WriteUint16 appends_WriteUint32 appends_WriteStr' appends_WriteBytes_all

lemma PacketConnect1_frame:
  assumes len: "length devid < 2 ^ 16" "length key < 2 ^ 16"
    and fit: "fits limit (18 + length devid + length key)"
  shows "\<exists>pkg. PacketConnect1 mm devid key = Inr pkg \<and> wbuf pkg \<and>
    contents pkg = frame CONNREQ (wire_str PROTOCOL_NAME @ [PROTOCOL_VERSION, 0x40] @
      be16 0x0080 @ wire_str devid @ wire_str key)"
proof (rule build_frame [where bss = "[wire_str PROTOCOL_NAME, [PROTOCOL_VERSION], [0x40],
    be16 0x0080, wire_str devid, wire_str key]"])
  show "PacketConnect1 mm devid key = ebind (NewBuffer mm) (run_writes
    (WriteByte mm CONNREQ #
     WriteRemainlen (word_of_nat ((2+3)+1+1+2+(2+length devid)+(2+length key))) #
     [WriteStr mm PROTOCOL_NAME, WriteByte mm PROTOCOL_VERSION, WriteByte mm 0x40,
      WriteUint16 mm 0x0080, WriteStr mm devid, WriteStr mm key]))"
    by (simp only: PacketConnect1_def Let_def)
  show "unat (word_of_nat ((2+3)+1+1+2+(2+length devid)+(2+length key)) :: u32) =
    length (wire_str PROTOCOL_NAME @ [PROTOCOL_VERSION, 0x40] @ be16 0x0080 @
      wire_str devid @ wire_str key)"
    using len by (subst unat_of_nat_no_wrap) (simp_all add: PROTOCOL_NAME_def)
qed (use len fit in \<open>auto simp: appends_writers PROTOCOL_NAME_def add.assoc\<close>)

lemma PacketConnect2_frame:
  assumes len: "length userid < 2 ^ 16" "length auth < 2 ^ 16"
    and fit: "fits limit (20 + length userid + length auth)"
  shows "\<exists>pkg. PacketConnect2 mm userid auth = Inr pkg \<and> wbuf pkg \<and>
    contents pkg = frame CONNREQ (wire_str PROTOCOL_NAME @ [PROTOCOL_VERSION, 0xC0] @
      be16 0x0080 @ [0x00, 0x00] @ wire_str userid @ wire_str auth)"
proof (rule build_frame [where bss = "[wire_str PROTOCOL_NAME, [PROTOCOL_VERSION], [0xC0],
    be16 0x0080, [0x00], [0x00], wire_str userid, wire_str auth]"])
  show "PacketConnect2 mm userid auth = ebind (NewBuffer mm) (run_writes
    (WriteByte mm CONNREQ #
     WriteRemainlen (word_of_nat ((2+3)+1+1+2+2+(2+length userid)+(2+length auth))) #
     [WriteStr mm PROTOCOL_NAME, WriteByte mm PROTOCOL_VERSION, WriteByte mm 0xC0,
      WriteUint16 mm 0x0080, WriteByte mm 0x00, WriteByte mm 0x00,
      WriteStr mm userid, WriteStr mm auth]))"
    by (simp only: PacketConnect2_def Let_def)
  show "unat (word_of_nat ((2+3)+1+1+2+2+(2+length userid)+(2+length auth)) :: u32) =
    length (wire_str PROTOCOL_NAME @ [PROTOCOL_VERSION, 0xC0] @ be16 0x0080 @ [0x00, 0x00] @
      wire_str userid @ wire_str auth)"
    using len by (subst unat_of_nat_no_wrap) (simp_all add: PROTOCOL_NAME_def)
qed (use len fit in \<open>auto simp: appends_writers PROTOCOL_NAME_def add.assoc\<close>)

lemma PacketPushdata_frame:
  assumes len: "length devid < 2 ^ 16" "unat n = length d"
    and small: "length d < 2 ^ 27" and fit: "fits limit (7 + length devid + length d)"
  shows "\<exists>pkg. PacketPushdata mm devid d n = Inr pkg \<and> wbuf pkg \<and>
    contents pkg = frame PUSHDATA (wire_str devid @ d)"
proof (rule build_frame [where bss = "[wire_str devid, d]"])
  show "PacketPushdata mm devid d n = ebind (NewBuffer mm) (run_writes
    (WriteByte mm PUSHDATA # WriteRemainlen (word_of_nat (2 + length devid) + n) #
     [WriteStr mm devid, WriteBytes mm d n]))"
    by (simp only: PacketPushdata_def Let_def)
  have "unat (word_of_nat (2 + length devid) :: u32) = 2 + length devid"
    using len by (intro unat_of_nat_no_wrap) simp
  then show "unat (word_of_nat (2 + length devid) + n) = length (wire_str devid @ d)"
    using len small by (subst unat_add_no_wrap) simp_all
qed (use len small fit in \<open>auto simp: appends_writers add.assoc\<close>)

lemma PacketPing_frame:
  "\<exists>pkg. PacketPing mm = Inr pkg \<and> wbuf pkg \<and> contents pkg = frame PINGREQ []"
proof (rule build_frame [where bss = "[]"])
  show "PacketPing mm = ebind (NewBuffer mm) (run_writes (WriteByte mm PINGREQ # WriteRemainlen 0 # []))"
    by (simp only: PacketPing_def)
qed (simp_all add: fits_def)

lemma PacketCmdResp_frame:
  assumes len: "unat cn = length cmdid" "unat rn = length resp"
    and small: "length resp < 2 ^ 27" and fit: "fits limit (11 + length cmdid + length resp)"
  shows "\<exists>pkg. PacketCmdResp mm cmdid cn resp rn = Inr pkg \<and> wbuf pkg \<and>
    contents pkg = frame CMDRESP (be16 cn @ cmdid @ (if resp = [] then [] else be32 rn @ resp))"
proof -
  have c: "unat (ucast cn :: u32) = length cmdid"
    using len(1) unat_u16_less [of cn] by (simp add: unsigned_ucast_eq take_bit_nat_eq_self)
  have sum: "unat (ucast cn + rn) = length cmdid + length resp"
    using c len small unat_u16_less [of cn] by (subst unat_add_no_wrap) simp_all
  have cl: "length cmdid < 65536" using len(1) unat_u16_less [of cn] by simp
  show ?thesis
  proof (cases "resp = []")
    case True
    with len have rn: "rn = 0" by (simp add: unat_eq_0)
    have "\<exists>pkg. PacketCmdResp mm cmdid cn resp rn = Inr pkg \<and> wbuf pkg \<and>
      contents pkg = frame CMDRESP (be16 cn @ cmdid)"
    proof (rule build_frame [where bss = "[be16 cn, cmdid]"])
      show "PacketCmdResp mm cmdid cn resp rn = ebind (NewBuffer mm) (run_writes
        (WriteByte mm CMDRESP # WriteRemainlen (ucast cn + rn + 2) #
         [WriteUint16 mm cn, WriteBytes mm cmdid (ucast cn)]))"
        using rn by (simp add: PacketCmdResp_def Let_def del: run_writes.simps)
      show "unat (ucast cn + rn + 2) = length (be16 cn @ cmdid)"
        using sum rn cl True by (subst unat_add_no_wrap) simp_all
    qed (use c cl fit in \<open>auto simp: appends_writers elim: fits_mono\<close>)
    with True show ?thesis by simp
  next
    case False
    with len have rn: "rn \<noteq> 0" by auto
    have "\<exists>pkg. PacketCmdResp mm cmdid cn resp rn = Inr pkg \<and> wbuf pkg \<and>
      contents pkg = frame CMDRESP (be16 cn @ cmdid @ be32 rn @ resp)"
    proof (rule build_frame [where bss = "[be16 cn, cmdid, be32 rn, resp]"])
      show "PacketCmdResp mm cmdid cn resp rn = ebind (NewBuffer mm) (run_writes
        (WriteByte mm CMDRESP # WriteRemainlen (ucast cn + rn + 6) #
         [WriteUint16 mm cn, WriteBytes mm cmdid (ucast cn), WriteUint32 mm rn, WriteBytes mm resp rn]))"
        using rn by (simp add: PacketCmdResp_def Let_def del: run_writes.simps)
      show "unat (ucast cn + rn + 6) = length (be16 cn @ cmdid @ be32 rn @ resp)"
        using sum small cl by (subst unat_add_no_wrap) simp_all
    qed (use c cl fit small len in \<open>auto simp: appends_writers add.assoc elim: fits_mono\<close>)
    with False show ?thesis by simp
  qed
qed

text \<open>
  SAVEDATA packets: the fields after the address part are written by \<open>ws\<close>, whose total length
  \<open>rest\<close> the caller has computed.
\<close>

lemma savedata_frame:
  assumes ws: "list_all2 (appends limit) ws bss" and rest: "unat rest = length (concat bss)"
    and small: "length (concat bss) < 2 ^ 27"
    and dst: "\<And>devid. dst = Some devid \<Longrightarrow> length devid < 2 ^ 16"
    and fit: "fits limit (5 + length (wire_address dst) + length (concat bss))"
  shows "\<exists>pkg. ebind (NewBuffer mm)
      (run_writes ([WriteByte mm SAVEDATA] @ savedata_address mm dst rest @ ws)) = Inr pkg \<and>
    wbuf pkg \<and> contents pkg = frame SAVEDATA (wire_address dst @ concat bss)"
proof (cases dst)
  case None
  show ?thesis
  proof (rule build_frame [where bss = "[0x00] # bss" and ws = "WriteByte mm 0x00 # ws"])
    show "unat (1 + rest) = length (wire_address dst @ concat bss)"
      using rest small None by (subst unat_add_no_wrap) (simp_all add: wire_address_def)
  qed (use None ws small fit in \<open>auto simp: savedata_address_def wire_address_def appends_writers\<close>)
next
  case (Some devid)
  with dst have len: "length devid < 65536" by simp
  have un: "unat (1 + word_of_nat (2 + length devid) :: u32) = 3 + length devid"
    using len by (simp add: unat_word_ariths unat_of_nat)
  show ?thesis
  proof (rule build_frame [where bss = "[0x80] # wire_str devid # bss" and
        ws = "WriteByte mm 0x80 # WriteStr mm devid # ws"])
    show "unat (1 + word_of_nat (2 + length devid) + rest) = length (wire_address dst @ concat bss)"
      using rest small Some len un by (subst unat_add_no_wrap) (simp_all add: wire_address_def)
  qed (use Some ws small fit len in
      \<open>auto simp: savedata_address_def wire_address_def appends_writers add.assoc\<close>)
qed

lemma PacketSavedataSimpleString_frame:
  assumes len: "length input < 2 ^ 16"
    and dst: "\<And>devid. dst = Some devid \<Longrightarrow> length devid < 2 ^ 16"
    and fit: "fits limit (8 + length (wire_address dst) + length input)"
  shows "\<exists>pkg. PacketSavedataSimpleString mm dst input = Inr pkg \<and> wbuf pkg \<and>
    contents pkg = frame SAVEDATA (wire_address dst @ [kTypeString] @ wire_str input)"
proof -
  let ?rest = "1 + (2 + word_of_nat (length input)) :: u32"
  have "\<exists>pkg. ebind (NewBuffer mm) (run_writes ([WriteByte mm SAVEDATA] @
      savedata_address mm dst ?rest @ [WriteByte mm kTypeString, WriteStr mm input])) = Inr pkg \<and>
    wbuf pkg \<and> contents pkg = frame SAVEDATA (wire_address dst @ concat [[kTypeString], wire_str input])"
  proof (rule savedata_frame)
    show "unat ?rest = length (concat [[kTypeString], wire_str input])"
      using len by (simp add: unat_word_ariths unat_of_nat)
  qed (use len dst fit in \<open>auto simp: appends_writers add.commute add.left_commute\<close>)
  then show ?thesis
    by (simp add: PacketSavedataSimpleString_def Let_def del: run_writes.simps)
qed

lemma PacketSavedataBinStr_frame:
  assumes len: "length desc < 2 ^ 16" "unat n = length bin" "length bin \<le> 3 * 2 ^ 20"
    and dst: "\<And>devid. dst = Some devid \<Longrightarrow> length devid < 2 ^ 16"
    and fit: "fits limit (12 + length (wire_address dst) + length desc + length bin)"
  shows "\<exists>pkg. PacketSavedataBinStr mm dst desc bin n = Inr (Some pkg) \<and> wbuf pkg \<and>
    contents pkg = frame SAVEDATA (wire_address dst @ [kTypeBin] @ wire_str desc @ be32 n @ bin)"
proof -
  let ?dl = "word_of_nat (length desc) :: u32"
  let ?rest = "1 + (2 + ?dl) + (4 + n) :: u32"
  have dl: "unat ?dl = length desc" using len by (intro unat_of_nat_no_wrap) simp
  have ok: "\<not> (?dl > push_bit 16 0x01 \<or> n > 3 * push_bit 20 0x01)"
    using len dl by (auto simp: word_less_nat_alt push_bit_eq_mult)
  have "\<exists>pkg. ebind (NewBuffer mm) (run_writes ([WriteByte mm SAVEDATA] @
      savedata_address mm dst ?rest @ [WriteByte mm kTypeBin, WriteStr mm desc, WriteUint32 mm n,
        WriteBytes mm bin n])) = Inr pkg \<and> wbuf pkg \<and>
    contents pkg = frame SAVEDATA (wire_address dst @ concat [[kTypeBin], wire_str desc, be32 n, bin])"
  proof (rule savedata_frame)
    show "unat ?rest = length (concat [[kTypeBin], wire_str desc, be32 n, bin])"
      using len dl by (simp add: unat_word_ariths)
  qed (use len dst fit in \<open>auto simp: appends_writers add.commute add.left_commute\<close>)
  then obtain pkg where "ebind (NewBuffer mm) (run_writes ([WriteByte mm SAVEDATA] @
      savedata_address mm dst ?rest @ [WriteByte mm kTypeBin, WriteStr mm desc, WriteUint32 mm n,
        WriteBytes mm bin n])) = Inr pkg" "wbuf pkg"
    "contents pkg = frame SAVEDATA (wire_address dst @ [kTypeBin] @ wire_str desc @ be32 n @ bin)"
    by auto
  with ok show ?thesis
    by (auto simp: PacketSavedataBinStr_def Let_def kTypeBin_def ebind_Inr_iff simp del: run_writes.simps)
qed

end

section \<open>Parsers\<close>

lemma EdpPacketType_frame:
  assumes "rbuf b (frame t body)"
  shows "EdpPacketType b = Inr (t, adv b 1)" and "rbuf (adv b 1) (rl_enc (length body) @ body)"
  using assms by (simp_all add: EdpPacketType_def frame_def ReadByte_Cons rbuf_adv1)

lemma read_or_Some [simp]: "read_or (Inr (Some v, b)) e k = k v b"
  by (simp add: read_or_def)

lemma read_or_None [simp]: "read_or (Inr (None, b)) e k = Inr (Inl e, b)"
  by (simp add: read_or_def)

lemma all_read_ok: "rbuf b [] \<Longrightarrow> all_read v b = Inr (Inr v, b)"
  using rbuf_length [of b "[]"]
  by (auto simp: all_read_def rbuf_def word_unat_eq_iff)

lemma all_read_left: "rbuf b (x # xs) \<Longrightarrow> all_read v b = Inl AssertFailed"
  using rbuf_length [of b "x # xs"]
  by (cases "read_pos b = write_pos b") (simp_all add: all_read_def)

lemma rbuf_after_str:
  assumes "rbuf b (wire_str s @ rs)" and "length s < 2 ^ 16"
  shows "rbuf (adv b (2 + word_of_nat (length s))) rs"
proof (rule rbuf_adv_append)
  show "rbuf b (wire_str s @ rs)" by (rule assms(1))
  show "length (wire_str s) = unat (2 + word_of_nat (length s) :: u32)"
    using assms(2) by (simp add: unat_word_ariths unat_of_nat)
qed

context byte_malloc
begin

lemma mm_ok: "unat n \<le> limit \<Longrightarrow> mm n \<noteq> None"
  using mm_total [of n] by auto

lemma ReadStr_wire:
  assumes b: "rbuf b (wire_str s @ rs)" and s: "is_cstring s" "length s < 2 ^ 16"
    and m: "length s < limit"
  shows "ReadStr mm b = Inr (Some s, adv b (2 + word_of_nat (length s)))"
proof -
  have "unat (word_of_nat (length s) + 1 :: u32) = Suc (length s)"
    using s(2) by (simp add: unat_word_ariths unat_of_nat)
  then have "mm (word_of_nat (length s) + 1) \<noteq> None"
    using m by (intro mm_ok) simp
  then show ?thesis
    using ReadStr_ok [of b s rs mm] b s by (simp add: wire_str_def cstr_id)
qed

lemma ReadBytes_wire:
  assumes "rbuf b (xs @ rs)" and "length xs = unat n" and "unat n \<le> limit"
  shows "ReadBytes mm b n = Inr (Some xs, adv b n)"
  using assms mm_ok [of n] by (intro ReadBytes_ok) auto

lemma UnpackPushdata_frame:
  assumes b: "rbuf b (frame PUSHDATA (wire_str devid @ d))"
    and s: "is_cstring devid" "length devid < 2 ^ 16"
    and n: "unat n = length d" "length d < 2 ^ 27"
    and m: "length devid < limit" "length d \<le> limit"
  shows "\<exists>b'. UnpackPushdata mm (adv b 1) = Inr (Inr (devid, d, n), b') \<and> rbuf b' []"
proof -
  let ?body = "wire_str devid @ d" let ?l = "length ?body"
  let ?b1 = "adv b 1" let ?b2 = "adv ?b1 (word_of_nat (length (rl_enc ?l)))"
  let ?b3 = "adv ?b2 (2 + word_of_nat (length devid))"
  have small: "?l < 2 ^ 28" using s n by simp
  have b1: "rbuf ?b1 (rl_enc ?l @ ?body)" using EdpPacketType_frame(2) [OF b] .
  have b2: "rbuf ?b2 ?body" using rbuf_adv_rl_enc [OF b1 small] .
  have b3: "rbuf ?b3 (d @ [])" using rbuf_after_str [OF b2 s(2)] by simp
  have "(word_of_nat ?l :: u32) = 2 + word_of_nat (length devid) + word_of_nat (length d)"
    by simp
  moreover have "word_of_nat (length d) = n" using n(1) by (metis of_nat_unat ucast_id)
  ultimately have rest: "word_of_nat ?l - (2 + word_of_nat (length devid)) = n" by simp
  have b4: "rbuf (adv ?b3 n) []" using n by (intro rbuf_adv_append [OF b3]) simp
  show ?thesis
    using ReadRemainlen_ok [OF b1 small] ReadStr_wire [OF b2 s m(1)] b4
      ReadBytes_wire [OF b3, of n] n m(2)
    unfolding UnpackPushdata_def
    by (simp add: Let_def rest all_read_ok del: length_append)
qed

lemma UnpackSavedata_frame:
  assumes b: "rbuf b (frame SAVEDATA (wire_address dst @ flag # rs))"
    and s: "\<And>devid. dst = Some devid \<Longrightarrow> is_cstring devid \<and> length devid < 2 ^ 16 \<and> length devid < limit"
    and small: "length (wire_address dst @ flag # rs) < 2 ^ 28"
  shows "\<exists>b'. UnpackSavedata mm (adv b 1) = Inr (Inr (dst, flag), b') \<and> rbuf b' rs"
proof -
  let ?l = "length (wire_address dst @ flag # rs)" let ?b1 = "adv b 1"
  let ?b2 = "adv ?b1 (word_of_nat (length (rl_enc ?l)))"
  have b1: "rbuf ?b1 (rl_enc ?l @ wire_address dst @ flag # rs)"
    using EdpPacketType_frame(2) [OF b] .
  have b2: "rbuf ?b2 (wire_address dst @ flag # rs)"
    using rbuf_adv_rl_enc [OF b1 small] .
  show ?thesis
  proof (cases dst)
    case None
    then have b2': "rbuf ?b2 (0x00 # flag # rs)"
      using b2 by (simp add: wire_address_def)
    from rbuf_adv1 [OF this] have b3: "rbuf (adv ?b2 1) (flag # rs)" .
    from rbuf_adv1 [OF this] show ?thesis
      using ReadRemainlen_ok [OF b1 small] ReadByte_Cons [OF b2'] ReadByte_Cons [OF b3] None
      unfolding UnpackSavedata_def by (simp del: length_append)
  next
    case (Some devid)
    let ?b3 = "adv ?b2 1" let ?b4 = "adv ?b3 (2 + word_of_nat (length devid))"
    from Some b2 have b2': "rbuf ?b2 (0x80 # wire_str devid @ flag # rs)"
      by (simp add: wire_address_def)
    from rbuf_adv1 [OF this] have b3: "rbuf ?b3 (wire_str devid @ flag # rs)" .
    from rbuf_after_str [OF this] have b4: "rbuf ?b4 (flag # rs)" using s [OF Some] by simp
    from rbuf_adv1 [OF this] show ?thesis
      using ReadRemainlen_ok [OF b1 small] ReadByte_Cons [OF b2'] ReadByte_Cons [OF b4]
        ReadStr_wire [OF b3] s [OF Some] Some
      unfolding UnpackSavedata_def by (simp del: length_append)
  qed
qed

lemma UnpackSavedataSimpleString_wire:
  assumes "rbuf b (wire_str s @ rs)" and "is_cstring s" "length s < 2 ^ 16" and "length s < limit"
  shows "\<exists>b'. UnpackSavedataSimpleString mm b = Inr (Inr s, b') \<and> rbuf b' rs"
  using ReadStr_wire [OF assms] rbuf_after_str [OF assms(1,3)]
  by (simp add: UnpackSavedataSimpleString_def)

lemma UnpackSavedataBinStr_wire:
  assumes b: "rbuf b (wire_str desc @ be32 n @ bin)" and s: "is_cstring desc" "length desc < 2 ^ 16"
    and m: "length desc < limit" and n: "unat n = length bin" "length bin \<le> limit"
  shows "\<exists>b'. UnpackSavedataBinStr mm b = Inr (Inr (desc, bin, n), b') \<and> rbuf b' []"
proof -
  let ?b1 = "adv b (2 + word_of_nat (length desc))" let ?b2 = "adv ?b1 4"
  have b1: "rbuf ?b1 (be32 n @ bin)" using rbuf_after_str [OF b s(2)] .
  have b2: "rbuf ?b2 (bin @ [])" using b1 rbuf_adv_append [of ?b1 "be32 n" bin 4] by simp
  have "rbuf (adv ?b2 n) []" using n by (intro rbuf_adv_append [OF b2]) simp
  then show ?thesis
    using ReadStr_wire [OF b s m] ReadUint32_ok [OF b1] ReadBytes_wire [OF b2, of n] n
    unfolding UnpackSavedataBinStr_def by (simp add: all_read_ok)
qed

lemma UnpackCmdReq_frame:
  assumes b: "rbuf b (frame t (be16 cn @ cmdid @ be32 rn @ req))"
    and n: "unat cn = length cmdid" "unat rn = length req" "length req < 2 ^ 27"
    and m: "length cmdid \<le> limit" "length req \<le> limit"
  shows "\<exists>b'. UnpackCmdReq mm (adv b 1) = Inr (Inr (cmdid, cn, req, rn), b') \<and> rbuf b' []"
proof -
  let ?body = "be16 cn @ cmdid @ be32 rn @ req" let ?l = "length ?body"
  let ?b1 = "adv b 1" let ?b2 = "adv ?b1 (word_of_nat (length (rl_enc ?l)))"
  let ?b3 = "adv ?b2 2" let ?b4 = "adv ?b3 (ucast cn)" let ?b5 = "adv ?b4 4"
  have c: "unat (ucast cn :: u32) = length cmdid"
    using n(1) unat_u16_less [of cn] by (simp add: unsigned_ucast_eq take_bit_nat_eq_self)
  have small: "?l < 2 ^ 28" using n unat_u16_less [of cn] by simp
  have b1: "rbuf ?b1 (rl_enc ?l @ ?body)" using EdpPacketType_frame(2) [OF b] .
  have b2: "rbuf ?b2 ?body" using rbuf_adv_rl_enc [OF b1 small] .
  have b3: "rbuf ?b3 (cmdid @ be32 rn @ req)" using b2 by (rule rbuf_adv_append) simp
  have b4: "rbuf ?b4 (be32 rn @ req)" using b3 by (rule rbuf_adv_append) (simp add: c)
  have b5: "rbuf ?b5 (req @ [])" using b4 rbuf_adv_append [of ?b4 "be32 rn" req 4] by simp
  have b6: "rbuf (adv ?b5 rn) []" using n by (intro rbuf_adv_append [OF b5]) simp
  show ?thesis
    using ReadRemainlen_ok [OF b1 small] ReadUint16_ok [OF b2] ReadBytes_wire [OF b3, of "ucast cn"]
      ReadUint32_ok [OF b4] ReadBytes_wire [OF b5, of rn] b6 c n m
    unfolding UnpackCmdReq_def by (simp add: all_read_ok del: length_append)
qed

end

end
