(* ===== verification/EdpStream.thy ===== *)
theory EdpStream
  imports EdpWire
begin

text \<open>
  The framing of the receive stream: \<open>IsPkgComplete\<close> and \<open>GetEdpPacket\<close> cut the bytes that have
  arrived into packets.  A complete frame at the head of the stream is delivered exactly and
  removed, an incomplete one is left in place, and no byte is lost or duplicated, whatever
  the peer has sent.
\<close>

section \<open>The receive buffer\<close>

text \<open>
  A receive buffer with the bytes \<open>bs\<close> in it.  The bound \<open>2 ^ 16\<close> is the width of the size
  parameter of \<open>NST_MoveMemOvlap\<close>; the agent's buffer holds 2500 bytes.
\<close>

definition stream :: "edp_buffer \<Rightarrow> bytes \<Rightarrow> bool" where
  "stream b bs \<longleftrightarrow> read_pos b = 0 \<and> unat (write_pos b) \<le> length (bdata b) \<and>
     unat (write_pos b) < 2 ^ 16 \<and> bs = contents b"

lemma stream_length: "stream b bs \<Longrightarrow> length bs = unat (write_pos b)"
  by (auto simp: stream_def contents_def)

lemma stream_nth: "stream b bs \<Longrightarrow> i < length bs \<Longrightarrow> load (bdata b) i = Inr (bs ! i)"
  using stream_length [of b bs] by (auto simp: stream_def contents_def load_in)

section \<open>The length digits\<close>

lemma pkg_len_loop_ok:
  assumes "stream b bs"
  shows "drop i bs = rl_enc m @ rest \<Longrightarrow> i + length (rl_enc m) \<le> 5 \<Longrightarrow>
    pkg_len_loop (bdata b) (write_pos b) i lv mult =
      Inr (Inr (i + length (rl_enc m), lv + word_of_nat m * mult))"
proof (induction m arbitrary: i lv mult rule: rl_enc.induct)
  case (1 m)
  have i: "i < length bs" using "1.prems"(1) by (cases "i < length bs") auto
  then have g: "\<not> i > unat (write_pos b - 1)"
    using stream_length [OF assms] by (simp add: unat_sub_no_wrap)
  show ?case
  proof (cases "m < 128")
    case True
    note d = rl_digit_last [OF True]
    from "1.prems"(1) d have "load (bdata b) i = Inr (word_of_nat m)"
      using stream_nth [OF assms i] drop_eq_ConsD [of i bs] by simp
    with d g "1.prems"(2) show ?thesis
      by (simp add: pkg_len_loop.simps [of _ _ i] Let_def)
  next
    case False
    note d = rl_digit_more [OF False]
    from "1.prems"(1) d have dr: "drop i bs = word_of_nat (m mod 128 + 128) # rl_enc (m div 128) @ rest"
      by simp
    then have l: "load (bdata b) i = Inr (word_of_nat (m mod 128 + 128))"
      using stream_nth [OF assms i] drop_eq_ConsD [of i bs] by simp
    have i4: "\<not> i > 4" using "1.prems"(2) d by simp
    have "pkg_len_loop (bdata b) (write_pos b) i lv mult =
        pkg_len_loop (bdata b) (write_pos b) (Suc i) (lv + word_of_nat (m mod 128) * mult) (mult * 0x80)"
      using d g l i4 by (simp add: pkg_len_loop.simps [of _ _ i] Let_def)
    also have "\<dots> = Inr (Inr (Suc i + length (rl_enc (m div 128)), lv + word_of_nat m * mult))"
      using "1.IH" [OF False drop_eq_ConsD(3) [OF dr]] "1.prems"(2) d(1) by (simp add: rl_sum)
    finally show ?thesis using d by simp
  qed
qed

text \<open>
  Whatever the bytes are, the loop does not read past them, and a length it reports is the
  value of two to five bytes of the stream.
\<close>

definition len_result_ok :: "nat \<Rightarrow> int + nat \<times> u32 \<Rightarrow> bool" where
  "len_result_ok n r \<longleftrightarrow> (case r of Inl rc \<Rightarrow> rc \<le> 0
     | Inr (len_len, len_val) \<Rightarrow> 2 \<le> len_len \<and> len_len \<le> 5 \<and> len_len \<le> n \<and> unat len_val < 2 ^ 28)"

lemma pkg_len_loop_safe:
  assumes s: "stream b bs" and n: "1 < length bs"
  shows "1 \<le> i \<Longrightarrow> unat lv < 128 ^ (i - 1) \<Longrightarrow> mult = 128 ^ (i - 1) \<Longrightarrow>
    \<exists>r. pkg_len_loop (bdata b) (write_pos b) i lv mult = Inr r \<and> len_result_ok (length bs) r"
proof (induction "bdata b" "write_pos b" i lv mult rule: pkg_len_loop.induct)
  case (1 i lv mult)
  show ?case
  proof (cases "i > 4 \<or> i > unat (write_pos b - 1)")
    case True
    then show ?thesis
      by (auto simp: pkg_len_loop.simps [of _ _ i] len_result_ok_def)
  next
    case False
    then have i: "i < length bs" and i4: "i \<le> 4"
      using stream_length [OF s] n by (auto simp: unat_sub_no_wrap)
    let ?d = "bs ! i"
    have l: "load (bdata b) i = Inr ?d" by (rule stream_nth [OF s i])
    let ?lv = "lv + ucast (?d AND 0x7f) * mult"
    have d: "unat (ucast (?d AND 0x7f) :: u32) = unat ?d mod 128"
      by (simp add: unsigned_ucast_eq unat_and_7f take_bit_nat_eq_self)
    have p: "(128::nat) ^ (i - 1) \<le> 2097152"
      using i4 power_increasing [of "i - 1" 3 "128::nat"] by simp
    have "mult = word_of_nat (128 ^ (i - 1))" using "1.prems"(3) by simp
    then have m: "unat mult = 128 ^ (i - 1)"
      using p by (simp only: unat_of_nat) (simp add: take_bit_nat_eq_self)
    have b1: "unat ?d mod 128 * 128 ^ (i - 1) \<le> 127 * 128 ^ (i - 1)" by (intro mult_le_mono1) simp
    have b2: "unat lv + unat ?d mod 128 * 128 ^ (i - 1) < 4294967296"
      using b1 p "1.prems"(2) by linarith
    have lv: "unat ?lv < 128 ^ i"
    proof -
      have "unat (ucast (?d AND 0x7f) * mult) = unat ?d mod 128 * 128 ^ (i - 1)"
        unfolding unat_word_ariths(2) d m using b2 by (intro mod_less) simp
      then have "unat ?lv = unat lv + unat ?d mod 128 * 128 ^ (i - 1)"
        using b2 by (subst unat_add_no_wrap) simp_all
      also have "\<dots> < 128 ^ (i - 1) + 127 * 128 ^ (i - 1)" using b1 "1.prems"(2) by linarith
      also have "\<dots> = 128 ^ i" using "1.prems"(1) by (simp add: power_eq_if)
      finally show ?thesis .
    qed
    show ?thesis
    proof (cases "?d AND 0x80 \<noteq> 0")
      case True
      have "\<exists>r. pkg_len_loop (bdata b) (write_pos b) (Suc i) ?lv (mult * 0x80) = Inr r \<and>
          len_result_ok (length bs) r"
        using "1.hyps" [OF _ _ l refl refl True] False lv "1.prems"(1,3)
        by (simp add: power_eq_if mult.commute)
      then show ?thesis
        using False l True by (simp add: pkg_len_loop.simps [of _ _ i] Let_def)
    next
      case F: False
      have "(128::nat) ^ i \<le> 128 ^ 4" using i4 by (intro power_increasing) auto
      then show ?thesis
        using False F l lv i i4 "1.prems"(1)
        by (auto simp: pkg_len_loop.simps [of _ _ i] Let_def len_result_ok_def)
    qed
  qed
qed

text \<open>A length that has not arrived completely makes the loop ask for more bytes.\<close>

lemma pkg_len_loop_short:
  assumes s: "stream b bs" and n: "0 < length bs"
  shows "drop i bs = take k (rl_enc m) \<Longrightarrow> k < length (rl_enc m) \<Longrightarrow> i + length (rl_enc m) \<le> 5 \<Longrightarrow>
    i \<le> length bs \<Longrightarrow> pkg_len_loop (bdata b) (write_pos b) i lv mult = Inr (Inl 0)"
proof (induction m arbitrary: i k lv mult rule: rl_enc.induct)
  case (1 m)
  have i4: "\<not> i > 4" using "1.prems"(2,3) by (cases "rl_enc m") auto
  have g: "i > unat (write_pos b - 1) \<longleftrightarrow> \<not> i < length bs"
    using stream_length [OF s] n by (simp add: unat_sub_no_wrap) linarith
  show ?case
  proof (cases k)
    case 0
    with "1.prems"(1) have "\<not> i < length bs" by simp
    with g i4 show ?thesis by (simp add: pkg_len_loop.simps [of _ _ i])
  next
    case (Suc k')
    with "1.prems"(2) have m: "\<not> m < 128" by (cases "m < 128") (simp_all add: rl_digit_last)
    note d = rl_digit_more [OF m]
    from "1.prems"(1) d Suc have
      dr: "drop i bs = word_of_nat (m mod 128 + 128) # take k' (rl_enc (m div 128))" by simp
    note c = drop_eq_ConsD [OF dr]
    have "pkg_len_loop (bdata b) (write_pos b) i lv mult =
        pkg_len_loop (bdata b) (write_pos b) (Suc i) (lv + word_of_nat (m mod 128) * mult) (mult * 0x80)"
      using d g i4 c stream_nth [OF s c(1)] by (simp add: pkg_len_loop.simps [of _ _ i] Let_def)
    also have "\<dots> = Inr (Inl 0)"
      using "1.prems" d(1) Suc c by (intro "1.IH" [OF m c(3)]) simp_all
    finally show ?thesis .
  qed
qed

section \<open>IsPkgComplete\<close>

lemma stream_small: "stream b bs \<Longrightarrow> length bs < 2 ^ 16"
  using stream_length by (force simp: stream_def)

lemma unat_total:
  fixes v :: u32
  assumes "k \<le> 5" and "unat v < 2 ^ 28"
  shows "unat (word_of_nat k + v) = k + unat v"
  using assms by (subst unat_add_no_wrap) (simp_all add: unat_of_nat_no_wrap)

lemma IsPkgComplete_loop:
  assumes s: "stream b bs" and n: "1 < length bs"
    and r: "pkg_len_loop (bdata b) (write_pos b) 1 0 1 = Inr (Inr (k, v))"
    and k: "k \<le> 5" "unat v < 2 ^ 28"
  shows "IsPkgComplete b = Inr (if k + unat v \<le> length bs then int (k + unat v) else 0)"
proof -
  have g: "\<not> write_pos b \<le> 1" using n stream_length [OF s] by (simp add: word_le_nat_alt)
  have le: "word_of_nat k + v \<le> write_pos b \<longleftrightarrow> k + unat v \<le> length bs"
    using unat_total [OF k] stream_length [OF s] by (simp add: word_le_nat_alt)
  have "sint (word_of_nat k + v) = int (k + unat v)"
    using sint_unat_small [of "word_of_nat k + v"] unat_total [OF k] k by simp
  with g le r show ?thesis by (simp add: IsPkgComplete_def Let_def)
qed

lemma IsPkgComplete_frame:
  assumes s: "stream b (frame t body @ rest)" and small: "length body < 2 ^ 28"
  shows "IsPkgComplete b = Inr (int (length (frame t body)))"
proof -
  let ?l = "length body"
  have l4: "length (rl_enc ?l) \<le> 4" using small by (rule length_rl_enc4)
  have n: "1 < length (frame t body @ rest)"
    by (cases "rl_enc ?l") (simp_all add: frame_def)
  have r: "pkg_len_loop (bdata b) (write_pos b) 1 0 1 = Inr (Inr (1 + length (rl_enc ?l), word_of_nat ?l))"
    using pkg_len_loop_ok [OF s, of 1 ?l "body @ rest" 0 1] l4 by (simp add: frame_def)
  have "unat (word_of_nat ?l :: u32) = ?l" using small by (intro unat_of_nat_no_wrap) simp
  then show ?thesis
    using IsPkgComplete_loop [OF s n r] l4 small by (simp add: length_frame)
qed

lemma IsPkgComplete_partial:
  assumes s: "stream b bs" and f: "frame t body = bs @ missing" "missing \<noteq> []" and small: "length body < 2 ^ 28"
  shows "IsPkgComplete b = Inr 0"
proof (cases "1 < length bs")
  case False
  then show ?thesis
    using stream_length [OF s] by (simp add: IsPkgComplete_def word_le_nat_alt)
next
  case True
  let ?e = "rl_enc (length body)"
  have l4: "length ?e \<le> 4" using small by (rule length_rl_enc4)
  from True f(1) obtain bs' where bs: "bs = t # bs'" and e: "?e @ body = bs' @ missing"
    by (cases bs) (auto simp: frame_def)
  show ?thesis
  proof (cases "length bs' < length ?e")
    case True
    with e have "drop 1 bs = take (length bs') ?e" by (simp add: bs append_eq_append_conv_if)
    then have "pkg_len_loop (bdata b) (write_pos b) 1 0 1 = Inr (Inl 0)"
      using True l4 \<open>1 < length bs\<close> by (intro pkg_len_loop_short [OF s]) auto
    then show ?thesis by (simp add: IsPkgComplete_def Let_def)
  next
    case False
    with e obtain part where part: "bs' = ?e @ part" "body = part @ missing"
      by (auto simp: append_eq_append_conv2)
    have r: "pkg_len_loop (bdata b) (write_pos b) 1 0 1 = Inr (Inr (1 + length ?e, word_of_nat (length body)))"
      using pkg_len_loop_ok [OF s, of 1 "length body" part 0 1] l4 by (simp add: bs part(1))
    have "unat (word_of_nat (length body) :: u32) = length body"
      using small by (intro unat_of_nat_no_wrap) simp
    then show ?thesis
      using IsPkgComplete_loop [OF s True r] l4 small f(2) part by (simp add: bs)
  qed
qed

lemma IsPkgComplete_safe:
  assumes s: "stream b bs"
  shows "\<exists>n. IsPkgComplete b = Inr n \<and> (n \<le> 0 \<or> 2 \<le> n \<and> nat n \<le> length bs)"
proof (cases "1 < length bs")
  case False
  then show ?thesis
    using stream_length [OF s] by (simp add: IsPkgComplete_def word_le_nat_alt)
next
  case True
  from pkg_len_loop_safe [OF s True, of 1 0 1] obtain r where
    r: "pkg_len_loop (bdata b) (write_pos b) 1 0 1 = Inr r" "len_result_ok (length bs) r" by auto
  show ?thesis
  proof (cases r)
    case (Inl rc)
    with r show ?thesis by (auto simp: IsPkgComplete_def Let_def len_result_ok_def)
  next
    case (Inr kv)
    then obtain k v where kv: "r = Inr (k, v)" by (cases kv) auto
    with r have "2 \<le> k" "k \<le> 5" "unat v < 2 ^ 28" by (auto simp: len_result_ok_def)
    with IsPkgComplete_loop [OF s True] r kv obtain m where
      "IsPkgComplete b = Inr (if m \<le> length bs then int m else 0)" and "2 \<le> m"
      by fastforce
    then show ?thesis by auto
  qed
qed

section \<open>GetEdpPacket\<close>

lemma GetEdpPacket_none:
  assumes "stream b bs" and "IsPkgComplete b = Inr n" and "n \<le> 0"
  shows "GetEdpPacket mm b = Inr (None, b)"
  using assms by (simp add: GetEdpPacket_def stream_def)

context byte_malloc
begin

lemma GetEdpPacket_cut:
  assumes s: "stream b bs" and c: "IsPkgComplete b = Inr (int n)" and n: "0 < n" "n \<le> length bs"
    and fit: "fits limit n"
  shows "\<exists>pkg b'. GetEdpPacket mm b = Inr (Some pkg, b') \<and> wbuf pkg \<and>
    contents pkg = take n bs \<and> stream b' (drop n bs)"
proof -
  have len: "length bs = unat (write_pos b)" and small: "length bs < 2 ^ 16"
    using stream_length [OF s] stream_small [OF s] by auto
  have bd: "length bs \<le> length (bdata b)" and bs: "bs = take (length bs) (bdata b)"
    and rp: "read_pos b = 0"
    using s len by (auto simp: stream_def contents_def)
  have un: "unat (word_of_nat n :: u32) = n" using n small by (intro unat_of_nat_no_wrap) simp
  obtain p where p: "NewBuffer mm = Inr p" "wbuf p" "contents p = []" using NewBuffer_ok by blast
  have "appends limit (WriteBytes mm (bdata b) (word_of_nat n)) (take n (bdata b))"
    using appends_WriteBytes [of "word_of_nat n" "bdata b"] un n bd by simp
  then obtain pkg where pkg: "WriteBytes mm (bdata b) (word_of_nat n) p = Inr (0, pkg)" "wbuf pkg"
    "contents pkg = contents p @ take n (bdata b)"
    using p fit bd n by (elim appendsD [of _ _ _ p]) auto
  let ?wp = "write_pos b - word_of_nat n"
  have wp: "unat ?wp = length bs - n" using un len n by (subst unat_sub_no_wrap) simp_all
  have mv: "NST_MoveMemOvlap (bdata b) 0 n (ucast ?wp) = Inr (block_move (bdata b) 0 n (length bs - n))"
    using wp bd n small
    by (subst NST_MoveMemOvlap_block) (simp_all add: unsigned_ucast_eq take_bit_nat_eq_self)
  let ?b = "b\<lparr>bdata := block_move (bdata b) 0 n (length bs - n), write_pos := ?wp\<rparr>"
  have "GetEdpPacket mm b = Inr (Some pkg, ?b)"
    using c rp n p(1) pkg(1) mv by (simp add: GetEdpPacket_def)
  moreover have "contents pkg = take n bs" using pkg(3) p(3) n bs by (metis append_Nil min.absorb1 take_take)
  moreover have "stream ?b (drop n bs)"
    using rp wp bd n small bs len
    by (auto simp: stream_def contents_def block_move_def) (metis drop_take)
  ultimately show ?thesis using pkg(2) by blast
qed

lemma GetEdpPacket_frame:
  assumes s: "stream b (frame t body @ rest)" and fit: "fits limit (length (frame t body))"
  shows "\<exists>pkg b'. GetEdpPacket mm b = Inr (Some pkg, b') \<and> wbuf pkg \<and>
    contents pkg = frame t body \<and> stream b' rest"
proof -
  have "length body < 2 ^ 28" using stream_small [OF s] by (simp add: frame_def)
  from GetEdpPacket_cut [OF s IsPkgComplete_frame [OF s this]] fit show ?thesis
    by (simp add: frame_def)
qed

lemma GetEdpPacket_safe:
  assumes s: "stream b bs" and fit: "fits limit (length bs)"
  shows "\<exists>r b' bs'. GetEdpPacket mm b = Inr (r, b') \<and> stream b' bs' \<and>
    (case r of None \<Rightarrow> bs' = bs | Some pkg \<Rightarrow> wbuf pkg \<and> 2 \<le> length (contents pkg) \<and> contents pkg @ bs' = bs)"
proof -
  obtain n where c: "IsPkgComplete b = Inr n" and n: "n \<le> 0 \<or> 2 \<le> n \<and> nat n \<le> length bs"
    using IsPkgComplete_safe [OF s] by blast
  show ?thesis
  proof (cases "n \<le> 0")
    case True
    with GetEdpPacket_none [OF s c] s show ?thesis by auto
  next
    case False
    with n c have "IsPkgComplete b = Inr (int (nat n))" "0 < nat n" "nat n \<le> length bs" "2 \<le> nat n" by auto
    moreover from this fit have "fits limit (nat n)" by (auto elim: fits_mono)
    ultimately obtain pkg b' where g: "GetEdpPacket mm b = Inr (Some pkg, b')" "wbuf pkg"
      "contents pkg = take (nat n) bs" "stream b' (drop (nat n) bs)"
      using GetEdpPacket_cut [OF s] by blast
    with \<open>nat n \<le> length bs\<close> \<open>2 \<le> nat n\<close> show ?thesis by (intro exI [of _ "Some pkg"]) auto
  qed
qed

end

end
