(* ===== verification/DynMem.thy ===== *)
theory DynMem
  imports EdpBuffer
begin

text \<open>
  The dynamic memory manager (\<open>Ports/Cortex-M3/os_dmem.c\<close>) behind \<open>malloc\<close>, \<open>calloc\<close> and \<open>free\<close>
  of the agent: a pool is a circular doubly linked list of blocks, each with a 16-byte header,
  closed by a trailer block that is never free.  Headers are a map from addresses; the bytes of
  the blocks are the separate map \<open>dm_bytes\<close>, so the model assumes that clients write inside
  their blocks.  A header that was never written cannot be read (\<open>UninitRead\<close>).
\<close>

section \<open>Headers and pools\<close>

record dm_header =
  dm_next_memory :: u32
  dm_previous_memory :: u32
  dm_memory_free :: bool
  dm_memory_pool :: u32

record dm_pcb =
  dm_id :: u32
  dm_name :: bytes
  dm_start_address :: u32
  dm_pool_size :: u32
  dm_min_allocation :: u32
  dm_available :: u32
  dm_memory_list :: u32
  dm_search_ptr :: u32

record dm_state =
  pools :: "u32 \<rightharpoonup> dm_pcb"
  headers :: "u32 \<rightharpoonup> dm_header"
  dm_bytes :: "u32 \<Rightarrow> u8"
  DMD_Total_Pools :: u32

definition DM_DYNAMIC_ID :: u32 where "DM_DYNAMIC_ID = 0x44594e41"
definition DM_OVERHEAD :: u32 where "DM_OVERHEAD = ((16 + 4 - 1) div 4) * 4"
definition OS_ERR_NONE :: u8 where "OS_ERR_NONE = 0"
definition OS_ERR_MEM_FULL :: u8 where "OS_ERR_MEM_FULL = 94"
definition OS_DMEM_POOL_SIZE :: u32 where "OS_DMEM_POOL_SIZE = 1024 * 20"
definition OS_DMEM_NAME_SIZE :: nat where "OS_DMEM_NAME_SIZE = 4"

definition get_pool :: "dm_state \<Rightarrow> u32 \<Rightarrow> dm_pcb outcome" where
  "get_pool s p = (case pools s p of None \<Rightarrow> Inl UninitRead | Some P \<Rightarrow> Inr P)"

definition set_pool :: "u32 \<Rightarrow> dm_pcb \<Rightarrow> dm_state \<Rightarrow> dm_state" where
  "set_pool p P s = s\<lparr>pools := (pools s)(p \<mapsto> P)\<rparr>"

definition get_hdr :: "dm_state \<Rightarrow> u32 \<Rightarrow> dm_header outcome" where
  "get_hdr s a = (case headers s a of None \<Rightarrow> Inl UninitRead | Some h \<Rightarrow> Inr h)"

definition set_hdr :: "u32 \<Rightarrow> dm_header \<Rightarrow> dm_state \<Rightarrow> dm_state" where
  "set_hdr a h s = s\<lparr>headers := (headers s)(a \<mapsto> h)\<rparr>"

definition upd_hdr :: "u32 \<Rightarrow> (dm_header \<Rightarrow> dm_header) \<Rightarrow> dm_state \<Rightarrow> dm_state outcome" where
  "upd_hdr a f s = ebind (get_hdr s a) (\<lambda>h. Inr (set_hdr a (f h) s))"

section \<open>Pool creation and deletion\<close>

definition OS_Create_Memory_Pool ::
  "u32 \<Rightarrow> bytes \<Rightarrow> u32 \<Rightarrow> u32 \<Rightarrow> u32 \<Rightarrow> dm_state \<Rightarrow> (u8 \<times> dm_state) outcome" where
  "OS_Create_Memory_Pool pool_ptr name start_address pool_size min_allocation s =
     ebind (load_n name 0 OS_DMEM_NAME_SIZE) (\<lambda>nm.
     let pool_size = (pool_size div 4) * 4;
         available = pool_size - (2 * DM_OVERHEAD);
         header_ptr = start_address;
         trailer = header_ptr + available + DM_OVERHEAD;
         P = \<lparr>dm_id = DM_DYNAMIC_ID, dm_name = nm, dm_start_address = start_address,
              dm_pool_size = pool_size, dm_min_allocation = ((min_allocation + 4 - 1) div 4) * 4,
              dm_available = available, dm_memory_list = header_ptr, dm_search_ptr = header_ptr\<rparr>;
         s = set_hdr header_ptr \<lparr>dm_next_memory = trailer, dm_previous_memory = trailer,
               dm_memory_free = True, dm_memory_pool = pool_ptr\<rparr> s;
         s = set_hdr trailer \<lparr>dm_next_memory = start_address, dm_previous_memory = start_address,
               dm_memory_free = False, dm_memory_pool = pool_ptr\<rparr> s
     in Inr (OS_ERR_NONE, (set_pool pool_ptr P s)\<lparr>DMD_Total_Pools := DMD_Total_Pools s + 1\<rparr>))"

definition OS_DelMemPool :: "u32 \<Rightarrow> dm_state \<Rightarrow> (u8 \<times> dm_state) outcome" where
  "OS_DelMemPool pool_ptr s =
     ebind (get_pool s pool_ptr) (\<lambda>P.
     Inr (OS_ERR_NONE, (set_pool pool_ptr (P\<lparr>dm_id := 0\<rparr>) s)\<lparr>DMD_Total_Pools := DMD_Total_Pools s - 1\<rparr>))"

section \<open>Allocation\<close>

definition adjust_size :: "u32 \<Rightarrow> u32 \<Rightarrow> u32" where
  "adjust_size min_allocation req =
     (if req < min_allocation then min_allocation else ((req + 4 - 1) div 4) * 4)"

text \<open>
  The search loop, from \<open>memory_ptr\<close> back to the search pointer \<open>sp\<close>: the block it stops at and
  the free size it has computed last.  The fuel bounds the number of blocks inspected.
\<close>

fun search_loop :: "nat \<Rightarrow> dm_state \<Rightarrow> u32 \<Rightarrow> u32 \<Rightarrow> u32 \<Rightarrow> (u32 \<times> u32) outcome" where
  "search_loop 0 s sp sz memory_ptr = Inl Diverges"
| "search_loop (Suc n) s sp sz memory_ptr =
     ebind (get_hdr s memory_ptr) (\<lambda>h.
     let free_size = (if dm_memory_free h then dm_next_memory h - memory_ptr - DM_OVERHEAD else 0)
     in if free_size < sz
        then let memory_ptr = dm_next_memory h in
             if memory_ptr \<noteq> sp then search_loop n s sp sz memory_ptr
             else Inr (memory_ptr, free_size)
        else Inr (memory_ptr, free_size))"

text \<open>
  \<open>OS_GetMem\<close> returns the status and the pointer it stores through \<open>return_pointer\<close>.  A pool
  of \<open>n\<close> bytes has fewer than \<open>n\<close> blocks, which bounds the search.
\<close>

definition split_block :: "u32 \<Rightarrow> u32 \<Rightarrow> u32 \<Rightarrow> dm_state \<Rightarrow> dm_state outcome" where
  "split_block pool_ptr memory_ptr sz s =
     (let new_ptr = memory_ptr + sz + DM_OVERHEAD in
      ebind (get_hdr s memory_ptr) (\<lambda>h.
      let s = set_hdr new_ptr \<lparr>dm_next_memory = dm_next_memory h, dm_previous_memory = memory_ptr,
                dm_memory_free = True, dm_memory_pool = pool_ptr\<rparr> s in
      ebind (upd_hdr (dm_next_memory h) (\<lambda>n. n\<lparr>dm_previous_memory := new_ptr\<rparr>) s) (\<lambda>s.
      upd_hdr memory_ptr (\<lambda>m. m\<lparr>dm_next_memory := new_ptr\<rparr>) s)))"

definition OS_GetMem :: "u32 \<Rightarrow> u32 \<Rightarrow> dm_state \<Rightarrow> (u8 \<times> u32 \<times> dm_state) outcome" where
  "OS_GetMem pool_ptr req s =
     ebind (get_pool s pool_ptr) (\<lambda>pool.
     let sz = adjust_size (dm_min_allocation pool) req in
     ebind (search_loop (unat (dm_pool_size pool)) s (dm_search_ptr pool) sz (dm_search_ptr pool))
       (\<lambda>(memory_ptr, free_size).
     if free_size \<ge> sz
     then ebind (if free_size \<ge> sz + DM_OVERHEAD + dm_min_allocation pool
                 then ebind (split_block pool_ptr memory_ptr sz s) (\<lambda>s.
                      Inr (pool\<lparr>dm_available := dm_available pool - sz - DM_OVERHEAD\<rparr>, s))
                 else Inr (pool\<lparr>dm_available := dm_available pool - free_size\<rparr>, s)) (\<lambda>(pool, s).
          ebind (upd_hdr memory_ptr (\<lambda>m. m\<lparr>dm_memory_free := False\<rparr>) s) (\<lambda>s.
          ebind (if dm_search_ptr pool = memory_ptr
                 then ebind (get_hdr s memory_ptr) (\<lambda>m.
                      Inr (pool\<lparr>dm_search_ptr := dm_next_memory m\<rparr>))
                 else Inr pool) (\<lambda>pool.
          Inr (OS_ERR_NONE, memory_ptr + DM_OVERHEAD, set_pool pool_ptr pool s))))
     else Inr (OS_ERR_MEM_FULL, 0, s)))"

section \<open>Release\<close>

definition merge_previous ::
  "u32 \<Rightarrow> dm_pcb \<Rightarrow> dm_state \<Rightarrow> (u32 \<times> dm_pcb \<times> dm_state) outcome" where
  "merge_previous header_ptr pool s =
     ebind (get_hdr s header_ptr) (\<lambda>h.
     ebind (get_hdr s (dm_previous_memory h)) (\<lambda>prev.
     if dm_memory_free prev
     then ebind (upd_hdr (dm_previous_memory h) (\<lambda>x. x\<lparr>dm_next_memory := dm_next_memory h\<rparr>) s) (\<lambda>s.
          ebind (upd_hdr (dm_next_memory h) (\<lambda>x. x\<lparr>dm_previous_memory := dm_previous_memory h\<rparr>) s) (\<lambda>s.
          Inr (dm_previous_memory h,
               pool\<lparr>dm_available := dm_available pool + DM_OVERHEAD,
                    dm_search_ptr := dm_previous_memory h\<rparr>, s)))
     else Inr (header_ptr, pool, s)))"

definition merge_next ::
  "u32 \<Rightarrow> dm_pcb \<Rightarrow> dm_state \<Rightarrow> (dm_pcb \<times> dm_state) outcome" where
  "merge_next header_ptr pool s =
     ebind (get_hdr s header_ptr) (\<lambda>h.
     ebind (get_hdr s (dm_next_memory h)) (\<lambda>new.
     if dm_memory_free new
     then ebind (upd_hdr (dm_next_memory new) (\<lambda>x. x\<lparr>dm_previous_memory := header_ptr\<rparr>) s) (\<lambda>s.
          ebind (upd_hdr header_ptr (\<lambda>x. x\<lparr>dm_next_memory := dm_next_memory new\<rparr>) s) (\<lambda>s.
          Inr (pool\<lparr>dm_available := dm_available pool + DM_OVERHEAD,
                    dm_search_ptr := header_ptr\<rparr>, s)))
     else Inr (pool, s)))"

definition OS_FreeMem :: "u32 \<Rightarrow> dm_state \<Rightarrow> (u8 \<times> dm_state) outcome" where
  "OS_FreeMem memory s =
     (let header_ptr = memory - DM_OVERHEAD in
      ebind (get_hdr s header_ptr) (\<lambda>h.
      ebind (get_pool s (dm_memory_pool h)) (\<lambda>pool.
      let s = set_hdr header_ptr (h\<lparr>dm_memory_free := True\<rparr>) s;
          pool = pool\<lparr>dm_available := dm_available pool +
                        (dm_next_memory h - header_ptr) - DM_OVERHEAD\<rparr> in
      ebind (merge_previous header_ptr pool s) (\<lambda>(header_ptr, pool, s).
      ebind (merge_next header_ptr pool s) (\<lambda>(pool, s).
      Inr (OS_ERR_NONE, set_pool (dm_memory_pool h) pool s))))))"

section \<open>The system pool\<close>

text \<open>
  \<open>sysemPool\<close> and \<open>OS_system_mempool\<close> are the linker's addresses of the pool array and of its
  control block; \<open>''Sys''\<close> is four bytes with its NUL.
\<close>

definition OS_DMemInit :: "u32 \<Rightarrow> u32 \<Rightarrow> dm_state \<Rightarrow> dm_state outcome" where
  "OS_DMemInit OS_system_mempool sysemPool s =
     ebind (OS_Create_Memory_Pool OS_system_mempool [0x53, 0x79, 0x73, 0] sysemPool
              OS_DMEM_POOL_SIZE 16 (s\<lparr>DMD_Total_Pools := 0\<rparr>)) (\<lambda>(rc, s). Inr s)"

definition OSMMalloc :: "u32 \<Rightarrow> u32 \<Rightarrow> dm_state \<Rightarrow> (u32 \<times> dm_state) outcome" where
  "OSMMalloc OS_system_mempool n s =
     ebind (OS_GetMem OS_system_mempool n s) (\<lambda>(err, pointer, s).
     Inr (if err = OS_ERR_NONE then pointer else 0, s))"

definition OSMCalloc :: "u32 \<Rightarrow> u32 \<Rightarrow> u32 \<Rightarrow> dm_state \<Rightarrow> (u32 \<times> dm_state) outcome" where
  "OSMCalloc OS_system_mempool count n s =
     ebind (OSMMalloc OS_system_mempool (count * n) s) (\<lambda>(p, s).
     if p \<noteq> 0
     then Inr (p, s\<lparr>dm_bytes := (\<lambda>a. if a - p < count * n then 0 else dm_bytes s a)\<rparr>)
     else Inr (p, s))"

definition OSMFree :: "u32 \<Rightarrow> dm_state \<Rightarrow> dm_state outcome" where
  "OSMFree ptr s = ebind (OS_FreeMem ptr s) (\<lambda>(rc, s). Inr s)"

section \<open>The block list\<close>

type_synonym block = "u32 \<times> bool"

fun first_addr :: "block list \<Rightarrow> u32 \<Rightarrow> u32" where
  "first_addr [] nx = nx"
| "first_addr ((a, f) # bs) nx = a"

fun last_addr :: "u32 \<Rightarrow> block list \<Rightarrow> u32" where
  "last_addr pr [] = pr"
| "last_addr pr ((a, f) # bs) = last_addr a bs"

text \<open>
  \<open>seg H p pr bs nx\<close>: the headers of the blocks \<open>bs\<close> are linked in both directions, between the
  block \<open>pr\<close> before them and the block \<open>nx\<close> after them, and belong to pool \<open>p\<close>.
\<close>

fun seg :: "(u32 \<rightharpoonup> dm_header) \<Rightarrow> u32 \<Rightarrow> u32 \<Rightarrow> block list \<Rightarrow> u32 \<Rightarrow> bool" where
  "seg H p pr [] nx = True"
| "seg H p pr ((a, f) # bs) nx =
     (H a = Some \<lparr>dm_next_memory = first_addr bs nx, dm_previous_memory = pr,
                  dm_memory_free = f, dm_memory_pool = p\<rparr> \<and> seg H p a bs nx)"

text \<open>
  The layout of a pool: blocks in ascending order, each with a header and at least \<open>m\<close> bytes,
  no two adjacent free blocks, and the trailer (never free) at the end.
\<close>

definition gap :: "nat \<Rightarrow> block \<Rightarrow> block \<Rightarrow> bool" where
  "gap m x y \<longleftrightarrow> unat (fst x) + 16 + m \<le> unat (fst y) \<and> \<not> (snd x \<and> snd y)"

definition layout :: "nat \<Rightarrow> block list \<Rightarrow> bool" where
  "layout m bs \<longleftrightarrow> bs \<noteq> [] \<and> \<not> snd (last bs) \<and> successively (gap m) bs"

text \<open>The bytes that are free: \<open>dm_available\<close> counts them.\<close>

fun avail :: "block list \<Rightarrow> nat" where
  "avail ((a, f) # (b, g) # bs) = (if f then unat b - unat a - 16 else 0) + avail ((b, g) # bs)"
| "avail bs = 0"

definition heap_ok :: "u32 \<Rightarrow> dm_state \<Rightarrow> block list \<Rightarrow> bool" where
  "heap_ok p s bs \<longleftrightarrow> (\<exists>P. pools s p = Some P \<and>
     16 \<le> unat (dm_min_allocation P) \<and> 4 dvd unat (dm_min_allocation P) \<and>
     unat (dm_pool_size P) < 2 ^ 31 \<and>
     layout (unat (dm_min_allocation P)) bs \<and> (\<forall>(a, f) \<in> set bs. 4 dvd unat a) \<and>
     seg (headers s) p (last_addr 0 bs) bs (first_addr bs 0) \<and>
     first_addr bs 0 = dm_start_address P \<and>
     unat (last_addr 0 bs) + 16 = unat (dm_start_address P) + unat (dm_pool_size P) \<and>
     dm_search_ptr P \<in> fst ` set bs \<and> unat (dm_available P) = avail bs)"

lemma heap_okE:
  assumes "heap_ok p s bs"
  obtains P where "pools s p = Some P" and "16 \<le> unat (dm_min_allocation P)"
    and "4 dvd unat (dm_min_allocation P)" and "unat (dm_pool_size P) < 2 ^ 31"
    and "layout (unat (dm_min_allocation P)) bs" and "\<forall>(a, f) \<in> set bs. 4 dvd unat a"
    and "seg (headers s) p (last_addr 0 bs) bs (first_addr bs 0)"
    and "first_addr bs 0 = dm_start_address P"
    and "unat (last_addr 0 bs) + 16 = unat (dm_start_address P) + unat (dm_pool_size P)"
    and "dm_search_ptr P \<in> fst ` set bs" and "unat (dm_available P) = avail bs"
  using assms unfolding heap_ok_def by blast

lemma first_addr_append [simp]: "first_addr (xs @ ys) nx = first_addr xs (first_addr ys nx)"
  by (cases xs) auto

lemma last_addr_append [simp]: "last_addr pr (xs @ ys) = last_addr (last_addr pr xs) ys"
  by (induction pr xs rule: last_addr.induct) auto

lemma last_addr_in: "bs \<noteq> [] \<Longrightarrow> last_addr pr bs \<in> fst ` set bs"
proof (induction pr bs rule: last_addr.induct)
  case (2 pr a f bs)
  then show ?case by (cases bs) auto
qed simp

lemma seg_append:
  "seg H p pr (xs @ ys) nx \<longleftrightarrow> seg H p pr xs (first_addr ys nx) \<and> seg H p (last_addr pr xs) ys nx"
  by (induction pr xs rule: last_addr.induct) auto

lemma seg_upd [simp]:
  "a \<notin> fst ` set bs \<Longrightarrow> seg (H(a \<mapsto> h)) p pr bs nx = seg H p pr bs nx"
  by (induction pr bs rule: last_addr.induct) auto

lemma avail_append: "avail (xs @ (a, f) # ys) = avail (xs @ [(a, f)]) + avail ((a, f) # ys)"
  by (induction xs rule: avail.induct) auto

lemma avail_append2: "avail (xs @ (a, f) # y # ys) = avail (xs @ [(a, f)]) + avail ((a, f) # y # ys)"
  by (rule avail_append)

lemma avail_snoc_flag: "avail (xs @ [(a, f)]) = avail (xs @ [(a, g)])"
  by (induction xs rule: avail.induct) auto

lemma successively_less:
  assumes "successively (gap m) bs"
  shows "sorted_wrt (\<lambda>x y. unat (fst x) + 16 + m \<le> unat (fst y)) bs"
proof -
  have "successively (\<lambda>x y. unat (fst x) + 16 + m \<le> unat (fst y)) bs"
    using assms by (rule successively_mono) (auto simp: gap_def)
  then show ?thesis
    by (subst (asm) successively_conv_sorted_wrt) (auto simp: transp_def)
qed

lemma sorted_distinct:
  "sorted_wrt (\<lambda>x y. unat (fst x) + 16 + m \<le> unat (fst y)) bs \<Longrightarrow> distinct (map fst bs)"
  by (induction bs) force+

lemma layout_distinct: "layout m bs \<Longrightarrow> distinct (map fst bs)"
  by (rule sorted_distinct [OF successively_less [of m]]) (simp add: layout_def)

text \<open>A free block, or one a client holds, is not the trailer.\<close>

lemma free_not_last:
  assumes "layout m bs" and "bs = xs @ (a, True) # ys"
  obtains b g zs where "ys = (b, g) # zs"
  using assms by (cases ys) (auto simp: layout_def)

section \<open>The search\<close>

fun chain :: "(u32 \<rightharpoonup> dm_header) \<Rightarrow> block list \<Rightarrow> u32 \<Rightarrow> bool" where
  "chain H [] sp = True"
| "chain H ((a, f) # bs) sp =
     (\<exists>h. H a = Some h \<and> dm_memory_free h = f \<and> dm_next_memory h = first_addr bs sp \<and> chain H bs sp)"

lemma seg_chain: "seg H p pr bs nx \<Longrightarrow> chain H bs nx"
  by (induction pr bs rule: last_addr.induct) auto

lemma chain_append: "chain H (xs @ ys) sp \<longleftrightarrow> chain H xs (first_addr ys sp) \<and> chain H ys sp"
  by (induction xs) auto

definition block_fits :: "(u32 \<rightharpoonup> dm_header) \<Rightarrow> u32 \<Rightarrow> u32 \<Rightarrow> bool" where
  "block_fits H sz a \<longleftrightarrow> (\<exists>h. H a = Some h \<and> dm_memory_free h \<and> sz \<le> dm_next_memory h - a - DM_OVERHEAD)"

lemma search_loop_ok:
  assumes "0 < sz"
  shows "chain (headers s) bs sp \<Longrightarrow> bs \<noteq> [] \<Longrightarrow> sp \<notin> fst ` set (tl bs) \<Longrightarrow> length bs \<le> n \<Longrightarrow>
    (if \<exists>x \<in> set bs. block_fits (headers s) sz (fst x)
     then \<exists>a h. (a, True) \<in> set bs \<and> headers s a = Some h \<and> block_fits (headers s) sz a \<and>
       search_loop n s sp sz (fst (hd bs)) = Inr (a, dm_next_memory h - a - DM_OVERHEAD)
     else \<exists>fs < sz. search_loop n s sp sz (fst (hd bs)) = Inr (sp, fs))"
proof (induction bs arbitrary: n)
  case (Cons x bs)
  obtain a f where x: "x = (a, f)" by (cases x)
  from Cons.prems(4) obtain n' where n: "n = Suc n'" by (cases n) auto
  from Cons.prems(1) x obtain h where h: "headers s a = Some h" "dm_memory_free h = f"
    "dm_next_memory h = first_addr bs sp" and ch: "chain (headers s) bs sp" by auto
  let ?fs = "if f then dm_next_memory h - a - DM_OVERHEAD else 0"
  show ?case
  proof (cases "?fs < sz")
    case False
    then have "f" and "block_fits (headers s) sz a"
      using assms h by (auto simp: block_fits_def split: if_splits)
    then show ?thesis using False h x n by (auto simp: get_hdr_def)
  next
    case True
    then have nf: "\<not> block_fits (headers s) sz a" using h by (auto simp: block_fits_def)
    show ?thesis
    proof (cases bs)
      case Nil
      with True nf h x n show ?thesis by (auto simp: get_hdr_def Let_def)
    next
      case (Cons y bs')
      with Cons.prems(3) have "first_addr bs sp \<noteq> sp" and hd: "first_addr bs sp = fst (hd bs)"
        by (cases y; auto)+
      then have step: "search_loop n s sp sz (fst (hd (x # bs))) = search_loop n' s sp sz (fst (hd bs))"
        using True h x n by (auto simp: get_hdr_def Let_def)
      have ex: "(\<exists>x \<in> set (x # bs). block_fits (headers s) sz (fst x)) \<longleftrightarrow>
          (\<exists>x \<in> set bs. block_fits (headers s) sz (fst x))"
        using nf x by auto
      have "bs \<noteq> []" "sp \<notin> fst ` set (tl bs)" "length bs \<le> n'"
        using Cons Cons.prems n by auto
      from Cons.IH [OF ch this] show ?thesis
        unfolding step ex by (auto split: if_splits)
    qed
  qed
qed simp

section \<open>Updates of the block list\<close>

lemma seg_lookup:
  "seg H p pr (xs @ (a, f) # ys) nx \<Longrightarrow>
     H a = Some \<lparr>dm_next_memory = first_addr ys nx, dm_previous_memory = last_addr pr xs,
                 dm_memory_free = f, dm_memory_pool = p\<rparr>"
  by (simp add: seg_append)

lemma seg_set_flag:
  assumes "seg H p pr (xs @ (a, f) # ys) nx" and "distinct (map fst (xs @ (a, f) # ys))"
  shows "seg (H(a \<mapsto> \<lparr>dm_next_memory = first_addr ys nx, dm_previous_memory = last_addr pr xs,
      dm_memory_free = g, dm_memory_pool = p\<rparr>)) p pr (xs @ (a, g) # ys) nx"
  using assms by (auto simp: seg_append)

lemma split_block_ok:
  assumes sg: "seg (headers s) p pr (xs @ (a, f) # (b, g) # ys) nx"
    and new: "new = a + sz + DM_OVERHEAD"
    and d: "distinct (map fst (xs @ (a, f) # (new, True) # (b, g) # ys))"
  shows "\<exists>s'. split_block p a sz s = Inr s' \<and> pools s' = pools s \<and> dm_bytes s' = dm_bytes s \<and>
    seg (headers s') p pr (xs @ (a, f) # (new, True) # (b, g) # ys) nx"
  using assms by (auto simp: split_block_def seg_append get_hdr_def set_hdr_def upd_hdr_def Let_def)

lemma unlink_ok:
  assumes sg: "seg H p pr (xs @ (a, f) # (c, f') # (b, g) # ys) nx"
    and d: "distinct (map fst (xs @ (a, f) # (c, f') # (b, g) # ys))"
  shows "seg (H(b \<mapsto> (the (H b))\<lparr>dm_previous_memory := a\<rparr>, a \<mapsto> (the (H a))\<lparr>dm_next_memory := b\<rparr>))
    p pr (xs @ (a, f) # (b, g) # ys) nx"
  using assms by (auto simp: seg_append)

section \<open>Sizes\<close>

lemma DM_OVERHEAD_16: "DM_OVERHEAD = 16"
  by (simp add: DM_OVERHEAD_def)

lemma unat_payload:
  fixes a b :: u32
  assumes "unat a + 16 \<le> unat b"
  shows "unat (b - a - DM_OVERHEAD) = unat b - unat a - 16"
proof -
  have "unat (b - a) = unat b - unat a" using assms by (intro unat_sub_no_wrap) simp
  then show ?thesis
    using assms by (subst unat_sub_no_wrap) (simp_all add: DM_OVERHEAD_16)
qed

lemma unat_round4:
  fixes n :: u32
  assumes "unat n + 3 < 2 ^ 32"
  shows "unat (((n + 4 - 1) div 4) * 4) = (unat n + 3) div 4 * 4"
proof -
  have "n + 4 - 1 = n + 3" by simp
  moreover have "unat (n + 3) = unat n + 3" using assms by (subst unat_add_no_wrap) simp_all
  moreover have "(unat n + 3) div 4 * 4 \<le> unat n + 3" by simp
  ultimately show ?thesis
    using assms by (simp add: unat_word_ariths unat_div del: div_mult_self1_is_m)
qed

text \<open>The size served for a request, and when it is one: the rounding wraps at the top.\<close>

definition served_size :: "nat \<Rightarrow> nat \<Rightarrow> nat" where
  "served_size m n = (if n < m then m else (n + 3) div 4 * 4)"

lemma unat_adjust_size:
  assumes "unat n + 3 < 2 ^ 32"
  shows "unat (adjust_size m n) = served_size (unat m) (unat n)"
  using unat_round4 [OF assms] by (auto simp: adjust_size_def served_size_def word_less_nat_alt)

lemma served_size_ge: "n \<le> served_size m n" "m \<le> served_size m n"
  and served_size_dvd: "4 dvd m \<Longrightarrow> 4 dvd served_size m n"
  by (auto simp: served_size_def)

section \<open>OS_GetMem\<close>

lemma gap_length:
  "successively (gap m) ((a, f) # bs) \<Longrightarrow> unat a + 16 * length bs \<le> unat (last_addr a bs)"
proof (induction bs arbitrary: a f)
  case (Cons x bs)
  obtain b g where x: "x = (b, g)" by (cases x)
  with Cons have "unat b + 16 * length bs \<le> unat (last_addr b bs)" by auto
  moreover have "unat a + 16 \<le> unat b" using Cons.prems x by (auto simp: gap_def)
  ultimately show ?case using x by simp
qed simp

lemma heap_fuel:
  assumes "heap_ok p s bs" and "pools s p = Some P"
  shows "length bs \<le> unat (dm_pool_size P)"
proof -
  from assms obtain a f bs' where bs: "bs = (a, f) # bs'" by (cases bs) (auto simp: heap_ok_def layout_def)
  with assms have "unat a + 16 * length bs' \<le> unat (last_addr a bs')"
    and "unat (last_addr a bs') + 16 = unat a + unat (dm_pool_size P)"
    by (auto simp: heap_ok_def layout_def intro: gap_length)
  with bs show ?thesis by simp
qed

text \<open>The payload of a free block, in the block list.\<close>

definition has_room :: "nat \<Rightarrow> block list \<Rightarrow> bool" where
  "has_room n bs \<longleftrightarrow> (\<exists>xs a b g ys. bs = xs @ (a, True) # (b, g) # ys \<and> n + 16 \<le> unat b - unat a)"

lemma heap_free_block:
  assumes ok: "heap_ok p s bs" and a: "(a, True) \<in> set bs"
  obtains xs b g ys where "bs = xs @ (a, True) # (b, g) # ys"
    and "headers s a = Some \<lparr>dm_next_memory = b, dm_previous_memory = last_addr (last_addr 0 bs) xs,
      dm_memory_free = True, dm_memory_pool = p\<rparr>"
    and "unat a + 32 \<le> unat b"
proof -
  from a obtain xs zs where zs: "bs = xs @ (a, True) # zs" by (auto dest: split_list)
  moreover from ok obtain m where lay: "layout m bs" and "16 \<le> m"
    and sg: "seg (headers s) p (last_addr 0 bs) bs (first_addr bs 0)" by (auto simp: heap_ok_def)
  ultimately obtain b g ys where "zs = (b, g) # ys" by (auto elim: free_not_last)
  moreover from this zs lay have "gap m (a, True) (b, g)"
    by (auto simp: layout_def successively_append_iff)
  ultimately show thesis
    using that zs \<open>16 \<le> m\<close> seg_lookup [OF sg [unfolded zs]] by (auto simp: gap_def zs)
qed

lemma heap_fits:
  assumes ok: "heap_ok p s bs" and sz: "0 < sz"
  shows "(\<exists>x \<in> set bs. block_fits (headers s) sz (fst x)) \<longleftrightarrow> has_room (unat sz) bs"
proof
  assume "\<exists>x \<in> set bs. block_fits (headers s) sz (fst x)"
  then obtain a f h where a: "(a, f) \<in> set bs" "headers s a = Some h" "dm_memory_free h"
    "sz \<le> dm_next_memory h - a - DM_OVERHEAD" by (auto simp: block_fits_def)
  moreover have "f" using a ok by (auto simp: heap_ok_def dest!: split_list seg_lookup)
  ultimately have "(a, True) \<in> set bs" by simp
  then obtain xs b g ys where bs: "bs = xs @ (a, True) # (b, g) # ys" and h: "dm_next_memory h = b"
    and "unat a + 32 \<le> unat b"
    using heap_free_block [OF ok] a(2) by (metis dm_header.select_convs(1) option.inject)
  with a(4) have "unat sz + 16 \<le> unat b - unat a"
    using unat_payload [of a b] by (auto simp: word_le_nat_alt)
  with bs show "has_room (unat sz) bs" unfolding has_room_def by blast
next
  assume "has_room (unat sz) bs"
  then obtain xs a b g ys where bs: "bs = xs @ (a, True) # (b, g) # ys"
    and room: "unat sz + 16 \<le> unat b - unat a" by (auto simp: has_room_def)
  have "headers s a = Some \<lparr>dm_next_memory = b, dm_previous_memory = last_addr (last_addr 0 bs) xs,
      dm_memory_free = True, dm_memory_pool = p\<rparr>"
    using ok bs by (auto simp: heap_ok_def dest: seg_lookup)
  moreover have "unat sz \<le> unat (b - a - DM_OVERHEAD)"
    using room by (subst unat_payload) simp_all
  ultimately have "block_fits (headers s) sz a"
    by (simp add: block_fits_def word_le_nat_alt)
  with bs show "\<exists>x \<in> set bs. block_fits (headers s) sz (fst x)" by auto
qed

lemma heap_search:
  assumes ok: "heap_ok p s bs" and P: "pools s p = Some P" and sz: "0 < sz"
  shows "if has_room (unat sz) bs
    then \<exists>xs a b g ys. bs = xs @ (a, True) # (b, g) # ys \<and> unat sz + 16 \<le> unat b - unat a \<and>
      search_loop (unat (dm_pool_size P)) s (dm_search_ptr P) sz (dm_search_ptr P) =
        Inr (a, b - a - DM_OVERHEAD)
    else \<exists>fs < sz. search_loop (unat (dm_pool_size P)) s (dm_search_ptr P) sz (dm_search_ptr P) =
        Inr (dm_search_ptr P, fs)"
proof -
  let ?sp = "dm_search_ptr P" let ?r = "search_loop (unat (dm_pool_size P)) s ?sp sz ?sp"
  from ok P have "?sp \<in> fst ` set bs" and lay: "layout (unat (dm_min_allocation P)) bs"
    and sg: "seg (headers s) p (last_addr 0 bs) bs (first_addr bs 0)" by (auto simp: heap_ok_def)
  then obtain us f vs where bs: "bs = us @ (?sp, f) # vs" by (auto dest: split_list)
  obtain rot where rot: "chain (headers s) rot ?sp" "rot \<noteq> []" "?sp \<notin> fst ` set (tl rot)"
    "length rot \<le> unat (dm_pool_size P)" and hd: "fst (hd rot) = ?sp" and set: "set rot = set bs"
  proof
    let ?rot = "(?sp, f) # vs @ us"
    show "chain (headers s) ?rot ?sp" using seg_chain [OF sg] by (auto simp: bs chain_append)
    show "?sp \<notin> fst ` set (tl ?rot)" using layout_distinct [OF lay] by (auto simp: bs)
    show "length ?rot \<le> unat (dm_pool_size P)" using heap_fuel [OF ok P] by (simp add: bs)
    show "set ?rot = set bs" by (auto simp: bs)
  qed simp_all
  have *: "if has_room (unat sz) bs
     then \<exists>a h. (a, True) \<in> set bs \<and> headers s a = Some h \<and> block_fits (headers s) sz a \<and>
       ?r = Inr (a, dm_next_memory h - a - DM_OVERHEAD)
     else \<exists>fs < sz. ?r = Inr (?sp, fs)"
    using search_loop_ok [OF sz rot] by (simp only: set hd heap_fits [OF ok sz])
  show ?thesis
  proof (cases "has_room (unat sz) bs")
    case True
    with * obtain a h where a: "(a, True) \<in> set bs" "headers s a = Some h" "block_fits (headers s) sz a"
      "?r = Inr (a, dm_next_memory h - a - DM_OVERHEAD)" by auto
    from heap_free_block [OF ok a(1)] a(2) obtain xs b g ys where
      b: "bs = xs @ (a, True) # (b, g) # ys" "dm_next_memory h = b" "unat a + 32 \<le> unat b"
      by (metis dm_header.select_convs(1) option.inject)
    with a(2,3) have "unat sz + 16 \<le> unat b - unat a"
      using unat_payload [of a b] by (auto simp: block_fits_def word_le_nat_alt)
    with True a(4) b show ?thesis by auto
  next
    case False
    with * show ?thesis by auto
  qed
qed


text \<open>The block list after an allocation from the free block \<open>a\<close> before \<open>b\<close>.\<close>

definition carve :: "nat \<Rightarrow> u32 \<Rightarrow> u32 \<Rightarrow> u32 \<Rightarrow> block list" where
  "carve m sz a b = (if unat sz + 16 + m \<le> unat b - unat a - 16
     then [(a, False), (a + sz + DM_OVERHEAD, True)] else [(a, False)])"

lemma carve_layout:
  assumes lay: "layout m (xs @ (a, True) # (b, g) # ys)"
    and room: "unat sz + 16 \<le> unat b - unat a" and m: "m \<le> unat sz"
    and al: "\<forall>(a, f) \<in> set (xs @ (a, True) # (b, g) # ys). 4 dvd unat a" "4 dvd unat sz"
  shows "layout m (xs @ carve m sz a b @ (b, g) # ys)"
    and "\<forall>(a, f) \<in> set (xs @ carve m sz a b @ (b, g) # ys). 4 dvd unat a"
proof -
  have new: "unat (a + sz + DM_OVERHEAD) = unat a + unat sz + 16"
    using room unat_u32_less [of b] by (simp add: unat_word_ariths DM_OVERHEAD_16)
  have g: "\<not> g" using lay by (auto simp: layout_def successively_append_iff gap_def)
  show "layout m (xs @ carve m sz a b @ (b, g) # ys)"
    using lay room m new g
    by (auto simp: layout_def carve_def successively_append_iff gap_def DM_OVERHEAD_16)
  have "4 dvd unat a" using al(1) by simp
  with al(2) have "4 dvd unat (a + sz + DM_OVERHEAD)" unfolding new by (intro dvd_add) simp_all
  then show "\<forall>(a, f) \<in> set (xs @ carve m sz a b @ (b, g) # ys). 4 dvd unat a"
    using al(1) by (auto simp: carve_def)
qed

lemma carve_avail:
  assumes room: "unat sz + 16 \<le> unat b - unat a"
  shows "avail (xs @ carve m sz a b @ (b, g) # ys) =
    avail (xs @ (a, True) # (b, g) # ys) -
      (if unat sz + 16 + m \<le> unat b - unat a - 16 then unat sz + 16 else unat b - unat a - 16)"
    and "unat b - unat a - 16 \<le> avail (xs @ (a, True) # (b, g) # ys)"
proof -
  have new: "unat (a + sz + DM_OVERHEAD) = unat a + unat sz + 16"
    using room unat_u32_less [of b] by (simp add: unat_word_ariths DM_OVERHEAD_16)
  show "avail (xs @ carve m sz a b @ (b, g) # ys) =
    avail (xs @ (a, True) # (b, g) # ys) -
      (if unat sz + 16 + m \<le> unat b - unat a - 16 then unat sz + 16 else unat b - unat a - 16)"
    using new room by (auto simp: carve_def avail_append2 avail_snoc_flag [of xs a True False])
  show "unat b - unat a - 16 \<le> avail (xs @ (a, True) # (b, g) # ys)"
    by (simp add: avail_append2)
qed


lemma carve_first [simp]: "first_addr (carve m sz a b) nx = a"
  and carve_last: "last_addr pr (carve m sz a b @ (b, g) # ys) = last_addr b ys"
  by (simp_all add: carve_def)

text \<open>What the header updates of an allocation make of the block list.\<close>

definition take_block :: "u32 \<Rightarrow> nat \<Rightarrow> u32 \<Rightarrow> u32 \<Rightarrow> u32 \<Rightarrow> dm_state \<Rightarrow> dm_state outcome" where
  "take_block p m sz a b s =
     ebind (if unat sz + 16 + m \<le> unat b - unat a - 16 then split_block p a sz s else Inr s)
       (upd_hdr a (\<lambda>h. h\<lparr>dm_memory_free := False\<rparr>))"

lemma take_block_ok:
  assumes sg: "seg (headers s) p pr (xs @ (a, True) # (b, g) # ys) nx"
    and d: "distinct (map fst (xs @ carve m sz a b @ (b, g) # ys))"
  shows "\<exists>s'. take_block p m sz a b s = Inr s' \<and> pools s' = pools s \<and> dm_bytes s' = dm_bytes s \<and>
    seg (headers s') p pr (xs @ carve m sz a b @ (b, g) # ys) nx"
proof -
  have mark: "\<exists>s''. upd_hdr a (\<lambda>h. h\<lparr>dm_memory_free := False\<rparr>) s' = Inr s'' \<and> pools s'' = pools s' \<and>
      dm_bytes s'' = dm_bytes s' \<and> seg (headers s'') p pr (xs @ (a, False) # zs) nx"
    if "seg (headers s') p pr (xs @ (a, True) # zs) nx" "distinct (map fst (xs @ (a, True) # zs))" for s' zs
    using seg_lookup [OF that(1)] seg_set_flag [OF that, of False]
    by (simp add: upd_hdr_def get_hdr_def set_hdr_def)
  show ?thesis
  proof (cases "unat sz + 16 + m \<le> unat b - unat a - 16")
    case True
    let ?new = "a + sz + DM_OVERHEAD"
    have c: "carve m sz a b = [(a, False), (?new, True)]" using True by (simp add: carve_def)
    with d have d': "distinct (map fst (xs @ (a, True) # (?new, True) # (b, g) # ys))" by simp
    from split_block_ok [OF sg refl d'] obtain s' where
      s': "split_block p a sz s = Inr s'" "pools s' = pools s" "dm_bytes s' = dm_bytes s"
      "seg (headers s') p pr (xs @ (a, True) # (?new, True) # (b, g) # ys) nx" by blast
    from mark [OF s'(4) d'] s' show ?thesis unfolding take_block_def c using True by auto
  next
    case False
    then have c: "carve m sz a b = [(a, False)]" by (simp add: carve_def)
    with d have "distinct (map fst (xs @ (a, True) # (b, g) # ys))" by simp
    from mark [OF sg this] show ?thesis unfolding take_block_def c using False by auto
  qed
qed

lemma OS_GetMem_eq:
  assumes P: "pools s p = Some P" and sz: "sz = adjust_size (dm_min_allocation P) n"
    and r: "search_loop (unat (dm_pool_size P)) s (dm_search_ptr P) sz (dm_search_ptr P) =
      Inr (a, b - a - DM_OVERHEAD)"
    and room: "unat sz + 16 \<le> unat b - unat a"
    and small: "unat sz + 16 + unat (dm_min_allocation P) < 2 ^ 32"
    and t: "take_block p (unat (dm_min_allocation P)) sz a b s = Inr s'" "headers s' a = Some h"
  shows "OS_GetMem p n s = Inr (OS_ERR_NONE, a + DM_OVERHEAD, set_pool p (P\<lparr>
    dm_available := dm_available P -
      (if unat sz + 16 + unat (dm_min_allocation P) \<le> unat b - unat a - 16 then sz + DM_OVERHEAD
       else b - a - DM_OVERHEAD),
    dm_search_ptr := (if dm_search_ptr P = a then dm_next_memory h else dm_search_ptr P)\<rparr>) s')"
proof -
  have pay: "unat (b - a - DM_OVERHEAD) = unat b - unat a - 16" using room by (intro unat_payload) simp
  have le: "sz \<le> b - a - DM_OVERHEAD" using room pay by (simp add: word_le_nat_alt)
  have split: "sz + DM_OVERHEAD + dm_min_allocation P \<le> b - a - DM_OVERHEAD \<longleftrightarrow>
      unat sz + 16 + unat (dm_min_allocation P) \<le> unat b - unat a - 16"
    using small pay by (simp add: word_le_nat_alt unat_word_ariths DM_OVERHEAD_16)
  show ?thesis
  proof (cases "unat sz + 16 + unat (dm_min_allocation P) \<le> unat b - unat a - 16")
    case True
    with t obtain s1 where "split_block p a sz s = Inr s1"
      "upd_hdr a (\<lambda>h. h\<lparr>dm_memory_free := False\<rparr>) s1 = Inr s'"
      by (auto simp: take_block_def ebind_Inr_iff)
    with P sz r le split True t(2) show ?thesis
      by (simp add: OS_GetMem_def get_pool_def Let_def get_hdr_def diff_diff_eq)
  next
    case False
    with t have "upd_hdr a (\<lambda>h. h\<lparr>dm_memory_free := False\<rparr>) s = Inr s'"
      by (auto simp: take_block_def)
    with P sz r le split False t(2) show ?thesis
      by (simp add: OS_GetMem_def get_pool_def Let_def get_hdr_def)
  qed
qed

lemma first_le:
  "successively (gap m) (xs @ (a, f) # ys) \<Longrightarrow> unat (first_addr xs a) \<le> unat a"
proof (induction xs)
  case (Cons x xs)
  then have "unat (first_addr xs a) \<le> unat a" by (auto simp: successively_Cons)
  moreover have "unat (fst x) \<le> unat (first_addr xs a)"
    using Cons.prems by (cases xs) (auto simp: gap_def)
  ultimately show ?case by (cases x) auto
qed simp

lemma heap_extent:
  assumes ok: "heap_ok p s bs" and P: "pools s p = Some P" and bs: "bs = xs @ (a, f) # (b, g) # ys"
  shows "unat b - unat a + 16 \<le> unat (dm_pool_size P)"
proof -
  from ok P bs have suc: "successively (gap (unat (dm_min_allocation P))) (xs @ (a, f) # (b, g) # ys)"
    and ends: "first_addr xs a = dm_start_address P"
      "unat (last_addr b ys) + 16 = unat (dm_start_address P) + unat (dm_pool_size P)"
    by (auto simp: heap_ok_def layout_def)
  have "unat b \<le> unat (last_addr b ys)"
    using gap_length [of _ b g ys] suc by (force simp: successively_append_iff)
  moreover have "unat (dm_start_address P) \<le> unat a" using first_le [OF suc] ends by simp
  moreover have "unat a \<le> unat b" using suc by (auto simp: successively_append_iff gap_def)
  ultimately show ?thesis using ends(2) by linarith
qed

text \<open>
  \<open>OS_GetMem\<close> on a well-formed heap: a request that some free block can hold takes such a block
  and returns the address behind its header; any other request is refused and changes nothing.
\<close>

lemma OS_GetMem_full:
  assumes ok: "heap_ok p s bs" and P: "pools s p = Some P" and n: "unat n + 3 < 2 ^ 32"
    and full: "\<not> has_room (served_size (unat (dm_min_allocation P)) (unat n)) bs"
  shows "OS_GetMem p n s = Inr (OS_ERR_MEM_FULL, 0, s)"
proof -
  let ?sz = "adjust_size (dm_min_allocation P) n"
  have "0 < served_size (unat (dm_min_allocation P)) (unat n)"
    using ok P served_size_ge(2) [of "unat (dm_min_allocation P)" "unat n"] by (auto simp: heap_ok_def)
  then have pos: "0 < ?sz" using unat_adjust_size [OF n] by (simp add: word_less_nat_alt)
  from full heap_search [OF ok P pos] unat_adjust_size [OF n] obtain fs where "fs < ?sz"
    "search_loop (unat (dm_pool_size P)) s (dm_search_ptr P) ?sz (dm_search_ptr P) = Inr (dm_search_ptr P, fs)"
    by auto
  with P show ?thesis by (auto simp: OS_GetMem_def get_pool_def Let_def)
qed

text \<open>A heap with another block list between the same ends.\<close>

lemma heap_okI:
  assumes ok: "heap_ok p s bs" and P: "pools s p = Some P"
    and P': "pools s' p = Some (P\<lparr>dm_available := av, dm_search_ptr := sp\<rparr>)"
    and lay: "layout (unat (dm_min_allocation P)) bs'" and al: "\<forall>(a, f) \<in> set bs'. 4 dvd unat a"
    and ends: "first_addr bs' 0 = first_addr bs 0" "last_addr 0 bs' = last_addr 0 bs"
    and sg: "seg (headers s') p (last_addr 0 bs) bs' (first_addr bs 0)"
    and av: "unat av = avail bs'" and sp: "sp \<in> fst ` set bs'"
  shows "heap_ok p s' bs'"
  using ok P sg by (auto simp: heap_ok_def P' lay al ends av sp)

lemma OS_GetMem_ok:
  assumes ok: "heap_ok p s bs" and P: "pools s p = Some P" and n: "unat n + 3 < 2 ^ 32"
    and room: "has_room (served_size (unat (dm_min_allocation P)) (unat n)) bs"
  shows "\<exists>xs a b g ys s'. bs = xs @ (a, True) # (b, g) # ys \<and>
    served_size (unat (dm_min_allocation P)) (unat n) + 16 \<le> unat b - unat a \<and>
    OS_GetMem p n s = Inr (OS_ERR_NONE, a + DM_OVERHEAD, s') \<and> dm_bytes s' = dm_bytes s \<and>
    heap_ok p s' (xs @ carve (unat (dm_min_allocation P)) (adjust_size (dm_min_allocation P) n) a b @ (b, g) # ys)"
proof -
  let ?m = "dm_min_allocation P" let ?sz = "adjust_size ?m n"
  have sz: "unat ?sz = served_size (unat ?m) (unat n)" using unat_adjust_size [OF n] .
  from ok P have m: "16 \<le> unat ?m" "4 dvd unat ?m" and ps: "unat (dm_pool_size P) < 2 ^ 31"
    and lay: "layout (unat ?m) bs" and al: "\<forall>(a, f) \<in> set bs. 4 dvd unat a"
    and sg: "seg (headers s) p (last_addr 0 bs) bs (first_addr bs 0)"
    and sp: "dm_search_ptr P \<in> fst ` set bs" and av: "unat (dm_available P) = avail bs"
    by (auto simp: heap_ok_def)
  have msz: "unat ?m \<le> unat ?sz" "4 dvd unat ?sz"
    using served_size_ge(2) served_size_dvd [OF m(2)] by (simp_all add: sz)
  have pos: "0 < ?sz" using m msz by (simp add: word_less_nat_alt)
  from heap_search [OF ok P pos] room obtain xs a b g ys where
    bs: "bs = xs @ (a, True) # (b, g) # ys" and rm: "unat ?sz + 16 \<le> unat b - unat a"
    and r: "search_loop (unat (dm_pool_size P)) s (dm_search_ptr P) ?sz (dm_search_ptr P) =
      Inr (a, b - a - DM_OVERHEAD)" by (auto simp: sz)
  let ?bs = "xs @ carve (unat ?m) ?sz a b @ (b, g) # ys"
  note c = carve_layout [OF lay [unfolded bs] rm msz(1) al [unfolded bs] msz(2)]
  have small: "unat ?sz + 16 + unat ?m < 2 ^ 32"
    using heap_extent [OF ok P bs] ps rm msz(1) by simp
  from take_block_ok [OF sg [unfolded bs] layout_distinct [OF c(1)]] obtain s' where
    t: "take_block p (unat ?m) ?sz a b s = Inr s'" "pools s' = pools s" "dm_bytes s' = dm_bytes s"
    and sg': "seg (headers s') p (last_addr 0 bs) ?bs (first_addr bs 0)"
    unfolding bs by blast
  obtain zs where zs: "?bs = xs @ (a, False) # zs" "zs \<noteq> []" "first_addr zs 0 \<in> fst ` set zs"
    by (cases "unat ?sz + 16 + unat ?m \<le> unat b - unat a - 16") (auto simp: carve_def)
  obtain h where h: "headers s' a = Some h" "dm_next_memory h = first_addr zs (first_addr bs 0)"
    using seg_lookup [OF sg' [unfolded zs]] by auto
  have nx: "dm_next_memory h \<in> fst ` set zs" using h(2) zs(2) by (cases zs) auto
  let ?d = "if unat ?sz + 16 + unat ?m \<le> unat b - unat a - 16 then ?sz + DM_OVERHEAD else b - a - DM_OVERHEAD"
  let ?sp = "if dm_search_ptr P = a then dm_next_memory h else dm_search_ptr P"
  let ?s = "set_pool p (P\<lparr>dm_available := dm_available P - ?d, dm_search_ptr := ?sp\<rparr>) s'"
  have get: "OS_GetMem p n s = Inr (OS_ERR_NONE, a + DM_OVERHEAD, ?s)"
    using OS_GetMem_eq [OF P refl r rm small t(1) h(1)] .
  have ud: "unat ?d = (if unat ?sz + 16 + unat ?m \<le> unat b - unat a - 16 then unat ?sz + 16
      else unat b - unat a - 16)"
    using rm small unat_payload [of a b] by (auto simp: unat_word_ariths DM_OVERHEAD_16)
  note ca = carve_avail [OF rm, where xs = xs and ys = ys and g = g]
  have "unat ?d \<le> avail bs" using ud ca(2) bs by auto
  then have av': "unat (dm_available P - ?d) = avail ?bs"
    using ca(1) [of "unat ?m"] av ud by (subst unat_sub_no_wrap) (simp_all add: bs)
  have "fst ` set bs \<subseteq> fst ` set ?bs" by (auto simp: bs carve_def)
  moreover have "fst ` set zs \<subseteq> fst ` set ?bs" unfolding zs(1) by auto
  ultimately have sp': "?sp \<in> fst ` set ?bs" using sp nx by (simp only: split: if_split) blast
  have "heap_ok p ?s ?bs"
    using c sg' av' sp' by (intro heap_okI [OF ok P]) (simp_all add: set_pool_def bs carve_last)
  moreover have "dm_bytes ?s = dm_bytes s" using t(3) by (simp add: set_pool_def)
  ultimately show ?thesis using bs rm [unfolded sz] get by blast
qed

section \<open>OS_FreeMem\<close>

lemma merge_previous_free:
  assumes "seg (headers s) p pr (us @ (c, True) # (a, f) # (b, g) # ys) nx"
    and "distinct (map fst (us @ (c, True) # (a, f) # (b, g) # ys))"
  shows "\<exists>s'. merge_previous a P s = Inr (c, P\<lparr>dm_available := dm_available P + DM_OVERHEAD,
      dm_search_ptr := c\<rparr>, s') \<and> pools s' = pools s \<and> dm_bytes s' = dm_bytes s \<and>
    seg (headers s') p pr (us @ (c, True) # (b, g) # ys) nx"
  using assms by (auto simp: merge_previous_def seg_append get_hdr_def set_hdr_def upd_hdr_def)

lemma merge_previous_used:
  assumes "seg (headers s) p pr (xs @ (a, f) # ys) nx" and "headers s (last_addr pr xs) = Some h"
    and "\<not> dm_memory_free h"
  shows "merge_previous a P s = Inr (a, P, s)"
  using assms by (auto simp: merge_previous_def seg_append get_hdr_def)

lemma merge_next_free:
  assumes "seg (headers s) p pr (us @ (a, f) # (b, True) # (d, k) # ys) nx"
    and "distinct (map fst (us @ (a, f) # (b, True) # (d, k) # ys))"
  shows "\<exists>s'. merge_next a P s = Inr (P\<lparr>dm_available := dm_available P + DM_OVERHEAD,
      dm_search_ptr := a\<rparr>, s') \<and> pools s' = pools s \<and> dm_bytes s' = dm_bytes s \<and>
    seg (headers s') p pr (us @ (a, f) # (d, k) # ys) nx"
  using assms by (auto simp: merge_next_def seg_append get_hdr_def set_hdr_def upd_hdr_def)

lemma merge_next_used:
  assumes "seg (headers s) p pr (us @ (a, f) # (b, False) # ys) nx"
  shows "merge_next a P s = Inr (P, s)"
  using assms by (auto simp: merge_next_def seg_append get_hdr_def)

text \<open>The block list after the release of block \<open>a\<close>: merged with free neighbours on both sides.\<close>

definition merges_left :: "block list \<Rightarrow> bool" where
  "merges_left xs \<longleftrightarrow> xs \<noteq> [] \<and> snd (last xs)"

definition release_left :: "block list \<Rightarrow> u32 \<Rightarrow> block list" where
  "release_left xs a = (if merges_left xs then xs else xs @ [(a, True)])"

definition release :: "block list \<Rightarrow> u32 \<Rightarrow> u32 \<Rightarrow> bool \<Rightarrow> block list \<Rightarrow> block list" where
  "release xs a b g ys = release_left xs a @ (if g then ys else (b, g) # ys)"

lemma release_left_snoc:
  obtains us h where "release_left xs a = us @ [(h, True)]"
    and "merges_left xs \<Longrightarrow> xs = us @ [(h, True)]" and "\<not> merges_left xs \<Longrightarrow> us = xs \<and> h = a"
proof (cases "merges_left xs")
  case True
  then obtain us h where "xs = us @ [(h, True)]"
    by (metis append_butlast_last_id merges_left_def prod.collapse)
  with True that show ?thesis by (auto simp: release_left_def)
next
  case False
  with that [of xs a] show ?thesis by (auto simp: release_left_def)
qed

lemma avail_bound:
  "successively (gap m) ((a, f) # bs) \<Longrightarrow> avail ((a, f) # bs) + unat a \<le> unat (last_addr a bs)"
proof (induction bs arbitrary: a f)
  case (Cons x bs)
  obtain b g where x: "x = (b, g)" by (cases x)
  with Cons have "avail ((b, g) # bs) + unat b \<le> unat (last_addr b bs)" by auto
  moreover have "unat a + 16 \<le> unat b" using Cons.prems x by (auto simp: gap_def)
  ultimately show ?case using x by simp linarith
qed simp

lemma layout_used_next:
  assumes "layout m (xs @ (a, f) # (b, True) # ys)"
  obtains d k zs where "ys = (d, False) # zs"
  using assms by (cases ys) (auto simp: layout_def successively_append_iff gap_def)

lemma release_avail:
  assumes lay: "layout m (xs @ (a, False) # (b, g) # ys)"
  shows "avail (release xs a b g ys) = avail (xs @ (a, False) # (b, g) # ys) +
    (unat b - unat a - 16) + (if merges_left xs then 16 else 0) + (if g then 16 else 0)"
proof -
  obtain us h where r: "release_left xs a = us @ [(h, True)]"
    and l: "merges_left xs \<Longrightarrow> xs = us @ [(h, True)]" and n: "\<not> merges_left xs \<Longrightarrow> us = xs \<and> h = a"
    using release_left_snoc by blast
  have ab: "unat a + 16 \<le> unat b" using lay by (auto simp: layout_def successively_append_iff gap_def)
  have left: "avail (us @ (h, True) # (b, g) # ys) = avail (xs @ (a, False) # (b, g) # ys) +
      (unat b - unat a - 16) + (if merges_left xs then 16 else 0)"
  proof (cases "merges_left xs")
    case True
    with l lay have "unat h + 16 \<le> unat a" by (auto simp: layout_def successively_append_iff gap_def)
    with True l ab show ?thesis by (simp add: avail_append2)
  next
    case False
    with n ab show ?thesis by (simp add: avail_append2 avail_snoc_flag [of xs a True False])
  qed
  have hb: "unat h + 16 \<le> unat b"
    using l n ab lay by (cases "merges_left xs") (auto simp: layout_def successively_append_iff gap_def)
  show ?thesis
  proof (cases g)
    case True
    with lay obtain d zs where ys: "ys = (d, False) # zs" by (auto elim: layout_used_next)
    with lay have "unat b + 16 \<le> unat d" by (auto simp: layout_def successively_append_iff gap_def)
    with left hb True ys r show ?thesis by (simp add: release_def avail_append2)
  next
    case False
    with left r show ?thesis by (simp add: release_def)
  qed
qed

lemma release_layout:
  assumes lay: "layout m (xs @ (a, False) # (b, g) # ys)"
  shows "layout m (release xs a b g ys)" and "set (release xs a b g ys) \<subseteq> insert (a, True) (set xs \<union> set ((b, g) # ys))"
    and "first_addr (release xs a b g ys) 0 = first_addr xs a"
    and "last_addr 0 (release xs a b g ys) = last_addr b ys"
proof -
  have ab: "unat a + 16 + m \<le> unat b" using lay by (auto simp: layout_def successively_append_iff gap_def)
  have "(xs = [] \<or> unat (fst (last xs)) + 16 + m \<le> unat a)"
    using lay by (auto simp: layout_def successively_append_iff gap_def)
  moreover have "g \<Longrightarrow> \<exists>d zs. ys = (d, False) # zs \<and> unat b + 16 + m \<le> unat d"
    using lay by (cases ys) (auto simp: layout_def successively_append_iff gap_def)
  ultimately show "layout m (release xs a b g ys)"
    and "first_addr (release xs a b g ys) 0 = first_addr xs a"
    and "last_addr 0 (release xs a b g ys) = last_addr b ys"
    using lay ab
    by (cases g; cases "merges_left xs"; cases xs rule: rev_cases;
        force simp: release_def release_left_def merges_left_def layout_def successively_append_iff gap_def)+
  show "set (release xs a b g ys) \<subseteq> insert (a, True) (set xs \<union> set ((b, g) # ys))"
    by (auto simp: release_def release_left_def split: if_splits)
qed

text \<open>The two merges, on the block list where \<open>a\<close> has been marked free.\<close>

lemma merges_ok:
  assumes sg: "seg (headers s) p pr (xs @ (a, True) # (b, g) # ys) nx"
    and lay: "layout m (xs @ (a, False) # (b, g) # ys)" and pr: "pr = last_addr b ys"
  shows "\<exists>h P1 s1 P2 s2. merge_previous a P s = Inr (h, P1, s1) \<and> merge_next h P1 s1 = Inr (P2, s2) \<and>
    pools s2 = pools s \<and> dm_bytes s2 = dm_bytes s \<and> seg (headers s2) p pr (release xs a b g ys) nx \<and>
    P2 = P\<lparr>dm_available := dm_available P + (if merges_left xs then DM_OVERHEAD else 0) +
             (if g then DM_OVERHEAD else 0),
           dm_search_ptr := (if merges_left xs \<or> g then h else dm_search_ptr P)\<rparr> \<and>
    (h, True) \<in> set (release xs a b g ys)"
proof -
  obtain us h where r: "release_left xs a = us @ [(h, True)]"
    and l: "merges_left xs \<Longrightarrow> xs = us @ [(h, True)]" and n: "\<not> merges_left xs \<Longrightarrow> us = xs \<and> h = a"
    using release_left_snoc by blast
  have d: "distinct (map fst (xs @ (a, True) # (b, g) # ys))" using layout_distinct [OF lay] by simp
  let ?P1 = "P\<lparr>dm_available := dm_available P + (if merges_left xs then DM_OVERHEAD else 0),
    dm_search_ptr := (if merges_left xs then h else dm_search_ptr P)\<rparr>"
  have "\<exists>s1. merge_previous a P s = Inr (h, ?P1, s1) \<and> pools s1 = pools s \<and> dm_bytes s1 = dm_bytes s \<and>
      seg (headers s1) p pr (us @ (h, True) # (b, g) # ys) nx"
  proof (cases "merges_left xs")
    case True
    with l sg d show ?thesis using merge_previous_free [of s p pr us h a True b g ys nx P] by simp
  next
    case False
    have "\<exists>hd. headers s (last_addr pr xs) = Some hd \<and> \<not> dm_memory_free hd"
    proof (cases xs rule: rev_cases)
      case Nil
      obtain zs c where "(a, True) # (b, g) # ys = zs @ [(c, False)]" and "last_addr b ys = c"
        using lay Nil by (cases ys rule: rev_cases) (auto simp: layout_def)
      then show ?thesis using sg Nil pr seg_lookup [of "headers s" p pr zs c False "[]" nx] by auto
    next
      case (snoc us' x)
      with False obtain c where "x = (c, False)" by (cases x) (auto simp: merges_left_def)
      with sg snoc show ?thesis by (auto simp: seg_append)
    qed
    with sg False n show ?thesis using merge_previous_used [OF sg] by auto
  qed
  then obtain s1 where s1: "merge_previous a P s = Inr (h, ?P1, s1)" "pools s1 = pools s"
    "dm_bytes s1 = dm_bytes s" "seg (headers s1) p pr (us @ (h, True) # (b, g) # ys) nx" by blast
  show ?thesis
  proof (cases g)
    case True
    with lay obtain e zs where ys: "ys = (e, False) # zs" by (auto elim: layout_used_next)
    have "distinct (map fst (us @ (h, True) # (b, True) # (e, False) # zs))"
      using d l n ys True by (cases "merges_left xs") auto
    from merge_next_free [OF _ this, of s1 p pr nx ?P1] s1 True ys r show ?thesis
      by (auto simp: release_def)
  next
    case False
    with merge_next_used [of s1 p pr us h True b ys nx ?P1] s1 r show ?thesis
      by (auto simp: release_def)
  qed
qed

lemma OS_FreeMem_ok:
  assumes ok: "heap_ok p s (xs @ (a, False) # (b, g) # ys)"
  shows "\<exists>s'. OS_FreeMem (a + DM_OVERHEAD) s = Inr (OS_ERR_NONE, s') \<and> dm_bytes s' = dm_bytes s \<and>
    heap_ok p s' (release xs a b g ys)"
proof -
  let ?bs = "xs @ (a, False) # (b, g) # ys" let ?r = "release xs a b g ys"
  from ok obtain P where P: "pools s p = Some P" and lay: "layout (unat (dm_min_allocation P)) ?bs"
    and al: "\<forall>(a, f) \<in> set ?bs. 4 dvd unat a"
    and sg: "seg (headers s) p (last_addr 0 ?bs) ?bs (first_addr ?bs 0)"
    and sp: "dm_search_ptr P \<in> fst ` set ?bs" and av: "unat (dm_available P) = avail ?bs"
    by (rule heap_okE)
  have ab: "unat a + 16 \<le> unat b" using lay by (auto simp: layout_def successively_append_iff gap_def)
  let ?P1 = "P\<lparr>dm_available := dm_available P + (b - a) - DM_OVERHEAD\<rparr>"
  let ?h = "\<lparr>dm_next_memory = b, dm_previous_memory = last_addr (last_addr 0 ?bs) xs,
    dm_memory_free = False, dm_memory_pool = p\<rparr>"
  let ?s1 = "set_hdr a (?h\<lparr>dm_memory_free := True\<rparr>) s"
  have h: "headers s a = Some ?h" using seg_lookup [OF sg] by simp
  have sg1: "seg (headers ?s1) p (last_addr b ys) (xs @ (a, True) # (b, g) # ys) (first_addr ?bs 0)"
    using seg_set_flag [OF sg layout_distinct [OF lay], of True] by (simp add: set_hdr_def)
  from merges_ok [OF sg1 lay refl, of ?P1] obtain hd P2 s2 P3 s3 where
    m: "merge_previous a ?P1 ?s1 = Inr (hd, P2, s2)" "merge_next hd P2 s2 = Inr (P3, s3)"
    and s3: "pools s3 = pools ?s1" "dm_bytes s3 = dm_bytes ?s1"
    and sg3: "seg (headers s3) p (last_addr b ys) ?r (first_addr ?bs 0)"
    and P3: "P3 = P\<lparr>dm_available := dm_available P + (b - a) - DM_OVERHEAD +
        (if merges_left xs then DM_OVERHEAD else 0) + (if g then DM_OVERHEAD else 0),
      dm_search_ptr := (if merges_left xs \<or> g then hd else dm_search_ptr P)\<rparr>"
    and hd: "(hd, True) \<in> set ?r" by auto
  have free: "OS_FreeMem (a + DM_OVERHEAD) s = Inr (OS_ERR_NONE, set_pool p P3 s3)"
    using m P h by (simp add: OS_FreeMem_def get_hdr_def get_pool_def Let_def)
  note rl = release_layout [OF lay]
  obtain x f zs where r: "?r = (x, f) # zs" using rl(1) by (cases ?r) (auto simp: layout_def)
  have "avail ?r + unat x \<le> unat (last_addr x zs)"
    using avail_bound [of _ x f zs] rl(1) unfolding r by (auto simp: layout_def)
  then have bound: "avail ?r < 4294967296"
    using unat_u32_less [of "last_addr x zs"] by linarith
  have "dm_available P + (b - a) - DM_OVERHEAD = word_of_nat (avail ?bs + (unat b - unat a - 16))"
  proof -
    have "b - a - DM_OVERHEAD = word_of_nat (unat b - unat a - 16)"
      using unat_payload [OF ab] by (metis of_nat_unat ucast_id)
    moreover have "dm_available P = word_of_nat (avail ?bs)" using av by (metis of_nat_unat ucast_id)
    ultimately show ?thesis by (simp add: algebra_simps)
  qed
  then have "dm_available P + (b - a) - DM_OVERHEAD + (if merges_left xs then DM_OVERHEAD else 0) +
      (if g then DM_OVERHEAD else 0) = word_of_nat (avail ?r)"
    unfolding release_avail [OF lay] by (simp add: DM_OVERHEAD_16)
  then have av3: "unat (dm_available P3) = avail ?r"
    using bound P3 by (simp add: unat_of_nat_no_wrap)
  have sp3: "dm_search_ptr P3 \<in> fst ` set ?r"
    using hd sp P3 by (force simp: release_def release_left_def merges_left_def)
  have "heap_ok p (set_pool p P3 s3) ?r"
    using rl al sg3 av3 sp3 P3
    by (intro heap_okI [OF ok P, where av = "dm_available P3" and sp = "dm_search_ptr P3"])
      (auto simp: set_pool_def)
  with free s3 show ?thesis by (auto simp: set_pool_def set_hdr_def)
qed

section \<open>The blocks in use\<close>

text \<open>What the clients of the heap see: the extents of the blocks in use, header included.\<close>

fun used_blocks :: "block list \<Rightarrow> (u32 \<times> u32) list" where
  "used_blocks ((a, f) # (b, g) # bs) = (if f then [] else [(a, b)]) @ used_blocks ((b, g) # bs)"
| "used_blocks bs = []"

lemma used_append2:
  "used_blocks (xs @ (a, f) # y # ys) = used_blocks (xs @ [(a, f)]) @ used_blocks ((a, f) # y # ys)"
  by (induction xs rule: used_blocks.induct) auto

lemma used_snoc_flag: "used_blocks (xs @ [(a, f)]) = used_blocks (xs @ [(a, g)])"
  by (induction xs rule: used_blocks.induct) auto

lemma used_in:
  assumes "(a, b) \<in> set (used_blocks bs)"
  obtains xs g ys where "bs = xs @ (a, False) # (b, g) # ys"
  using assms
proof (induction bs arbitrary: thesis rule: used_blocks.induct)
  case (1 x f y g bs)
  show ?case
  proof (cases "(a, b) \<in> set (used_blocks ((y, g) # bs))")
    case True
    with 1(1) obtain xs g' ys where "(y, g) # bs = xs @ (a, False) # (b, g') # ys" by blast
    with 1(2) [of "(x, f) # xs" g' ys] show ?thesis by simp
  next
    case False
    with 1(3) have "\<not> f" "a = x" "b = y" by (auto split: if_splits)
    with 1(2) [of "[]" g bs] show ?thesis by simp
  qed
qed auto

lemma used_sorted:
  "successively (gap m) bs \<Longrightarrow>
     sorted_wrt (\<lambda>(a, b) (c, d). unat b \<le> unat c) (used_blocks bs) \<and>
     (\<forall>(c, d) \<in> set (used_blocks bs). unat (first_addr bs 0) \<le> unat c \<and> unat c + 16 + m \<le> unat d)"
proof (induction bs rule: used_blocks.induct)
  case (1 a f b g bs)
  then have "sorted_wrt (\<lambda>(a, b) (c, d). unat b \<le> unat c) (used_blocks ((b, g) # bs))"
    and "\<forall>(c, d) \<in> set (used_blocks ((b, g) # bs)). unat b \<le> unat c \<and> unat c + 16 + m \<le> unat d"
    and "unat a + 16 + m \<le> unat b" by (auto simp: gap_def)
  then show ?case by (cases f) force+
qed auto

text \<open>Blocks in use do not overlap.\<close>

lemma used_disjoint:
  assumes "heap_ok p s bs" and "(a, b) \<in> set (used_blocks bs)" and "(c, d) \<in> set (used_blocks bs)"
  shows "(a, b) = (c, d) \<or> unat b \<le> unat c \<or> unat d \<le> unat a"
proof -
  have "sorted_wrt (\<lambda>(a, b) (c, d). unat b \<le> unat c) (used_blocks bs)"
    using assms(1) by (auto simp: heap_ok_def layout_def dest: used_sorted)
  moreover obtain i j where "i < length (used_blocks bs)" "used_blocks bs ! i = (a, b)"
    "j < length (used_blocks bs)" "used_blocks bs ! j = (c, d)"
    using assms(2,3) by (auto simp: in_set_conv_nth)
  ultimately show ?thesis
    using nat_neq_iff [of i j] by (fastforce simp: sorted_wrt_iff_nth_less)
qed

lemma used_bounds:
  assumes "heap_ok p s bs" and "(a, b) \<in> set (used_blocks bs)"
  shows "unat a + 32 \<le> unat b"
  using assms used_sorted by (fastforce simp: heap_ok_def layout_def)

lemma used_carve:
  "set (used_blocks (xs @ carve m sz a b @ (b, g) # ys)) =
     insert (a, first_addr (tl (carve m sz a b)) b) (set (used_blocks (xs @ (a, True) # (b, g) # ys)))"
  by (auto simp: carve_def used_append2 used_snoc_flag [of xs a True False])

lemma used_release:
  assumes lay: "layout m (xs @ (a, False) # (b, g) # ys)"
  shows "set (used_blocks (release xs a b g ys)) =
    set (used_blocks (xs @ (a, False) # (b, g) # ys)) - {(a, b)}"
proof -
  obtain us h where r: "release_left xs a = us @ [(h, True)]"
    and l: "merges_left xs \<Longrightarrow> xs = us @ [(h, True)]" and n: "\<not> merges_left xs \<Longrightarrow> us = xs \<and> h = a"
    using release_left_snoc by blast
  have nin: "(a, b) \<notin> set (used_blocks (xs @ [(a, False)]))" "(a, b) \<notin> set (used_blocks ((b, g) # ys))"
    using layout_distinct [OF lay] by (auto elim!: used_in simp: append_eq_Cons_conv append_eq_append_conv2 Cons_eq_append_conv)
  have "set (used_blocks (us @ [(h, True)])) = set (used_blocks (xs @ [(a, False)]))"
    using l n used_snoc_flag [of xs a True False] by (cases "merges_left xs") (auto simp: used_append2)
  moreover have "set (used_blocks ((h, True) # (if g then ys else (b, g) # ys))) = set (used_blocks ((b, g) # ys))"
    using lay by (cases g) (auto elim: layout_used_next)
  moreover have "(if g then ys else (b, g) # ys) \<noteq> []"
    using lay by (cases g) (auto elim: layout_used_next)
  ultimately show ?thesis
    using nin r by (cases "if g then ys else (b, g) # ys") (auto simp: release_def used_append2 split: if_splits)
qed

section \<open>The system heap\<close>

text \<open>The pool array is aligned and lies inside the address space.\<close>

definition pool_placed :: "u32 \<Rightarrow> bool" where
  "pool_placed base \<longleftrightarrow> 4 dvd unat base \<and> unat base + 20480 < 2 ^ 32"

definition fresh_blocks :: "u32 \<Rightarrow> block list" where
  "fresh_blocks base = [(base, True), (base + 20464, False)]"

lemma OS_DMemInit_ok:
  assumes "pool_placed base"
  shows "\<exists>s'. OS_DMemInit p base s = Inr s' \<and> heap_ok p s' (fresh_blocks base) \<and>
    dm_bytes s' = dm_bytes s \<and> (\<forall>P. pools s' p = Some P \<longrightarrow> dm_min_allocation P = 16)"
proof -
  have t: "unat (base + 20464) = unat base + 20464"
    using assms by (subst unat_add_no_wrap) (simp_all add: pool_placed_def)
  have ne: "base + 20464 \<noteq> base" by simp
  have sizes: "OS_DMEM_POOL_SIZE div 4 * 4 = 20480" "((16::u32) + 4 - 1) div 4 * 4 = 16"
    by (simp_all add: OS_DMEM_POOL_SIZE_def)
  have d: "4 dvd unat base" and d2: "4 dvd unat base + 20464"
    using assms by (auto simp: pool_placed_def intro: dvd_add)
  show ?thesis
    using t ne d d2
    by (simp add: OS_DMemInit_def OS_Create_Memory_Pool_def load_n_def OS_DMEM_NAME_SIZE_def Let_def
        sizes DM_OVERHEAD_16 heap_ok_def fresh_blocks_def set_pool_def set_hdr_def layout_def gap_def add.assoc)
qed

lemma OSMMalloc_ok:
  assumes ok: "heap_ok p s bs" and P: "pools s p = Some P" and n: "unat n + 3 < 2 ^ 32"
    and room: "has_room (served_size (unat (dm_min_allocation P)) (unat n)) bs"
  shows "\<exists>ptr s' bs' b. OSMMalloc p n s = Inr (ptr, s') \<and> ptr \<noteq> 0 \<and> heap_ok p s' bs' \<and>
    dm_bytes s' = dm_bytes s \<and> 4 dvd unat ptr \<and> unat ptr + unat n \<le> unat b \<and>
    (ptr - DM_OVERHEAD, b) \<notin> set (used_blocks bs) \<and>
    set (used_blocks bs') = insert (ptr - DM_OVERHEAD, b) (set (used_blocks bs)) \<and>
    first_addr bs' 0 = first_addr bs 0 \<and> last_addr 0 bs' = last_addr 0 bs"
proof -
  let ?m = "dm_min_allocation P" let ?sz = "adjust_size ?m n"
  from OS_GetMem_ok [OF assms] obtain xs a b g ys s' where
    bs: "bs = xs @ (a, True) # (b, g) # ys" and rm: "served_size (unat ?m) (unat n) + 16 \<le> unat b - unat a"
    and get: "OS_GetMem p n s = Inr (OS_ERR_NONE, a + DM_OVERHEAD, s')" "dm_bytes s' = dm_bytes s"
    and ok': "heap_ok p s' (xs @ carve (unat ?m) ?sz a b @ (b, g) # ys)" by blast
  have ua: "unat (a + DM_OVERHEAD) = unat a + 16"
    using rm unat_u32_less [of b] by (subst unat_add_no_wrap) (simp_all add: DM_OVERHEAD_16)
  have sz: "unat ?sz = served_size (unat ?m) (unat n)" using unat_adjust_size [OF n] .
  let ?e = "first_addr (tl (carve (unat ?m) ?sz a b)) b"
  have new: "unat (a + ?sz + DM_OVERHEAD) = unat a + unat ?sz + 16"
    using rm sz unat_u32_less [of b] by (simp add: unat_word_ariths DM_OVERHEAD_16)
  have "unat a + 16 + unat n \<le> unat ?e"
    using rm sz new served_size_ge(1) [of "unat n" "unat ?m"] by (simp add: carve_def) linarith
  moreover have "4 dvd unat a" using ok bs by (auto elim: heap_okE)
  moreover have "(a, ?e) \<notin> set (used_blocks bs)"
  proof
    assume "(a, ?e) \<in> set (used_blocks bs)"
    then obtain us h vs where "bs = us @ (a, False) # (?e, h) # vs" by (rule used_in)
    then have "(a, False) \<in> set bs" by simp
    moreover have "(a, True) \<in> set bs" by (simp add: bs)
    moreover have "distinct (map fst bs)" using ok layout_distinct by (blast elim: heap_okE)
    ultimately show False by (metis eq_key_imp_eq_value)
  qed
  moreover have "a + DM_OVERHEAD \<noteq> 0" using ua by (metis add_is_0 unsigned_0 zero_neq_numeral)
  moreover have "OSMMalloc p n s = Inr (a + DM_OVERHEAD, s')"
    using get by (simp add: OSMMalloc_def OS_ERR_NONE_def)
  ultimately show ?thesis
    using ok' used_carve [of xs "unat ?m" ?sz a b g ys] get(2) ua bs
    by (intro exI [of _ "a + DM_OVERHEAD"] exI [of _ s']
        exI [of _ "xs @ carve (unat ?m) ?sz a b @ (b, g) # ys"] exI [of _ ?e]) (simp add: carve_last)
qed

lemma OSMMalloc_full:
  assumes "heap_ok p s bs" and "pools s p = Some P" and "unat n + 3 < 2 ^ 32"
    and "\<not> has_room (served_size (unat (dm_min_allocation P)) (unat n)) bs"
  shows "OSMMalloc p n s = Inr (0, s)"
  using OS_GetMem_full [OF assms] by (simp add: OSMMalloc_def OS_ERR_NONE_def OS_ERR_MEM_FULL_def)

lemma OSMFree_ok:
  assumes ok: "heap_ok p s bs" and u: "(ptr - DM_OVERHEAD, b) \<in> set (used_blocks bs)"
  shows "\<exists>s' bs'. OSMFree ptr s = Inr s' \<and> heap_ok p s' bs' \<and> dm_bytes s' = dm_bytes s \<and>
    set (used_blocks bs') = set (used_blocks bs) - {(ptr - DM_OVERHEAD, b)} \<and>
    avail bs + (unat b - unat ptr) \<le> avail bs' \<and>
    first_addr bs' 0 = first_addr bs 0 \<and> last_addr 0 bs' = last_addr 0 bs"
proof -
  let ?a = "ptr - DM_OVERHEAD"
  from u obtain xs g ys where bs: "bs = xs @ (?a, False) # (b, g) # ys" by (rule used_in)
  from ok obtain m where lay: "layout m bs" by (rule heap_okE)
  from OS_FreeMem_ok [OF ok [unfolded bs]] obtain s' where
    f: "OS_FreeMem (?a + DM_OVERHEAD) s = Inr (OS_ERR_NONE, s')" "dm_bytes s' = dm_bytes s"
    "heap_ok p s' (release xs ?a b g ys)" by blast
  have "unat ?a + 16 = unat ptr"
  proof -
    have "unat ?a + 32 \<le> unat b" by (rule used_bounds [OF ok u])
    then have "unat (?a + DM_OVERHEAD) = unat ?a + 16"
      using unat_u32_less [of b] by (subst unat_add_no_wrap) (simp_all add: DM_OVERHEAD_16)
    then show ?thesis by simp
  qed
  then have "avail bs + (unat b - unat ptr) \<le> avail (release xs ?a b g ys)"
    using release_avail [OF lay [unfolded bs]] bs by simp
  with f used_release [OF lay [unfolded bs]] release_layout(3,4) [OF lay [unfolded bs]] bs show ?thesis
    by (intro exI [of _ s'] exI [of _ "release xs ?a b g ys"]) (simp add: OSMFree_def)
qed

section \<open>Runs of the heap\<close>

text \<open>
  A run of the system heap: initialisation, then any sequence of allocations and releases.
  \<open>live\<close> is the set of pointers the clients hold; only such a pointer is released.  Requests
  within three bytes of \<open>2 ^ 32\<close> are excluded, see \<open>OSMMalloc_wraps\<close>.
\<close>

inductive heap_run :: "u32 \<Rightarrow> u32 \<Rightarrow> dm_state \<Rightarrow> u32 set \<Rightarrow> bool" for p base where
  init: "OS_DMemInit p base s0 = Inr s \<Longrightarrow> heap_run p base s {}"
| malloc: "heap_run p base s live \<Longrightarrow> unat n + 3 < 2 ^ 32 \<Longrightarrow> OSMMalloc p n s = Inr (ptr, s') \<Longrightarrow>
    heap_run p base s' (if ptr = 0 then live else insert ptr live)"
| free: "heap_run p base s live \<Longrightarrow> ptr \<in> live \<Longrightarrow> OSMFree ptr s = Inr s' \<Longrightarrow>
    heap_run p base s' (live - {ptr})"

definition live_blocks :: "u32 set \<Rightarrow> block list \<Rightarrow> bool" where
  "live_blocks live bs \<longleftrightarrow> fst ` set (used_blocks bs) = (\<lambda>ptr. ptr - DM_OVERHEAD) ` live"

lemma used_unique:
  assumes "heap_ok p s bs" and "(a, b) \<in> set (used_blocks bs)" and "(a, b') \<in> set (used_blocks bs)"
  shows "b = b'"
  using used_disjoint [OF assms] used_bounds [OF assms(1,2)] used_bounds [OF assms(1,3)] by auto

lemma live_malloc:
  assumes "live_blocks live bs"
    and "set (used_blocks bs') = insert (ptr - DM_OVERHEAD, b) (set (used_blocks bs))"
  shows "live_blocks (insert ptr live) bs'"
  using assms by (simp add: live_blocks_def)

lemma fst_image_remove:
  "(\<And>b'. (a, b') \<in> A \<Longrightarrow> b' = b) \<Longrightarrow> fst ` (A - {(a, b)}) = fst ` A - {a}"
  by (force simp: image_iff)

lemma live_free:
  assumes ok: "heap_ok p s bs" and live: "live_blocks live bs" and u: "(ptr - DM_OVERHEAD, b) \<in> set (used_blocks bs)"
    and us: "set (used_blocks bs') = set (used_blocks bs) - {(ptr - DM_OVERHEAD, b)}"
  shows "live_blocks (live - {ptr}) bs'"
proof -
  have "fst ` set (used_blocks bs') = fst ` set (used_blocks bs) - {ptr - DM_OVERHEAD}"
    unfolding us using used_unique [OF ok u] by (intro fst_image_remove) blast
  also have "\<dots> = (\<lambda>ptr. ptr - DM_OVERHEAD) ` (live - {ptr})"
    using live by (auto simp: live_blocks_def)
  finally show ?thesis by (simp add: live_blocks_def)
qed

lemma live_extent:
  assumes "live_blocks live bs" and "ptr \<in> live"
  obtains b where "(ptr - DM_OVERHEAD, b) \<in> set (used_blocks bs)"
  using assms unfolding live_blocks_def by (metis (no_types, lifting) eq_fst_iff image_iff)

lemma heap_run_ok:
  assumes placed: "pool_placed base"
  shows "heap_run p base s live \<Longrightarrow>
    \<exists>bs. heap_ok p s bs \<and> live_blocks live bs \<and> first_addr bs 0 = base \<and> last_addr 0 bs = base + 20464"
proof (induction rule: heap_run.induct)
  case (init s0 s)
  with OS_DMemInit_ok [OF placed, of p s0] show ?case
    by (auto simp: live_blocks_def fresh_blocks_def)
next
  case (malloc s live n ptr s')
  then obtain bs where bs: "heap_ok p s bs" "live_blocks live bs" "first_addr bs 0 = base"
    "last_addr 0 bs = base + 20464" by blast
  from bs(1) obtain P where P: "pools s p = Some P" by (rule heap_okE)
  show ?case
  proof (cases "has_room (served_size (unat (dm_min_allocation P)) (unat n)) bs")
    case True
    with OSMMalloc_ok [OF bs(1) P malloc(2)] malloc(3) bs(2-4) live_malloc [OF bs(2)] show ?thesis
      by (auto split: if_splits)
  next
    case False
    with OSMMalloc_full [OF bs(1) P malloc(2)] malloc(3) bs show ?thesis by auto
  qed
next
  case (free s live ptr s')
  then obtain bs where bs: "heap_ok p s bs" "live_blocks live bs" "first_addr bs 0 = base"
    "last_addr 0 bs = base + 20464" by blast
  from live_extent [OF bs(2) free(2)] obtain b where u: "(ptr - DM_OVERHEAD, b) \<in> set (used_blocks bs)" .
  from OSMFree_ok [OF bs(1) u] free(3) bs(3,4) live_free [OF bs(1,2) u] show ?case by auto
qed

text \<open>Without blocks in use the pool is one free block again.\<close>

lemma no_used_fresh:
  assumes lay: "layout m bs" and u: "used_blocks bs = []" and two: "first_addr bs 0 \<noteq> last_addr 0 bs"
  shows "bs = [(first_addr bs 0, True), (last_addr 0 bs, False)]"
proof -
  obtain a f b g bs' where bs: "bs = (a, f) # (b, g) # bs'"
    using lay two by (cases bs rule: used_blocks.cases) (auto simp: layout_def)
  with u have f: "f" by (auto split: if_splits)
  with lay bs have g: "\<not> g" by (auto simp: layout_def gap_def)
  with u bs f have "bs' = []" by (cases bs') auto
  with bs f g show ?thesis by simp
qed

section \<open>Releasing what was just allocated\<close>

lemma release_carve:
  assumes lay: "layout m (xs @ (a, True) # (b, g) # ys)"
  shows "\<exists>e k zs. xs @ carve m sz a b @ (b, g) # ys = xs @ (a, False) # (e, k) # zs \<and>
    release xs a e k zs = xs @ (a, True) # (b, g) # ys"
proof -
  have "\<not> merges_left xs" and "\<not> g"
    using lay by (auto simp: merges_left_def layout_def successively_append_iff gap_def)
  then show ?thesis by (auto simp: carve_def release_def release_left_def)
qed

lemma malloc_free:
  assumes ok: "heap_ok p s bs" and n: "unat n + 3 < 2 ^ 32" and m: "OSMMalloc p n s = Inr (ptr, s')" "ptr \<noteq> 0"
  shows "\<exists>s''. OSMFree ptr s' = Inr s'' \<and> heap_ok p s'' bs \<and> dm_bytes s'' = dm_bytes s"
proof -
  from ok obtain P where P: "pools s p = Some P" and lay: "layout (unat (dm_min_allocation P)) bs"
    by (rule heap_okE)
  let ?m = "dm_min_allocation P" let ?sz = "adjust_size ?m n"
  have "has_room (served_size (unat ?m) (unat n)) bs"
    using OSMMalloc_full [OF ok P n] m by auto
  from OS_GetMem_ok [OF ok P n this] m obtain xs a b g ys where
    bs: "bs = xs @ (a, True) # (b, g) # ys" and ptr: "ptr = a + DM_OVERHEAD" and bt: "dm_bytes s' = dm_bytes s"
    and ok': "heap_ok p s' (xs @ carve (unat ?m) ?sz a b @ (b, g) # ys)"
    by (auto simp: OSMMalloc_def OS_ERR_NONE_def)
  from release_carve [OF lay [unfolded bs], of ?sz] obtain e k zs where
    c: "xs @ carve (unat ?m) ?sz a b @ (b, g) # ys = xs @ (a, False) # (e, k) # zs"
    and r: "release xs a e k zs = bs" by (auto simp: bs)
  from OS_FreeMem_ok [OF ok' [unfolded c]] r bt ptr show ?thesis by (auto simp: OSMFree_def)
qed

section \<open>The heap as the allocator of the EDP buffers\<close>

definition pool_malloc :: "u32 \<Rightarrow> dm_state \<Rightarrow> mallocator" where
  "pool_malloc p s n =
     (case OSMMalloc p n s of
        Inl _ \<Rightarrow> None
      | Inr (ptr, s') \<Rightarrow>
          if ptr = 0 then None
          else Some (map (\<lambda>i. dm_bytes s' (ptr + word_of_nat i)) [0..<unat n]))"

lemma has_room_mono: "has_room n bs \<Longrightarrow> m \<le> n \<Longrightarrow> has_room m bs"
  unfolding has_room_def by (elim exE conjE) (intro exI conjI, assumption, linarith)

lemma heap_byte_malloc:
  assumes ok: "heap_ok p s bs" and P: "pools s p = Some P" and room: "has_room limit bs"
    and lim: "4 dvd limit" "unat (dm_min_allocation P) \<le> limit" "1500 \<le> limit" "limit < 2 ^ 31"
  shows "byte_malloc (pool_malloc p s) limit"
proof
  show "length d = unat n" if "pool_malloc p s n = Some d" for n d
    using that by (auto simp: pool_malloc_def split: sum.splits prod.splits if_splits)
  show "\<exists>d. pool_malloc p s n = Some d" if n: "unat n \<le> limit" for n
  proof -
    have "(unat n + 3) div 4 * 4 \<le> limit"
      using n lim(1) by (auto simp: dvd_def)
    then have "has_room (served_size (unat (dm_min_allocation P)) (unat n)) bs"
      using lim(2) by (intro has_room_mono [OF room]) (simp add: served_size_def)
    moreover have "unat n + 3 < 2 ^ 32" using n lim(4) by simp
    ultimately show ?thesis using OSMMalloc_ok [OF ok P] by (fastforce simp: pool_malloc_def)
  qed
qed (use lim in auto)

text \<open>The heap right after start-up, with the pool at the bottom of the SRAM region.\<close>

definition start_heap :: dm_state where
  "start_heap = \<lparr>pools = Map.empty, headers = Map.empty, dm_bytes = (\<lambda>_. 0), DMD_Total_Pools = 0\<rparr>"

definition SRAM_BASE :: u32 where "SRAM_BASE = 0x20000000"
definition PCB_ADDR :: u32 where "PCB_ADDR = 0x20010000"

definition fresh_heap :: dm_state where
  "fresh_heap = (case OS_DMemInit PCB_ADDR SRAM_BASE start_heap of Inr s \<Rightarrow> s | Inl _ \<Rightarrow> start_heap)"

lemma SRAM_placed: "pool_placed SRAM_BASE"
  by (simp add: pool_placed_def SRAM_BASE_def)

lemma fresh_heap_init: "OS_DMemInit PCB_ADDR SRAM_BASE start_heap = Inr fresh_heap"
  using OS_DMemInit_ok [OF SRAM_placed, of PCB_ADDR start_heap] by (auto simp: fresh_heap_def)

lemma fresh_heap_ok: "heap_ok PCB_ADDR fresh_heap (fresh_blocks SRAM_BASE)"
  using OS_DMemInit_ok [OF SRAM_placed, of PCB_ADDR start_heap] fresh_heap_init by auto

interpretation fresh: byte_malloc "pool_malloc PCB_ADDR fresh_heap" 20448
proof -
  obtain P where P: "pools fresh_heap PCB_ADDR = Some P" by (rule heap_okE [OF fresh_heap_ok])
  moreover have "dm_min_allocation P = 16"
    using OS_DMemInit_ok [OF SRAM_placed, of PCB_ADDR start_heap] fresh_heap_init P by auto
  moreover have "has_room 20448 (fresh_blocks SRAM_BASE)"
    unfolding has_room_def fresh_blocks_def
    by (rule exI [of _ "[]"], rule exI [of _ SRAM_BASE], rule exI [of _ "SRAM_BASE + 20464"],
        rule exI [of _ False], rule exI [of _ "[]"]) (simp add: SRAM_BASE_def)
  ultimately show "byte_malloc (pool_malloc PCB_ADDR fresh_heap) 20448"
    using heap_byte_malloc [OF fresh_heap_ok] by simp
qed

section \<open>Requests that wrap\<close>

lemma adjust_size_wraps:
  assumes "2 ^ 32 \<le> unat n + 3" and "unat m < 2 ^ 31"
  shows "adjust_size m n = 0"
proof -
  have "unat (n + 4 - 1) = unat n + 3 - 2 ^ 32"
    using assms(1) unat_u32_less [of n] by (simp add: unat_word_ariths mod_if)
  then have "unat ((n + 4 - 1) div 4) = 0"
    using unat_u32_less [of n] by (simp add: unat_div)
  then have "(n + 4 - 1) div 4 = 0" by (simp only: unat_eq_0)
  moreover have "\<not> n < m" using assms by (simp add: word_less_nat_alt)
  ultimately show ?thesis by (simp add: adjust_size_def)
qed

lemma min_less_pool:
  assumes ok: "heap_ok p s bs" and P: "pools s p = Some P" and two: "1 < length bs"
  shows "unat (dm_min_allocation P) < 2 ^ 31"
proof -
  obtain a f b g ys where bs: "bs = [] @ (a, f) # (b, g) # ys"
    using two by (cases bs rule: used_blocks.cases) auto
  then have "unat a + 16 + unat (dm_min_allocation P) \<le> unat b"
    using ok P by (auto simp: heap_ok_def layout_def gap_def)
  with heap_extent [OF ok P bs] show ?thesis using ok P by (auto simp: heap_ok_def)
qed

lemma OSMMalloc_wrapped:
  assumes ok: "heap_ok p s bs" and P: "pools s p = Some P" and two: "1 < length bs"
    and n: "2 ^ 32 \<le> unat n + 3"
  shows "\<exists>s'. OSMMalloc p n s = Inr (dm_search_ptr P + DM_OVERHEAD, s')"
proof -
  let ?sp = "dm_search_ptr P"
  from ok P obtain xs f ys where bs: "bs = xs @ (?sp, f) # ys"
    and sg: "seg (headers s) p (last_addr 0 bs) bs (first_addr bs 0)"
    by (auto simp: heap_ok_def dest!: split_list)
  note h = seg_lookup [OF sg [unfolded bs], folded bs]
  have sz: "adjust_size (dm_min_allocation P) n = 0"
    using adjust_size_wraps [OF n min_less_pool [OF ok P two]] .
  obtain fuel where fu: "unat (dm_pool_size P) = Suc fuel"
    using heap_fuel [OF ok P] two by (cases "unat (dm_pool_size P)") auto
  have "first_addr ys (first_addr bs 0) \<in> fst ` set bs" by (cases ys; cases xs) (auto simp: bs)
  then obtain h2 where h2: "headers s (first_addr ys (first_addr bs 0)) = Some h2"
    using sg by (force dest!: split_list seg_lookup)
  show ?thesis
    using P sz fu h h2
    by (auto simp: OSMMalloc_def OS_GetMem_def get_pool_def Let_def get_hdr_def split_block_def
        upd_hdr_def set_hdr_def OS_ERR_NONE_def ebind_Inr_iff)
qed

section \<open>Properties\<close>

lemma fresh_run: "heap_run PCB_ADDR SRAM_BASE fresh_heap {}"
  by (rule heap_run.init [OF fresh_heap_init])

lemma fresh_min: "pools fresh_heap PCB_ADDR = Some P \<Longrightarrow> dm_min_allocation P = 16"
  using OS_DMemInit_ok [OF SRAM_placed, of PCB_ADDR start_heap] fresh_heap_init by auto

lemma fresh_malloc:
  assumes "unat n \<le> 20448"
  obtains ptr s' where "OSMMalloc PCB_ADDR n fresh_heap = Inr (ptr, s')" and "ptr \<noteq> 0"
  using fresh.mm_total [OF assms] that by (auto simp: pool_malloc_def split: sum.splits prod.splits if_splits)

text \<open>
  C5: In every state that a sequence of allocations, each of less than \<open>2 ^ 32 - 3\<close> bytes (larger sizes wrap
  when they are rounded, \<open>OSMMalloc_wraps\<close>), and releases reaches from start-up, the pool
  is a well-formed circular list of blocks (linked both ways, aligned, no two adjacent free
  blocks, \<open>dm_available\<close> exact), its blocks in use are those the clients hold, and no two of
  them overlap.
\<close>

theorem heap_run_invariant:
  assumes "pool_placed base" and "heap_run p base s live"
  shows "\<exists>bs. heap_ok p s bs \<and> live_blocks live bs \<and>
    (\<forall>(a, b) \<in> set (used_blocks bs). \<forall>(c, d) \<in> set (used_blocks bs).
       (a, b) = (c, d) \<or> unat b \<le> unat c \<or> unat d \<le> unat a)"
proof -
  obtain bs where "heap_ok p s bs" "live_blocks live bs" using heap_run_ok [OF assms] by blast
  with used_disjoint [of p s bs] show ?thesis by (intro exI [of _ bs]) auto
qed

theorem heap_run_invariant_witness:
  "pool_placed SRAM_BASE \<and> heap_run PCB_ADDR SRAM_BASE fresh_heap {} \<and>
   (\<exists>bs. heap_ok PCB_ADDR fresh_heap bs \<and> live_blocks {} bs)"
  using heap_run_invariant [OF SRAM_placed fresh_run] SRAM_placed fresh_run by blast

text \<open>
  C9: An allocation of \<open>n\<close> bytes, \<open>n\<close> less than \<open>2 ^ 32 - 3\<close>, in such a state returns a non-null, word-aligned pointer to a block of at
  least \<open>n\<close> bytes that was not in use, and leaves every other block in use as it was, if some
  free block can hold the rounded request; otherwise it returns NULL and changes nothing.
\<close>

theorem malloc_correct:
  assumes "heap_ok p s bs" and "pools s p = Some P" and "unat n + 3 < 2 ^ 32"
  shows "if has_room (served_size (unat (dm_min_allocation P)) (unat n)) bs
    then \<exists>ptr s' bs' b. OSMMalloc p n s = Inr (ptr, s') \<and> ptr \<noteq> 0 \<and> heap_ok p s' bs' \<and>
      4 dvd unat ptr \<and> unat ptr + unat n \<le> unat b \<and> (ptr - DM_OVERHEAD, b) \<notin> set (used_blocks bs) \<and>
      set (used_blocks bs') = insert (ptr - DM_OVERHEAD, b) (set (used_blocks bs))
    else OSMMalloc p n s = Inr (0, s)"
  using OSMMalloc_ok [OF assms] OSMMalloc_full [OF assms] by (simp only: split: if_split) blast

theorem malloc_correct_witness:
  "\<exists>ptr s' bs' b. OSMMalloc PCB_ADDR 100 fresh_heap = Inr (ptr, s') \<and> ptr \<noteq> 0 \<and>
     heap_ok PCB_ADDR s' bs' \<and> unat ptr + 100 \<le> unat b \<and>
     set (used_blocks bs') = {(ptr - DM_OVERHEAD, b)}"
proof -
  obtain P where P: "pools fresh_heap PCB_ADDR = Some P" by (rule heap_okE [OF fresh_heap_ok])
  obtain ptr s' where "OSMMalloc PCB_ADDR 100 fresh_heap = Inr (ptr, s')" "ptr \<noteq> 0"
    by (rule fresh_malloc [of 100]) simp_all
  then show ?thesis
    using malloc_correct [OF fresh_heap_ok P, of 100] by (simp add: fresh_blocks_def split: if_splits) blast
qed

text \<open>
  C10: When every pointer has been released, in a run whose requests are below \<open>2 ^ 32 - 3\<close> bytes, the free blocks have merged back: the pool is a
  single free block again and \<open>dm_available\<close> is the initial 20448 bytes.
\<close>

theorem all_freed_coalesced:
  assumes placed: "pool_placed base" and run: "heap_run p base s {}"
  shows "heap_ok p s (fresh_blocks base) \<and> (\<exists>P. pools s p = Some P \<and> dm_available P = 20448)"
proof -
  obtain bs where ok: "heap_ok p s bs" and live: "live_blocks {} bs"
    and ends: "first_addr bs 0 = base" "last_addr 0 bs = base + 20464"
    using heap_run_ok [OF placed run] by blast
  from ok obtain P where P: "pools s p = Some P" and lay: "layout (unat (dm_min_allocation P)) bs"
    and av: "unat (dm_available P) = avail bs" by (rule heap_okE)
  have "used_blocks bs = []" using live by (simp add: live_blocks_def)
  from no_used_fresh [OF lay this] have bs: "bs = fresh_blocks base"
    using ends by (simp add: fresh_blocks_def)
  have "unat (base + 20464) = unat base + 20464"
    using placed by (subst unat_add_no_wrap) (simp_all add: pool_placed_def)
  then have "dm_available P = 20448"
    using av by (simp add: bs fresh_blocks_def word_unat_eq_iff)
  with ok P bs show ?thesis by simp
qed

theorem all_freed_coalesced_witness:
  "\<exists>ptr s' s''. OSMMalloc PCB_ADDR 1500 fresh_heap = Inr (ptr, s') \<and> ptr \<noteq> 0 \<and> OSMFree ptr s' = Inr s'' \<and>
     heap_ok PCB_ADDR s'' (fresh_blocks SRAM_BASE)"
proof -
  obtain ptr s' where m: "OSMMalloc PCB_ADDR 1500 fresh_heap = Inr (ptr, s')" "ptr \<noteq> 0"
    by (rule fresh_malloc [of 1500]) simp_all
  have r1: "heap_run PCB_ADDR SRAM_BASE s' {ptr}"
    using heap_run.malloc [OF fresh_run _ m(1)] m(2) by simp
  obtain s'' where f: "OSMFree ptr s' = Inr s''"
    using malloc_free [OF fresh_heap_ok _ m] by auto
  have "heap_run PCB_ADDR SRAM_BASE s'' {}" using heap_run.free [OF r1 _ f] by simp
  from all_freed_coalesced [OF SRAM_placed this] m f show ?thesis by blast
qed

text \<open>
  Releasing a pointer right after its allocation restores the block list exactly, whatever
  the state of the heap.
\<close>

theorem malloc_free_roundtrip:
  assumes "heap_ok p s bs" and "unat n + 3 < 2 ^ 32" and "OSMMalloc p n s = Inr (ptr, s')" and "ptr \<noteq> 0"
  shows "\<exists>s''. OSMFree ptr s' = Inr s'' \<and> heap_ok p s'' bs"
  using malloc_free [OF assms] by blast

theorem malloc_free_roundtrip_witness:
  "\<exists>ptr s' s''. OSMMalloc PCB_ADDR 64 fresh_heap = Inr (ptr, s') \<and> OSMFree ptr s' = Inr s'' \<and>
     heap_ok PCB_ADDR s'' (fresh_blocks SRAM_BASE)"
proof -
  obtain ptr s' where m: "OSMMalloc PCB_ADDR 64 fresh_heap = Inr (ptr, s')" "ptr \<noteq> 0"
    by (rule fresh_malloc [of 64]) simp_all
  from malloc_free_roundtrip [OF fresh_heap_ok _ m] m show ?thesis by auto
qed

text \<open>
  A request within three bytes of \<open>2 ^ 32\<close> is not refused: the rounded size wraps to 0,
  the block at the search pointer is taken, free or not, and its address is returned.
\<close>

theorem OSMMalloc_wraps:
  assumes "heap_ok p s bs" and "pools s p = Some P" and "1 < length bs" and "2 ^ 32 \<le> unat n + 3"
  shows "\<exists>s'. OSMMalloc p n s = Inr (dm_search_ptr P + DM_OVERHEAD, s')"
  using OSMMalloc_wrapped [OF assms] .

theorem OSMMalloc_wraps_witness:
  "\<exists>P s'. pools fresh_heap PCB_ADDR = Some P \<and>
     OSMMalloc PCB_ADDR 0xFFFFFFFF fresh_heap = Inr (dm_search_ptr P + DM_OVERHEAD, s')"
proof -
  obtain P where P: "pools fresh_heap PCB_ADDR = Some P" by (rule heap_okE [OF fresh_heap_ok])
  from OSMMalloc_wraps [OF fresh_heap_ok P] P show ?thesis
    by (force simp: fresh_blocks_def)
qed

end
