(* ===== verification/EdpProtocol.thy ===== *)
theory EdpProtocol
  imports EdpStream DynMem
begin

text \<open>
  The protocol-level properties of the EDP library: what a builder writes the matching parser
  reads back, the readers stay inside the packet on any input, the stream framing neither
  loses nor invents bytes, and the inputs on which the length arithmetic of the library wraps.
  The allocator is any one that satisfies the contract \<open>byte_malloc\<close>; the witnesses use the
  system heap of DynMem.
\<close>

section \<open>Readers on arbitrary bytes\<close>

text \<open>The read ends normally and leaves a suffix of the unread bytes.\<close>

definition reads_within :: "bytes \<Rightarrow> ('v option \<times> edp_buffer) outcome \<Rightarrow> bool" where
  "reads_within rs m \<longleftrightarrow> (\<exists>r b' k. m = Inr (r, b') \<and> rbuf b' (drop k rs))"

lemma reads_withinI: "m = Inr (r, b') \<Longrightarrow> rbuf b' (drop k rs) \<Longrightarrow> reads_within rs m"
  unfolding reads_within_def by blast

lemma bit_byte_high:
  "\<not> bit (x :: u8) (8 + n)" "\<not> bit (x :: u8) (16 + n)" "\<not> bit (x :: u8) (24 + n)"
  using bit_imp_le_length [of x] by force+

lemma list_be16:
  assumes "2 \<le> length rs"
  obtains v rest where "rs = be16 v @ rest"
proof -
  from assms obtain x y rest where rs: "rs = x # y # rest"
    by (metis One_nat_def Suc_1 Suc_le_length_iff)
  let ?v = "push_bit 8 (ucast x) OR ucast y :: u16"
  have "be16 ?v = [x, y]"
    by (auto simp: be16_def intro!: bit_word_eqI simp: bit_simps bit_byte_high)
  with that [of ?v rest] rs show thesis by simp
qed

lemma list_be32:
  assumes "4 \<le> length rs"
  obtains v rest where "rs = be32 v @ rest"
proof -
  from assms obtain x y z w rest where rs: "rs = x # y # z # w # rest"
    by (auto simp: Suc_le_length_iff numeral_eq_Suc)
  let ?v = "push_bit 24 (ucast x) OR push_bit 16 (ucast y) OR push_bit 8 (ucast z) OR ucast w :: u32"
  have "be32 ?v = [x, y, z, w]"
    by (auto simp: be32_def intro!: bit_word_eqI simp: bit_simps bit_byte_high)
  with that [of ?v rest] rs show thesis by simp
qed

lemma ReadByte_within: "rbuf b rs \<Longrightarrow> reads_within rs (ReadByte b)"
proof (cases rs)
  case (Cons x xs)
  moreover assume "rbuf b rs"
  ultimately show ?thesis
    by (intro reads_withinI [where k = 1]) (auto simp: ReadByte_Cons intro: rbuf_adv1)
qed (auto simp: ReadByte_Nil intro: reads_withinI [where k = 0])

lemma ReadUint16_within:
  assumes b: "rbuf b rs"
  shows "reads_within rs (ReadUint16 b)"
proof (cases "2 \<le> length rs")
  case True
  then obtain v rest where rs: "rs = be16 v @ rest" by (rule list_be16)
  from ReadUint16_ok [of b v rest] rbuf_adv_append [of b "be16 v" rest 2] b rs show ?thesis
    by (intro reads_withinI [where k = 2]) auto
next
  case False
  with b show ?thesis by (intro reads_withinI [where k = 0]) (auto simp: ReadUint16_short)
qed

lemma ReadUint32_within:
  assumes b: "rbuf b rs"
  shows "reads_within rs (ReadUint32 b)"
proof (cases "4 \<le> length rs")
  case True
  then obtain v rest where rs: "rs = be32 v @ rest" by (rule list_be32)
  from ReadUint32_ok [of b v rest] rbuf_adv_append [of b "be32 v" rest 4] b rs show ?thesis
    by (intro reads_withinI [where k = 4]) auto
next
  case False
  with b show ?thesis by (intro reads_withinI [where k = 0]) (auto simp: ReadUint32_short)
qed

lemma ReadBytes_within:
  assumes b: "rbuf b rs" and n: "unat n < 2 ^ 31" and m: "mm n \<noteq> None"
  shows "reads_within rs (ReadBytes mm b n)"
proof (cases "unat n \<le> length rs")
  case True
  then have "ReadBytes mm b n = Inr (Some (take (unat n) rs), adv b n)"
    using ReadBytes_ok [of b "take (unat n) rs" "drop (unat n) rs" n mm] b m by simp
  then show ?thesis using rbuf_adv [OF b True] by (rule reads_withinI)
next
  case False
  with b n show ?thesis by (intro reads_withinI [where k = 0]) (auto simp: ReadBytes_short)
qed

lemma ReadStr_within:
  assumes b: "rbuf b rs" and m: "\<And>k. unat k \<le> 2 ^ 16 \<Longrightarrow> mm k \<noteq> None"
  shows "reads_within rs (ReadStr mm b)"
proof (cases "2 \<le> length rs")
  case True
  then obtain v rest where rs: "rs = be16 v @ rest" by (rule list_be16)
  have v: "unat (ucast v :: u32) = unat v"
    using unat_u16_less [of v] by (simp add: unsigned_ucast_eq take_bit_nat_eq_self)
  have b2: "rbuf (adv b 2) rest" using b rs by (intro rbuf_adv_append [of b "be16 v"]) simp_all
  have g: "read_pos (adv b 2) + ucast v > write_pos (adv b 2) \<longleftrightarrow> length rest < unat v"
    using rbuf_guard [OF b2, of "ucast v"] v unat_u16_less [of v] by simp
  have "unat (ucast v + 1 :: u32) = unat v + 1"
    using v unat_u16_less [of v] by (subst unat_add_no_wrap) simp_all
  then have mv: "mm (ucast v + 1) \<noteq> None" using unat_u16_less [of v] by (intro m) simp
  show ?thesis
  proof (cases "length rest < unat v")
    case True
    with g b2 ReadUint16_ok [of b v rest] b rs show ?thesis
      by (intro reads_withinI [where k = 2]) (auto simp: ReadStr_def)
  next
    case False
    then have "rbuf (adv (adv b 2) (ucast v)) (drop (unat v) rest)"
      using rbuf_adv [OF b2, of "ucast v"] v by simp
    moreover have "load_n (bdata (adv b 2)) (unat (read_pos (adv b 2))) (unat v) = Inr (take (unat v) rest)"
      using False by (intro rbuf_load_n [OF b2]) simp
    ultimately show ?thesis
      using g False mv ReadUint16_ok [of b v rest] b rs
      by (intro reads_withinI [where k = "unat v + 2"]) (auto simp: ReadStr_def)
  qed
next
  case False
  with b show ?thesis
    by (intro reads_withinI [where k = 0]) (auto simp: ReadStr_def ReadUint16_short)
qed

lemma remainlen_loop_within: "rbuf b rs \<Longrightarrow> reads_within rs (remainlen_loop b lv mult len_len)"
proof (induction b lv mult len_len arbitrary: rs rule: remainlen_loop.induct)
  case (1 b lv mult len_len)
  show ?case
  proof (cases rs)
    case Nil
    with "1.prems" show ?thesis
      by (intro reads_withinI [where k = 0]) (auto simp: remainlen_loop.simps [of b] ReadByte_Nil)
  next
    case (Cons x rs')
    with "1.prems" have r: "ReadByte b = Inr (Some x, adv b 1)" and b1: "rbuf (adv b 1) rs'"
      by (auto simp: ReadByte_Cons intro: rbuf_adv1)
    show ?thesis
    proof (cases "\<not> Suc len_len > 4 \<and> x AND 0x80 \<noteq> 0")
      case True
      with "1.IH" [OF r refl refl refl refl _ _ b1] have
        "reads_within rs' (remainlen_loop (adv b 1) (lv + ucast (x AND 0x7f) * mult) (mult * 0x80) (Suc len_len))"
        by simp
      moreover have "remainlen_loop b lv mult len_len =
          remainlen_loop (adv b 1) (lv + ucast (x AND 0x7f) * mult) (mult * 0x80) (Suc len_len)"
        using True r by (simp add: remainlen_loop.simps [of b] Let_def)
      ultimately show ?thesis
        unfolding reads_within_def Cons by (metis drop_Suc_Cons)
    next
      case False
      then have "\<exists>v. remainlen_loop b lv mult len_len = Inr (v, adv b 1)"
        using r by (auto simp: remainlen_loop.simps [of b] Let_def)
      with b1 Cons show ?thesis by (auto intro: reads_withinI [where k = 1])
    qed
  qed
qed

lemma ReadRemainlen_within: "rbuf b rs \<Longrightarrow> reads_within rs (ReadRemainlen b)"
  unfolding ReadRemainlen_def by (rule remainlen_loop_within)

section \<open>Properties\<close>

lemma fits_le: "byte_malloc mm limit \<Longrightarrow> fits limit n \<Longrightarrow> n \<le> limit"
  using byte_malloc.limit_ge [of mm limit] by (auto simp: fits_def)

text \<open>
  A remaining length below \<open>2 ^ 28\<close> written by \<open>WriteRemainlen\<close> is read back by
  \<open>ReadRemainlen\<close>, which consumes exactly the digits written.
\<close>

theorem remainlen_roundtrip:
  assumes "wbuf b" and "contents b = []" and "unat v < 2 ^ 28"
  shows "\<exists>b'. WriteRemainlen v b = Inr (0, b') \<and> length (contents b') \<le> 4 \<and>
    (\<exists>b''. ReadRemainlen b' = Inr (Some v, b'') \<and> read_pos b'' = write_pos b'')"
proof -
  from WriteRemainlen_ok [OF assms(1) _ assms(3)] assms(2) obtain b' where
    b': "WriteRemainlen v b = Inr (0, b')" "wbuf b'" "contents b' = rl_enc (unat v)" by auto
  have r: "rbuf b' (rl_enc (unat v) @ [])" using wbuf_rbuf [OF b'(2)] b'(3) by simp
  have "rbuf (adv b' (word_of_nat (length (rl_enc (unat v))))) []"
    using rbuf_adv_rl_enc [OF r assms(3)] .
  with rbuf_length [OF this] have "read_pos (adv b' (word_of_nat (length (rl_enc (unat v))))) =
      write_pos (adv b' (word_of_nat (length (rl_enc (unat v)))))"
    by (auto simp: rbuf_def word_unat_eq_iff)
  with ReadRemainlen_ok [OF r assms(3)] b' length_rl_enc4 [OF assms(3)] show ?thesis by auto
qed

theorem remainlen_roundtrip_witness:
  "\<exists>b b'. NewBuffer (pool_malloc PCB_ADDR fresh_heap) = Inr b \<and> WriteRemainlen 300 b = Inr (0, b') \<and>
     (\<exists>b''. ReadRemainlen b' = Inr (Some 300, b''))"
proof -
  obtain b where b: "NewBuffer (pool_malloc PCB_ADDR fresh_heap) = Inr b" "wbuf b" "contents b = []"
    using fresh.NewBuffer_ok by blast
  from remainlen_roundtrip [OF b(2,3), of 300] b(1) show ?thesis by auto
qed

text \<open>
  C7: A PUSHDATA packet built for a device id and a block of data is recognised and parsed
  back to the same device id, data and length, with nothing left unread.
\<close>

theorem pushdata_roundtrip:
  assumes mm: "byte_malloc mm limit" and s: "is_cstring devid" "length devid < 2 ^ 16"
    and n: "unat n = length d" "length d < 2 ^ 27" and fit: "fits limit (7 + length devid + length d)"
  shows "\<exists>pkg b'. PacketPushdata mm devid d n = Inr pkg \<and> EdpPacketType pkg = Inr (PUSHDATA, adv pkg 1) \<and>
    UnpackPushdata mm (adv pkg 1) = Inr (Inr (devid, d, n), b') \<and> rbuf b' []"
proof -
  obtain pkg where pkg: "PacketPushdata mm devid d n = Inr pkg" "wbuf pkg"
    "contents pkg = frame PUSHDATA (wire_str devid @ d)"
    using byte_malloc.PacketPushdata_frame [OF mm s(2) n fit] by blast
  have r: "rbuf pkg (frame PUSHDATA (wire_str devid @ d))" using wbuf_rbuf [OF pkg(2)] pkg(3) by simp
  have "length devid < limit" "length d \<le> limit" using fits_le [OF mm fit] by auto
  with byte_malloc.UnpackPushdata_frame [OF mm r s n] EdpPacketType_frame(1) [OF r] pkg(1)
  show ?thesis by blast
qed

theorem pushdata_roundtrip_witness:
  "\<exists>pkg b'. PacketPushdata (pool_malloc PCB_ADDR fresh_heap) [0x31, 0x32] [1, 0, 255] 3 = Inr pkg \<and>
     UnpackPushdata (pool_malloc PCB_ADDR fresh_heap) (adv pkg 1) =
       Inr (Inr ([0x31, 0x32], [1, 0, 255], 3), b')"
  using pushdata_roundtrip [OF fresh.byte_malloc_axioms, of "[0x31, 0x32]" 3 "[1, 0, 255]"]
  by (auto simp: is_cstring_def fits_def)

text \<open>
  A string saved with \<open>PacketSavedataSimpleString\<close>, with or without a destination device,
  is parsed back by \<open>UnpackSavedata\<close> (address and type flag) and
  \<open>UnpackSavedataSimpleString\<close> (the string).
\<close>

theorem savedata_string_roundtrip:
  assumes mm: "byte_malloc mm limit" and s: "is_cstring input" "length input < 2 ^ 16"
    and dst: "\<And>devid. dst = Some devid \<Longrightarrow> is_cstring devid \<and> length devid < 2 ^ 16"
    and fit: "fits limit (8 + length (wire_address dst) + length input)"
  shows "\<exists>pkg b' b''. PacketSavedataSimpleString mm dst input = Inr pkg \<and>
    EdpPacketType pkg = Inr (SAVEDATA, adv pkg 1) \<and>
    UnpackSavedata mm (adv pkg 1) = Inr (Inr (dst, kTypeString), b') \<and>
    UnpackSavedataSimpleString mm b' = Inr (Inr input, b'') \<and> rbuf b'' []"
proof -
  let ?body = "wire_address dst @ kTypeString # wire_str input @ []"
  obtain pkg where pkg: "PacketSavedataSimpleString mm dst input = Inr pkg" "wbuf pkg"
    "contents pkg = frame SAVEDATA ?body"
    using byte_malloc.PacketSavedataSimpleString_frame [OF mm s(2) _ fit] dst by auto
  have r: "rbuf pkg (frame SAVEDATA ?body)" using wbuf_rbuf [OF pkg(2)] pkg(3) by simp
  have le: "length (wire_address dst) + length input + 8 \<le> limit" using fits_le [OF mm fit] by simp
  have dl: "is_cstring devid \<and> length devid < 2 ^ 16 \<and> length devid < limit" if "dst = Some devid" for devid
    using dst [OF that] le that by (auto simp: wire_address_def)
  have "length ?body < 2 ^ 28"
    using s dst by (cases dst) (auto simp: wire_address_def)
  from byte_malloc.UnpackSavedata_frame [OF mm r dl this] obtain b' where
    b': "UnpackSavedata mm (adv pkg 1) = Inr (Inr (dst, kTypeString), b')" "rbuf b' (wire_str input @ [])" by blast
  from byte_malloc.UnpackSavedataSimpleString_wire [OF mm b'(2) s] le
  show ?thesis using EdpPacketType_frame(1) [OF r] pkg(1) b'(1) by auto
qed

theorem savedata_string_roundtrip_witness:
  "\<exists>pkg b' b''. PacketSavedataSimpleString (pool_malloc PCB_ADDR fresh_heap) (Some [0x37]) [0x61, 0x62] = Inr pkg \<and>
     UnpackSavedata (pool_malloc PCB_ADDR fresh_heap) (adv pkg 1) = Inr (Inr (Some [0x37], kTypeString), b') \<and>
     UnpackSavedataSimpleString (pool_malloc PCB_ADDR fresh_heap) b' = Inr (Inr [0x61, 0x62], b'')"
  using savedata_string_roundtrip [OF fresh.byte_malloc_axioms, of "[0x61, 0x62]" "Some [0x37]"]
  by (auto simp: is_cstring_def fits_def wire_address_def)

text \<open>
  C8: Binary data saved with \<open>PacketSavedataBinStr\<close> (a description shorter than \<open>2 ^ 16\<close>, at
  most 3 MB of data) is parsed back with its description and length.
\<close>

theorem savedata_bin_roundtrip:
  assumes mm: "byte_malloc mm limit" and s: "is_cstring desc" "length desc < 2 ^ 16"
    and n: "unat n = length bin" "length bin \<le> 3 * 2 ^ 20"
    and dst: "\<And>devid. dst = Some devid \<Longrightarrow> is_cstring devid \<and> length devid < 2 ^ 16"
    and fit: "fits limit (12 + length (wire_address dst) + length desc + length bin)"
  shows "\<exists>pkg b' b''. PacketSavedataBinStr mm dst desc bin n = Inr (Some pkg) \<and>
    UnpackSavedata mm (adv pkg 1) = Inr (Inr (dst, kTypeBin), b') \<and>
    UnpackSavedataBinStr mm b' = Inr (Inr (desc, bin, n), b'') \<and> rbuf b'' []"
proof -
  let ?body = "wire_address dst @ kTypeBin # wire_str desc @ be32 n @ bin"
  obtain pkg where pkg: "PacketSavedataBinStr mm dst desc bin n = Inr (Some pkg)" "wbuf pkg"
    "contents pkg = frame SAVEDATA ?body"
    using byte_malloc.PacketSavedataBinStr_frame [OF mm s(2) n _ fit] dst by auto
  have r: "rbuf pkg (frame SAVEDATA ?body)" using wbuf_rbuf [OF pkg(2)] pkg(3) by simp
  have le: "12 + length (wire_address dst) + length desc + length bin \<le> limit" using fits_le [OF mm fit] by simp
  have dl: "is_cstring devid \<and> length devid < 2 ^ 16 \<and> length devid < limit" if "dst = Some devid" for devid
    using dst [OF that] le that by (auto simp: wire_address_def)
  have "length ?body < 2 ^ 28"
    using s n dst by (cases dst) (auto simp: wire_address_def)
  from byte_malloc.UnpackSavedata_frame [OF mm r dl this] obtain b' where
    b': "UnpackSavedata mm (adv pkg 1) = Inr (Inr (dst, kTypeBin), b')" "rbuf b' (wire_str desc @ be32 n @ bin)" by blast
  from byte_malloc.UnpackSavedataBinStr_wire [OF mm b'(2) s _ n(1)] le
  show ?thesis using pkg(1) b'(1) by auto
qed

theorem savedata_bin_roundtrip_witness:
  "\<exists>pkg b' b''. PacketSavedataBinStr (pool_malloc PCB_ADDR fresh_heap) None [0x6a] [7, 8] 2 = Inr (Some pkg) \<and>
     UnpackSavedata (pool_malloc PCB_ADDR fresh_heap) (adv pkg 1) = Inr (Inr (None, kTypeBin), b') \<and>
     UnpackSavedataBinStr (pool_malloc PCB_ADDR fresh_heap) b' = Inr (Inr ([0x6a], [7, 8], 2), b'')"
  using savedata_bin_roundtrip [OF fresh.byte_malloc_axioms, of "[0x6a]" 2 "[7, 8]" None]
  by (auto simp: is_cstring_def fits_def wire_address_def)

text \<open>A receive buffer of the agent that holds the given bytes.\<close>

definition recv_buffer :: "bytes \<Rightarrow> edp_buffer" where
  "recv_buffer bs = \<lparr>bdata = bs, write_pos = word_of_nat (length bs), read_pos = 0,
     capacity = word_of_nat (length bs)\<rparr>"

lemma recv_buffer_stream: "length bs < 2 ^ 16 \<Longrightarrow> stream (recv_buffer bs) bs"
  by (simp add: stream_def recv_buffer_def contents_def unat_of_nat_no_wrap)

lemma recv_buffer_rbuf: "length bs < 2 ^ 16 \<Longrightarrow> rbuf (recv_buffer bs) bs"
  by (simp add: rbuf_def recv_buffer_def contents_def unat_of_nat_no_wrap)

text \<open>
  C1: When a complete frame is at the head of the receive stream, \<open>GetEdpPacket\<close> delivers
  exactly that frame and leaves exactly the bytes behind it.
\<close>

theorem GetEdpPacket_exact:
  assumes "byte_malloc mm limit" and "stream b (frame t body @ rest)" and "fits limit (length (frame t body))"
  shows "\<exists>pkg b'. GetEdpPacket mm b = Inr (Some pkg, b') \<and> contents pkg = frame t body \<and> stream b' rest"
  using byte_malloc.GetEdpPacket_frame [OF assms] by blast

theorem GetEdpPacket_exact_witness:
  "\<exists>pkg b'. GetEdpPacket (pool_malloc PCB_ADDR fresh_heap) (recv_buffer (frame PINGRESP [] @ [0x30])) =
     Inr (Some pkg, b') \<and> contents pkg = frame PINGRESP [] \<and> stream b' [0x30]"
  by (rule GetEdpPacket_exact [OF fresh.byte_malloc_axioms recv_buffer_stream])
    (simp_all add: frame_def rl_enc.simps [of 0] fits_def)

text \<open>
  A frame that has arrived only in part is left in the stream: \<open>GetEdpPacket\<close> returns no
  packet and does not change the buffer, wherever the frame was cut.
\<close>

theorem GetEdpPacket_incomplete:
  assumes "stream b bs" and "frame t body = bs @ missing" and "missing \<noteq> []" and "length body < 2 ^ 28"
  shows "GetEdpPacket mm b = Inr (None, b)"
  using GetEdpPacket_none [OF assms(1) IsPkgComplete_partial [OF assms]] by simp

theorem GetEdpPacket_incomplete_witness:
  "GetEdpPacket (pool_malloc PCB_ADDR fresh_heap) (recv_buffer [0x20, 2, 0]) = Inr (None, recv_buffer [0x20, 2, 0])"
  by (rule GetEdpPacket_incomplete [where t = "0x20" and body = "[0, 0]" and missing = "[0]", OF recv_buffer_stream])
    (simp_all add: frame_def rl_enc.simps)

text \<open>
  C18: Whatever bytes the peer sends, \<open>GetEdpPacket\<close> neither faults nor loses or invents a byte:
  the packet it delivers followed by the bytes left in the stream are the bytes received, and
  a delivered packet has at least two bytes, so that repeated calls make progress.
\<close>

theorem GetEdpPacket_conserves:
  assumes "byte_malloc mm limit" and "stream b bs" and "fits limit (length bs)"
  shows "\<exists>r b' bs'. GetEdpPacket mm b = Inr (r, b') \<and> stream b' bs' \<and>
    (case r of None \<Rightarrow> bs' = bs | Some pkg \<Rightarrow> 2 \<le> length (contents pkg) \<and> contents pkg @ bs' = bs)"
  using byte_malloc.GetEdpPacket_safe [OF assms] by (fastforce split: option.splits)

theorem GetEdpPacket_conserves_witness:
  "\<exists>r b' bs'. GetEdpPacket (pool_malloc PCB_ADDR fresh_heap) (recv_buffer [0xFF, 0xFF, 0xFF, 0xFF, 0xFF, 0xFF]) =
     Inr (r, b') \<and> stream b' bs'"
  using GetEdpPacket_conserves [OF fresh.byte_malloc_axioms recv_buffer_stream,
    of "[0xFF, 0xFF, 0xFF, 0xFF, 0xFF, 0xFF]"] by (auto simp: fits_def)

text \<open>
  The fixed-size readers, the string reader and the length reader stay inside the received
  bytes whatever these are: each returns, and what remains unread is a suffix.
\<close>

theorem readers_memory_safe:
  assumes "rbuf b rs" and "\<And>k. unat k \<le> 2 ^ 16 \<Longrightarrow> mm k \<noteq> None"
  shows "reads_within rs (ReadByte b) \<and> reads_within rs (ReadUint16 b) \<and> reads_within rs (ReadUint32 b) \<and>
    reads_within rs (ReadRemainlen b) \<and> reads_within rs (ReadStr mm b)"
  using assms ReadByte_within ReadUint16_within ReadUint32_within ReadRemainlen_within ReadStr_within by blast

theorem readers_memory_safe_witness:
  "reads_within [0xFF, 0xFF, 0x41] (ReadStr (\<lambda>n. Some (replicate (unat n) 0)) (recv_buffer [0xFF, 0xFF, 0x41]))"
  using readers_memory_safe [OF recv_buffer_rbuf, of "[0xFF, 0xFF, 0x41]" "\<lambda>n. Some (replicate (unat n) 0)"] by simp

lemma ReadBytes_wrapped:
  assumes b: "rbuf b []" and pos: "0 < read_pos b"
  shows "ReadBytes mm b 0xFFFFFFFF = Inl NullPointer \<or> ReadBytes mm b 0xFFFFFFFF = Inl OutOfBounds"
proof -
  have eq: "read_pos b + 0xFFFFFFFF = read_pos b - 1" by simp
  have "unat (read_pos b - 1) < unat (read_pos b)"
    using pos by (subst unat_sub_no_wrap) (simp_all add: word_less_nat_alt)
  moreover have "unat (read_pos b) = unat (write_pos b)" using rbuf_length [OF b] b by (auto simp: rbuf_def)
  ultimately have g: "\<not> read_pos b + 0xFFFFFFFF > write_pos b" unfolding eq by (simp add: word_less_nat_alt)
  have "load_n (bdata b) (unat (read_pos b)) (unat (0xFFFFFFFF :: u32)) = Inl OutOfBounds"
    using b by (simp add: load_n_def rbuf_def)
  with g show ?thesis by (cases "mm 0xFFFFFFFF") (simp_all add: ReadBytes_def)
qed

lemma UnpackCmdReq_wrapped:
  assumes b: "rbuf b (frame CMDREQ (be16 0 @ be32 0xFFFFFFFF))" and z: "read_pos b = 0"
  shows "UnpackCmdReq mm (adv b 1) = Inl NullPointer \<or> UnpackCmdReq mm (adv b 1) = Inl OutOfBounds"
proof -
  let ?body = "be16 0 @ be32 0xFFFFFFFF :: bytes"
  have b1: "rbuf (adv b 1) (rl_enc (length ?body) @ ?body)" using EdpPacketType_frame(2) [OF b] .
  let ?b2 = "adv (adv b 1) (word_of_nat (length (rl_enc (length ?body))))"
  have b2: "rbuf ?b2 (be16 0 @ be32 0xFFFFFFFF)" using rbuf_adv_rl_enc [OF b1] by simp
  have b3: "rbuf (adv ?b2 2) ([] @ be32 0xFFFFFFFF @ [])" using b2 by (intro rbuf_adv_append [of ?b2 "be16 0"]) simp_all
  let ?b4 = "adv (adv ?b2 2) 0"
  have b4: "rbuf ?b4 (be32 0xFFFFFFFF @ [])" using b3 by simp
  let ?b5 = "adv ?b4 4"
  have b5: "rbuf ?b5 []" using b4 by (rule rbuf_adv_append) simp
  have p: "0 < read_pos ?b5" using z by (simp add: rl_enc.simps)
  show ?thesis
    using ReadBytes_wrapped [OF b5 p, of mm] ReadRemainlen_ok [OF b1] ReadUint16_ok [OF b2]
      ReadBytes_ok [OF b3, of 0 mm] ReadUint32_ok [OF b4]
    unfolding UnpackCmdReq_def by (auto simp: read_or_def)
qed

text \<open>
  The bounds check of \<open>ReadBytes\<close> wraps: a command request whose length field is
  \<open>0xFFFFFFFF\<close> passes it, and the parser copies 4 GB from the packet (or into NULL).  No
  allocator saves the call.
\<close>

theorem UnpackCmdReq_overflow:
  assumes "rbuf b (frame CMDREQ (be16 0 @ be32 0xFFFFFFFF))" and "read_pos b = 0"
  shows "UnpackCmdReq mm (adv b 1) = Inl NullPointer \<or> UnpackCmdReq mm (adv b 1) = Inl OutOfBounds"
  using UnpackCmdReq_wrapped [OF assms] .

theorem UnpackCmdReq_overflow_witness:
  "UnpackCmdReq (pool_malloc PCB_ADDR fresh_heap)
     (adv (recv_buffer [0xA0, 6, 0, 0, 0xFF, 0xFF, 0xFF, 0xFF]) 1) \<in> {Inl NullPointer, Inl OutOfBounds}"
proof -
  have f: "frame CMDREQ (be16 0 @ be32 0xFFFFFFFF) = [0xA0, 6, 0, 0, 0xFF, 0xFF, 0xFF, 0xFF]"
    by (simp add: frame_def rl_enc.simps CMDREQ_def be16_def be32_def)
  have "rbuf (recv_buffer [0xA0, 6, 0, 0, 0xFF, 0xFF, 0xFF, 0xFF]) (frame CMDREQ (be16 0 @ be32 0xFFFFFFFF))"
    unfolding f by (rule recv_buffer_rbuf) simp
  from UnpackCmdReq_overflow [OF this] show ?thesis by (simp add: recv_buffer_def)
qed

text \<open>
  A CMDREQ packet is parsed to its command id and argument, and the CMDRESP packet built
  for an answer is the frame the protocol prescribes, with the length fields of the answer.
\<close>

theorem command_exchange:
  assumes mm: "byte_malloc mm limit" and b: "rbuf b (frame CMDREQ (be16 cn @ cmdid @ be32 rn @ req))"
    and n: "unat cn = length cmdid" "unat rn = length req" "length req < 2 ^ 27" "length cmdid \<le> limit" "length req \<le> limit"
    and resp: "unat an = length resp" "resp \<noteq> []" "length resp < 2 ^ 27" "fits limit (11 + length cmdid + length resp)"
  shows "\<exists>b' pkg. UnpackCmdReq mm (adv b 1) = Inr (Inr (cmdid, cn, req, rn), b') \<and>
    PacketCmdResp mm cmdid cn resp an = Inr pkg \<and>
    contents pkg = frame CMDRESP (be16 cn @ cmdid @ be32 an @ resp)"
  using byte_malloc.UnpackCmdReq_frame [OF mm b n] byte_malloc.PacketCmdResp_frame [OF mm n(1) resp(1,3,4)] resp(2)
  by auto

theorem command_exchange_witness:
  "\<exists>b' pkg. UnpackCmdReq (pool_malloc PCB_ADDR fresh_heap) (adv (recv_buffer [0xA0, 8, 0, 1, 0x61, 0, 0, 0, 1, 0x62]) 1) =
     Inr (Inr ([0x61], 1, [0x62], 1), b') \<and>
   PacketCmdResp (pool_malloc PCB_ADDR fresh_heap) [0x61] 1 [0x6f, 0x6b] 2 = Inr pkg \<and>
   contents pkg = frame CMDRESP (be16 1 @ [0x61] @ be32 2 @ [0x6f, 0x6b])"
proof (rule command_exchange [OF fresh.byte_malloc_axioms])
  have f: "frame CMDREQ (be16 1 @ [0x61] @ be32 1 @ [0x62]) = [0xA0, 8, 0, 1, 0x61, 0, 0, 0, 1, 0x62]"
    by (simp add: frame_def rl_enc.simps CMDREQ_def be16_def be32_def)
  show "rbuf (recv_buffer [0xA0, 8, 0, 1, 0x61, 0, 0, 0, 1, 0x62]) (frame CMDREQ (be16 1 @ [0x61] @ be32 1 @ [0x62]))"
    unfolding f by (rule recv_buffer_rbuf) simp
qed (simp_all add: fits_def)

lemma WriteStr_65536:
  assumes mm: "byte_malloc mm limit" and len: "length desc = 65536"
  shows "appends limit (WriteStr mm desc) (be16 0)"
proof -
  have z: "(word_of_nat (length desc) :: u16) = 0" by (simp add: len)
  have "appends limit (or_else (WriteUint16 mm 0) (WriteBytes mm desc 0)) (be16 0 @ take (unat (0::u32)) desc)"
    by (intro appends_or_else byte_malloc.appends_WriteUint16 [OF mm] byte_malloc.appends_WriteBytes [OF mm]) simp
  then have "appends limit (WriteStr mm desc) (be16 0 @ take (unat (0::u32)) desc)"
    by (rule appends_assert) (simp add: WriteStr_def z Let_def)
  then show ?thesis by simp
qed

lemma SavedataBinStr_65536:
  assumes mm: "byte_malloc mm limit" and len: "length desc = 65536" "unat n = length bin" "length bin \<le> 1000"
  shows "\<exists>pkg. PacketSavedataBinStr mm None desc bin n = Inr (Some pkg) \<and>
    contents pkg = SAVEDATA # rl_enc (8 + 65536 + length bin) @ [0x00, kTypeBin] @ be16 0 @ be32 n @ bin"
proof -
  let ?dl = "word_of_nat (length desc) :: u32" let ?v = "1 + (1 + (2 + ?dl) + (4 + n)) :: u32"
  have un: "unat ?v = 8 + 65536 + length bin" using len by (simp add: unat_word_ariths)
  have ok: "\<not> (?dl > push_bit 16 0x01 \<or> n > 3 * push_bit 20 0x01)"
    using len by (auto simp: word_less_nat_alt push_bit_eq_mult)
  let ?ws = "[WriteByte mm 0x00, WriteByte mm 0x02, WriteStr mm desc, WriteUint32 mm n, WriteBytes mm bin n]"
  have ws: "list_all2 (appends limit) ?ws [[0x00], [kTypeBin], be16 0, be32 n, bin]"
    using WriteStr_65536 [OF mm len(1)] byte_malloc.appends_writers [OF mm] len(2) by (simp add: kTypeBin_def)
  obtain pkg where pkg: "ebind (NewBuffer mm) (run_writes (WriteByte mm SAVEDATA # WriteRemainlen ?v # ?ws)) = Inr pkg"
    "contents pkg = SAVEDATA # rl_enc (unat ?v) @ concat [[0x00], [kTypeBin], be16 0, be32 n, bin]"
    using byte_malloc.build_packet [OF mm refl ws, of ?v SAVEDATA] un len by (auto simp: fits_def)
  then show ?thesis
    using ok un by (auto simp: PacketSavedataBinStr_def savedata_address_def Let_def ebind_Inr_iff simp del: run_writes.simps)
qed

text \<open>
  The length check of \<open>PacketSavedataBinStr\<close> is off by one: a description of 65536 bytes
  passes it, its length is truncated to 0 on the wire and no byte of it is written, while the
  remaining length counts it.  The packet announces 65536 bytes it does not have.
\<close>

theorem SavedataBinStr_length_off_by_one:
  assumes "byte_malloc mm limit" and "length desc = 65536" and "unat n = length bin" and "length bin \<le> 1000"
  shows "\<exists>pkg. PacketSavedataBinStr mm None desc bin n = Inr (Some pkg) \<and>
    contents pkg = SAVEDATA # rl_enc (8 + 65536 + length bin) @ [0x00, kTypeBin] @ be16 0 @ be32 n @ bin"
  using SavedataBinStr_65536 [OF assms] .

theorem SavedataBinStr_length_off_by_one_witness:
  "\<exists>pkg. PacketSavedataBinStr (pool_malloc PCB_ADDR fresh_heap) None (concat (replicate 256 (replicate 256 0x61))) [9] 1 =
     Inr (Some pkg) \<and>
   contents pkg = SAVEDATA # rl_enc (8 + 65536 + length [9 :: u8]) @ [0x00, kTypeBin] @ be16 0 @ be32 1 @ [9]"
proof (rule SavedataBinStr_length_off_by_one [OF fresh.byte_malloc_axioms])
  show "length (concat (replicate 256 (replicate 256 (0x61 :: u8)))) = 65536"
    by (simp only: length_concat map_replicate length_replicate sum_list_replicate) simp
qed simp_all

end
