(* ===== verification/CString.thy ===== *)
theory CString
  imports Prelude
begin

text \<open>
  The string functions the firmware brings along: those of \<open>Sys/util.c\<close> that replace the C
  library, and \<open>App/NuAgent/Lib/str_lib.c\<close>.  A pointer is a block of memory that starts where it
  points, and a position in it; source and destination are different blocks.  Every access is
  checked, so that a string without a terminator or a destination that is too short is a fault.
  \<open>char\<close> is unsigned on this target.
\<close>

section \<open>Copying (\<open>util.c\<close>)\<close>

function strcpy_loop :: "bytes \<Rightarrow> bytes \<Rightarrow> nat \<Rightarrow> nat \<Rightarrow> bytes outcome" where
  "strcpy_loop dest src d s =
     ebind (load src s) (\<lambda>c.
     ebind (store dest d c) (\<lambda>dest.
     if c \<noteq> 0 then strcpy_loop dest src (d + 1) (s + 1) else Inr dest))"
  by pat_completeness auto
termination
  by (relation "measure (\<lambda>(dest, src, d, s). length src - s)") (auto simp: load_def split: if_splits)

definition strcpy :: "bytes \<Rightarrow> bytes \<Rightarrow> bytes outcome" where
  "strcpy dest src = strcpy_loop dest src 0 0"

definition strlen_at :: "bytes \<Rightarrow> nat \<Rightarrow> nat outcome" where
  "strlen_at m i =
     (let n = length (takeWhile (\<lambda>c. c \<noteq> 0) (drop i m)) in
      if i + n < length m then Inr n else Inl OutOfBounds)"

text \<open>The first loop of \<open>strcat\<close> stops at the end of the string in \<open>dest\<close>.\<close>

definition strcat :: "bytes \<Rightarrow> bytes \<Rightarrow> bytes outcome" where
  "strcat dest src = ebind (strlen_at dest 0) (\<lambda>e. strcpy_loop dest src e 0)"

text \<open>
  \<open>strncpy\<close> copies four characters per iteration while \<open>n >> 2\<close> lasts.  \<open>copy_chars k\<close> is \<open>k\<close> of
  the unrolled copies; it tells whether a NUL stopped it.
\<close>

fun copy_chars :: "nat \<Rightarrow> bytes \<Rightarrow> bytes \<Rightarrow> nat \<Rightarrow> (bool \<times> bytes \<times> nat) outcome" where
  "copy_chars 0 dest src i = Inr (False, dest, i)"
| "copy_chars (Suc k) dest src i =
     ebind (load src i) (\<lambda>c.
     ebind (store dest i c) (\<lambda>dest.
     if c = 0 then Inr (True, dest, i + 1) else copy_chars k dest src (i + 1)))"

fun copy_quads :: "nat \<Rightarrow> bytes \<Rightarrow> bytes \<Rightarrow> nat \<Rightarrow> (bool \<times> bytes \<times> nat) outcome" where
  "copy_quads 0 dest src i = Inr (False, dest, i)"
| "copy_quads (Suc n4) dest src i =
     ebind (copy_chars 4 dest src i) (\<lambda>(stop, dest, i).
     if stop then Inr (True, dest, i) else copy_quads n4 dest src i)"

text \<open>\<open>do *++s1 = 0; while (--n > 0);\<close>\<close>

function zero_fill :: "bytes \<Rightarrow> nat \<Rightarrow> u32 \<Rightarrow> bytes outcome" where
  "zero_fill dest i n =
     ebind (store dest i 0) (\<lambda>dest. if n - 1 > 0 then zero_fill dest (i + 1) (n - 1) else Inr dest)"
  by pat_completeness auto
termination
  by (relation "measure (\<lambda>(dest, i, n). length dest - i)") (auto simp: store_def split: if_splits)

function last_chars :: "bytes \<Rightarrow> bytes \<Rightarrow> nat \<Rightarrow> u32 \<Rightarrow> bytes outcome" where
  "last_chars dest src i n =
     ebind (load src i) (\<lambda>c.
     ebind (store dest i c) (\<lambda>dest.
     if n - 1 = 0 then Inr dest
     else if c \<noteq> 0 then last_chars dest src (i + 1) (n - 1) else zero_fill dest (i + 1) (n - 1)))"
  by pat_completeness auto
termination
  by (relation "measure (\<lambda>(dest, src, i, n). length src - i)") (auto simp: load_def split: if_splits)

declare strcpy_loop.simps [simp del] zero_fill.simps [simp del] last_chars.simps [simp del]

definition strncpy :: "bytes \<Rightarrow> bytes \<Rightarrow> u32 \<Rightarrow> bytes outcome" where
  "strncpy s1 s2 n =
     (let last = (\<lambda>dest i. if n AND 3 = 0 then Inr dest else last_chars dest s2 i (n AND 3)) in
      if n \<ge> 4 then
        ebind (copy_quads (unat (drop_bit 2 n)) s1 s2 0) (\<lambda>(stop, dest, i).
        if \<not> stop then last dest i
        else let n = n - word_of_nat (i - 1) - 1 in
             if n = 0 then Inr dest else zero_fill dest i n)
      else last s1 0)"

section \<open>Scanning (\<open>util.c\<close>)\<close>

text \<open>The inner loops of \<open>strspn\<close> and \<open>strpbrk\<close>: is the character in the second string?\<close>

function in_string :: "u8 \<Rightarrow> bytes \<Rightarrow> nat \<Rightarrow> bool outcome" where
  "in_string c acc a =
     ebind (load acc a) (\<lambda>x. if x = 0 then Inr False else if c = x then Inr True else in_string c acc (a + 1))"
  by pat_completeness auto
termination
  by (relation "measure (\<lambda>(c, acc, a). length acc - a)") (auto simp: load_def split: if_splits)

function strspn_loop :: "bytes \<Rightarrow> bytes \<Rightarrow> nat \<Rightarrow> u32 \<Rightarrow> u32 outcome" where
  "strspn_loop s acc p count =
     ebind (load s p) (\<lambda>c.
     if c = 0 then Inr count
     else ebind (in_string c acc 0) (\<lambda>found.
          if \<not> found then Inr count else strspn_loop s acc (p + 1) (count + 1)))"
  by pat_completeness auto
termination
  by (relation "measure (\<lambda>(s, acc, p, count). length s - p)") (auto simp: load_def split: if_splits)

definition strspn :: "bytes \<Rightarrow> bytes \<Rightarrow> u32 outcome" where
  "strspn s acc = strspn_loop s acc 0 0"

text \<open>Pointers into the argument are returned as positions, \<open>NULL\<close> as \<open>None\<close>.\<close>

function strpbrk :: "bytes \<Rightarrow> bytes \<Rightarrow> nat \<Rightarrow> nat option outcome" where
  "strpbrk s1 s2 s =
     ebind (load s1 s) (\<lambda>c.
     if c = 0 then Inr None
     else ebind (in_string c s2 0) (\<lambda>found. if found then Inr (Some s) else strpbrk s1 s2 (s + 1)))"
  by pat_completeness auto
termination
  by (relation "measure (\<lambda>(s1, s2, s). length s1 - s)") (auto simp: load_def split: if_splits)

declare in_string.simps [simp del] strspn_loop.simps [simp del] strpbrk.simps [simp del]

section \<open>Hexadecimal digits (\<open>util.c\<close>)\<close>

definition BtoH :: "u8 \<Rightarrow> u8" where
  "BtoH ch =
     (if 0x30 \<le> ch \<and> ch \<le> 0x39 then ch - 0x30
      else if 0x41 \<le> ch \<and> ch \<le> 0x46 then ch - 0x41 + 0xA
      else if 0x61 \<le> ch \<and> ch \<le> 0x66 then ch - 0x61 + 0xA
      else 255)"

fun AtoH :: "bytes \<Rightarrow> nat \<Rightarrow> bytes \<Rightarrow> nat \<Rightarrow> nat \<Rightarrow> bytes outcome" where
  "AtoH src s dest d 0 = Inr dest"
| "AtoH src s dest d (Suc destlen) =
     ebind (load src s) (\<lambda>h. ebind (load src (s + 1)) (\<lambda>l.
     ebind (store dest d (push_bit 4 (BtoH h) + BtoH l)) (\<lambda>dest.
     AtoH src (s + 2) dest (d + 1) destlen)))"

section \<open>Comparing and searching (\<open>str_lib.c\<close>)\<close>

function strchr :: "bytes \<Rightarrow> nat \<Rightarrow> u8 \<Rightarrow> nat option outcome" where
  "strchr s i c =
     ebind (load s i) (\<lambda>x.
     if x \<noteq> 0 \<and> x \<noteq> c then strchr s (i + 1) c else Inr (if x = c then Some i else None))"
  by pat_completeness auto
termination
  by (relation "measure (\<lambda>(s, i, c). length s - i)") (auto simp: load_def split: if_splits)

text \<open>\<open>n\<close> is the number of characters left, at least one on entry to the loop.\<close>

fun strncmp_loop :: "bytes \<Rightarrow> bytes \<Rightarrow> nat \<Rightarrow> nat \<Rightarrow> int outcome" where
  "strncmp_loop s1 s2 i 0 = Inr 0"
| "strncmp_loop s1 s2 i (Suc n) =
     ebind (load s1 i) (\<lambda>a. ebind (load s2 i) (\<lambda>b.
     if a \<noteq> b then Inr (if a = 0 then -1 else if b = 0 then 1 else uint a - uint b)
     else if a = 0 then Inr 0
     else strncmp_loop s1 s2 (i + 1) n))"

definition strncmp :: "bytes \<Rightarrow> bytes \<Rightarrow> u32 \<Rightarrow> int outcome" where
  "strncmp s1 s2 n = strncmp_loop s1 s2 0 (unat n)"

definition is_space :: "u8 \<Rightarrow> bool" where
  "is_space c \<longleftrightarrow> c = 0x20 \<or> (9 \<le> c \<and> c \<le> 13)"

definition to_lower :: "u8 \<Rightarrow> u8" where
  "to_lower c = (if 0x41 \<le> c \<and> c \<le> 0x5a then c + 0x20 else c)"

definition to_upper :: "u8 \<Rightarrow> u8" where
  "to_upper c = (if 0x61 \<le> c \<and> c \<le> 0x7a then c - 0x20 else c)"

function skip_spaces :: "bytes \<Rightarrow> nat \<Rightarrow> nat outcome" where
  "skip_spaces src i = ebind (load src i) (\<lambda>c. if is_space c then skip_spaces src (i + 1) else Inr i)"
  by pat_completeness auto
termination
  by (relation "measure (\<lambda>(src, i). length src - i)") (auto simp: load_def split: if_splits)

text \<open>The index is unsigned: below 0 it is \<open>2 ^ 32 - 1\<close>, outside of every block.\<close>

fun strip_end :: "bytes \<Rightarrow> nat \<Rightarrow> bytes outcome" where
  "strip_end dst 0 = ebind (load dst 0) (\<lambda>c.
     if is_space c then ebind (store dst 0 0) (\<lambda>dst. Inl OutOfBounds) else Inr dst)"
| "strip_end dst (Suc i) = ebind (load dst (Suc i)) (\<lambda>c.
     if is_space c then ebind (store dst (Suc i) 0) (\<lambda>dst. strip_end dst i) else Inr dst)"

definition strrmvspace :: "bytes \<Rightarrow> bytes \<Rightarrow> bytes outcome" where
  "strrmvspace dst src =
     ebind (load src 0) (\<lambda>c.
     if c = 0 then store dst 0 0
     else ebind (skip_spaces src 0) (\<lambda>i.
          ebind (strcpy_loop dst src 0 i) (\<lambda>dst.
          ebind (strlen_at dst 0) (\<lambda>n.
          if n = 0 then Inl OutOfBounds else strip_end dst (n - 1)))))"

function strtoupper_loop :: "bytes \<Rightarrow> bytes \<Rightarrow> nat \<Rightarrow> bytes outcome" where
  "strtoupper_loop dst src i =
     ebind (load src i) (\<lambda>c.
     if c \<noteq> 0 then ebind (store dst i (to_upper c)) (\<lambda>dst. strtoupper_loop dst src (i + 1))
     else store dst i 0)"
  by pat_completeness auto
termination
  by (relation "measure (\<lambda>(dst, src, i). length src - i)") (auto simp: load_def split: if_splits)

definition strtoupper :: "bytes \<Rightarrow> bytes \<Rightarrow> bytes outcome" where
  "strtoupper dst src = strtoupper_loop dst src 0"

fun strncmpi_loop :: "bytes \<Rightarrow> bytes \<Rightarrow> nat \<Rightarrow> nat \<Rightarrow> int outcome" where
  "strncmpi_loop s1 s2 i 0 = Inr 0"
| "strncmpi_loop s1 s2 i (Suc n) =
     ebind (load s1 i) (\<lambda>a. ebind (load s2 i) (\<lambda>b.
     let c1 = to_lower a; c2 = to_lower b in
     if c1 = 0 \<or> c2 = 0 \<or> c1 \<noteq> c2 \<or> n = 0 then Inr (uint c1 - uint c2)
     else strncmpi_loop s1 s2 (i + 1) n))"

definition strncmpi :: "bytes \<Rightarrow> bytes \<Rightarrow> u32 \<Rightarrow> int outcome" where
  "strncmpi s1 s2 n = strncmpi_loop s1 s2 0 (unat n)"

declare strchr.simps [simp del] skip_spaces.simps [simp del] strtoupper_loop.simps [simp del]

section \<open>Numbers (\<open>str_lib.c\<close>)\<close>

definition digit_chars :: bytes where
  "digit_chars = map word_of_nat ([48..<58] @ [97..<123])"

text \<open>
  The recursion of \<open>utoa\<close>: the leading digits first, then the last one behind them.  With radix 1
  it does not end.
\<close>

function utoa_rec :: "u32 \<Rightarrow> bytes \<Rightarrow> nat \<Rightarrow> u32 \<Rightarrow> bytes outcome" where
  "utoa_rec val buf p radix =
     (if val < radix then
        ebind (load digit_chars (unat val)) (\<lambda>c.
        ebind (store buf p c) (\<lambda>buf. store buf (p + 1) 0))
      else if radix = 0 \<or> radix = 1 then Inl Diverges
      else ebind (utoa_rec (val div radix) buf p radix) (\<lambda>buf.
           ebind (strlen_at buf p) (\<lambda>n.
           utoa_rec (val mod radix) buf (p + n) radix)))"
  by pat_completeness auto
termination
proof (relation "measure (\<lambda>(val, buf, p, radix). unat val)")
  fix val radix :: u32 and buf buf' :: bytes and p n :: nat
  assume r: "\<not> val < radix" "\<not> (radix = 0 \<or> radix = 1)"
  from r(2) have "unat radix \<noteq> 0" "unat radix \<noteq> 1" by (simp_all add: word_unat_eq_iff)
  then have "1 < unat radix" by linarith
  moreover have "unat radix \<le> unat val" using r(1) by (simp add: word_le_nat_alt not_less)
  moreover from calculation have "unat val mod unat radix < unat val"
    using mod_less_divisor [of "unat radix" "unat val"] by linarith
  ultimately show "((val div radix, buf, p, radix), val, buf, p, radix) \<in> measure (\<lambda>(val, buf, p, radix). unat val)"
    and "((val mod radix, buf', p + n, radix), val, buf, p, radix) \<in> measure (\<lambda>(val, buf, p, radix). unat val)"
    by (simp_all add: unat_div unat_mod)
qed simp

declare utoa_rec.simps [simp del]

definition utoa :: "u32 \<Rightarrow> bytes option \<Rightarrow> u32 \<Rightarrow> bytes option outcome" where
  "utoa val buf radix =
     (case buf of
        None \<Rightarrow> Inr None
      | Some b \<Rightarrow> map_sum id Some (utoa_rec val b 0 (if radix = 0 then 10 else radix)))"

definition itoa :: "u32 \<Rightarrow> bytes option \<Rightarrow> u32 \<Rightarrow> bytes option outcome" where
  "itoa val buf radix =
     (let radix = (if radix = 0 then 10 else radix) in
      case buf of
        None \<Rightarrow> Inr None
      | Some b \<Rightarrow>
          if sint val < 0 then
            ebind (store b 0 0x2d) (\<lambda>b. map_sum id Some (utoa_rec (- val) b 1 radix))
          else map_sum id Some (utoa_rec val b 0 radix))"

function atou_hex_loop :: "bytes \<Rightarrow> nat \<Rightarrow> u32 \<Rightarrow> u32 outcome" where
  "atou_hex_loop s i value =
     ebind (load s i) (\<lambda>c.
     if c = 0 then Inr value
     else if 0x30 \<le> c \<and> c \<le> 0x39 then atou_hex_loop s (i + 1) (value * 16 + ucast (c - 0x30))
     else if 0x41 \<le> c \<and> c \<le> 0x46 then atou_hex_loop s (i + 1) (value * 16 + ucast (c - 0x41 + 10))
     else if 0x61 \<le> c \<and> c \<le> 0x66 then atou_hex_loop s (i + 1) (value * 16 + ucast (c - 0x61 + 10))
     else Inr value)"
  by pat_completeness auto
termination
  by (relation "measure (\<lambda>(s, i, value). length s - i)") (auto simp: load_def split: if_splits)

definition atou_hex :: "bytes option \<Rightarrow> u32 outcome" where
  "atou_hex s = (case s of None \<Rightarrow> Inr 0 | Some s \<Rightarrow> atou_hex_loop s 0 0)"

section \<open>\<open>Search_str\<close> (\<open>str_lib.c\<close>)\<close>

text \<open>
  The inner loop advances both pointers while the characters agree; a difference resets \<open>temp\<close>
  to the start of the pattern.  It returns the two positions and the length counted.
\<close>

function search_inner :: "bytes \<Rightarrow> bytes \<Rightarrow> nat \<Rightarrow> nat \<Rightarrow> int \<Rightarrow> (nat \<times> nat \<times> int) outcome" where
  "search_inner source chars s t len =
     ebind (load chars t) (\<lambda>c.
     if c = 0 then Inr (s, t, len)
     else ebind (load source s) (\<lambda>x.
          if c = x then search_inner source chars (s + 1) (t + 1) (len + 1) else Inr (s, 0, len)))"
  by pat_completeness auto
termination
  by (relation "measure (\<lambda>(source, chars, s, t, len). length source - s)") (auto simp: load_def split: if_splits)

declare search_inner.simps [simp del] atou_hex_loop.simps [simp del]

lemma search_inner_progress:
  "search_inner source chars s t len = Inr (s', t', len') \<Longrightarrow> s \<le> s' \<and> s' \<le> max s (length source)"
proof (induction source chars s t len rule: search_inner.induct)
  case (1 source chars s t len)
  note IH = "1.IH"
  show ?case
  proof (cases "t < length chars \<and> chars ! t \<noteq> 0 \<and> s < length source \<and> chars ! t = source ! s")
    case True
    then have "search_inner source chars (s + 1) (t + 1) (len + 1) = Inr (s', t', len')"
      using "1.prems" by (auto simp: search_inner.simps [of source chars s] load_def)
    from IH [OF _ _ _ _ this] True show ?thesis by (auto simp: load_def)
  next
    case False
    then show ?thesis
      using "1.prems" by (auto simp: search_inner.simps [of source chars s] load_def ebind_Inr_iff split: if_splits)
  qed
qed

text \<open>
  The outer loop.  A first match advances the source, so that the loop ends; where the pattern
  does not start, the source is advanced by one character.
\<close>

function search_outer :: "bytes \<Rightarrow> bytes \<Rightarrow> nat \<Rightarrow> nat \<Rightarrow> int \<Rightarrow> int outcome" where
  "search_outer source chars s t len =
     ebind (load source s) (\<lambda>x.
     if x = 0 then Inr 0
     else ebind (load chars t) (\<lambda>c.
          if x \<noteq> c then search_outer source chars (s + 1) t (len + 1)
          else ebind (search_inner source chars s t len) (\<lambda>(s', t', len').
               ebind (load chars t') (\<lambda>c'.
               if c' = 0 then Inr len' else search_outer source chars s' t' len'))))"
  by pat_completeness auto
termination
proof (relation "measure (\<lambda>(source, chars, s, t, len). length source - s)", goal_cases)
  case (3 source chars s t len x c r s' p t' len')
  then have lt: "s < length source" "t < length chars" "source ! s \<noteq> 0" "chars ! t = source ! s"
    by (auto simp: load_def split: if_splits)
  then have "search_inner source chars (s + 1) (t + 1) (len + 1) = Inr (s', t', len')"
    using 3 by (simp add: search_inner.simps [of source chars s] load_def)
  from search_inner_progress [OF this] lt show ?case by auto
qed (auto simp: load_def split: if_splits)

declare search_outer.simps [simp del]

text \<open>
  The tests against \<open>""\<close> compare addresses of literals and are never true for an argument of the
  caller; \<open>NULL\<close> is returned as the number 0.
\<close>

definition Search_str :: "bytes option \<Rightarrow> bytes option \<Rightarrow> int outcome" where
  "Search_str source chars =
     (case (source, chars) of
        (Some s, Some c) \<Rightarrow> search_outer s c 0 0 0
      | _ \<Rightarrow> Inr 0)"

section \<open>Terminated strings\<close>

lemma takeWhile_nz: "0 \<notin> set xs \<Longrightarrow> takeWhile (\<lambda>c. c \<noteq> 0) (xs @ 0 # ys) = xs"
  by (induction xs) auto

lemma strlen_at_ok: "drop i m = xs @ 0 # ys \<Longrightarrow> 0 \<notin> set xs \<Longrightarrow> strlen_at m i = Inr (length xs)"
proof -
  assume d: "drop i m = xs @ 0 # ys" and nz: "0 \<notin> set xs"
  have "length (drop i m) = length xs + Suc (length ys)" unfolding d by simp
  then have "i + length xs < length m" by simp
  then show ?thesis by (simp add: strlen_at_def d takeWhile_nz [OF nz])
qed

section \<open>\<open>strncpy\<close> against its specification\<close>

text \<open>
  The specification: the first \<open>n\<close> characters of the string continued with NULs.  \<open>fill\<close> is the
  destination when its first \<open>i\<close> bytes are done.
\<close>

definition padded_copy :: "bytes \<Rightarrow> nat \<Rightarrow> bytes" where
  "padded_copy src n = take n (cstr src @ replicate n 0)"

definition fill :: "bytes \<Rightarrow> bytes \<Rightarrow> nat \<Rightarrow> bytes" where
  "fill t dest i = take i t @ drop i dest"

lemma length_padded_copy [simp]: "length (padded_copy src n) = n"
  by (simp add: padded_copy_def)

lemma fill_step:
  assumes "i < length t" and "length t \<le> length dest"
  shows "store (fill t dest i) i (t ! i) = Inr (fill t dest (i + 1))"
proof -
  have "(take i t @ drop i dest)[i := t ! i] = take (Suc i) t @ drop (Suc i) dest"
    using assms by (simp add: list_update_append drop_nth_Cons [of i dest] take_Suc_conv_app_nth)
  then show ?thesis using assms by (simp add: fill_def store_def)
qed

text \<open>A source that can be read as far as \<open>strncpy\<close> needs: terminated, or at least \<open>n\<close> bytes.\<close>

lemma cstr_end:
  assumes "0 \<in> set src \<or> n \<le> length src" and "i \<le> length (cstr src)" and "i < n"
  shows "load src i = Inr (padded_copy src n ! i)" and "padded_copy src n ! i = 0 \<longleftrightarrow> i = length (cstr src)"
proof -
  let ?L = "length (cstr src)"
  have nz: "src ! j \<noteq> 0" if "j < ?L" for j
    using that nth_mem [of j "cstr src"] set_takeWhileD [of _ "\<lambda>c. c \<noteq> 0" src]
    by (auto simp: cstr_def takeWhile_nth)
  have L: "?L < length src" if "0 \<in> set src"
    using split_list_first [OF that] by (auto simp: cstr_def takeWhile_nz)
  have i: "i < length src" using assms L length_takeWhile_le [of "\<lambda>c. c \<noteq> 0" src] by (auto simp: cstr_def)
  have z: "src ! ?L = 0" if "?L < length src"
    using that nth_length_takeWhile [of "\<lambda>c. c \<noteq> 0" src] by (simp add: cstr_def)
  have p: "padded_copy src n ! i = (if i < ?L then src ! i else 0)"
    using assms(2,3) by (auto simp: padded_copy_def nth_append cstr_def takeWhile_nth)
  show "padded_copy src n ! i = 0 \<longleftrightarrow> i = ?L" using p nz assms(2) by auto
  show "load src i = Inr (padded_copy src n ! i)"
    using p i z assms(2) by (cases "i < ?L") (auto simp: load_def)
qed

definition copyable :: "bytes \<Rightarrow> bytes \<Rightarrow> nat \<Rightarrow> bool" where
  "copyable dest src n \<longleftrightarrow> (0 \<in> set src \<or> n \<le> length src) \<and> n \<le> length dest"

lemma copy_step:
  assumes "copyable dest src n" and "i \<le> length (cstr src)" and "i < n"
  shows "load src i = Inr (padded_copy src n ! i)"
    and "store (fill (padded_copy src n) dest i) i (padded_copy src n ! i) = Inr (fill (padded_copy src n) dest (i + 1))"
    and "padded_copy src n ! i = 0 \<longleftrightarrow> i = length (cstr src)"
  using assms cstr_end [of src n i] fill_step [of i "padded_copy src n" dest] by (auto simp: copyable_def)

lemma copy_chars_fill:
  "copyable dest src n \<Longrightarrow> i \<le> length (cstr src) \<Longrightarrow> i + k \<le> n \<Longrightarrow>
   copy_chars k (fill (padded_copy src n) dest i) src i =
     (let stop = i + k > length (cstr src); j = (if stop then length (cstr src) + 1 else i + k) in
      Inr (stop, fill (padded_copy src n) dest j, j))"
proof (induction k arbitrary: i)
  case (Suc k)
  then show ?case
    using copy_step [of dest src n i] by (cases "i = length (cstr src)") (simp_all add: Let_def)
qed (simp add: Let_def)

lemma copy_quads_fill:
  "copyable dest src n \<Longrightarrow> i \<le> length (cstr src) \<Longrightarrow> i + 4 * k \<le> n \<Longrightarrow>
   copy_quads k (fill (padded_copy src n) dest i) src i =
     (let stop = i + 4 * k > length (cstr src); j = (if stop then length (cstr src) + 1 else i + 4 * k) in
      Inr (stop, fill (padded_copy src n) dest j, j))"
proof (induction k arbitrary: i)
  case (Suc k)
  have c: "copy_chars 4 (fill (padded_copy src n) dest i) src i =
     (let stop = i + 4 > length (cstr src); j = (if stop then length (cstr src) + 1 else i + 4) in
      Inr (stop, fill (padded_copy src n) dest j, j))"
    using Suc.prems by (intro copy_chars_fill) simp_all
  show ?case
  proof (cases "i + 4 > length (cstr src)")
    case True
    then show ?thesis using c by (simp add: Let_def)
  next
    case False
    then show ?thesis using c Suc.IH [of "i + 4"] Suc.prems by (simp add: Let_def ac_simps)
  qed
qed (simp add: Let_def)

lemma word_pred:
  assumes "unat (w :: u32) = m" and "0 < m"
  shows "unat (w - 1) = m - 1"
  using assms unat_sub_no_wrap [of "1 :: u32" w] by simp

lemma zero_fill_fill:
  "length (cstr src) < i \<Longrightarrow> n \<le> length dest \<Longrightarrow> i < n \<Longrightarrow> unat w = n - i \<Longrightarrow>
   zero_fill (fill (padded_copy src n) dest i) i w = Inr (fill (padded_copy src n) dest n)"
proof (induction "n - i" arbitrary: i w)
  case (Suc k)
  have z: "padded_copy src n ! i = 0" using Suc.prems by (simp add: padded_copy_def nth_append)
  have st: "store (fill (padded_copy src n) dest i) i 0 = Inr (fill (padded_copy src n) dest (i + 1))"
    using fill_step [of i "padded_copy src n" dest] Suc.prems z by simp
  have w: "unat (w - 1) = n - (i + 1)" using word_pred [OF Suc.prems(4)] Suc.prems(3) by simp
  show ?case
  proof (cases "i + 1 = n")
    case True
    then have "w - 1 = 0" using w by (simp add: word_unat_eq_iff)
    then show ?thesis using st True by (simp add: zero_fill.simps [of _ i])
  next
    case False
    then have "w - 1 > 0" using w Suc.prems(3) by (simp add: word_less_nat_alt)
    then show ?thesis
      using st Suc.hyps(1) [of "i + 1" "w - 1"] Suc.hyps(2) Suc.prems False w by (simp add: zero_fill.simps [of _ i])
  qed
qed simp

lemma last_chars_fill:
  "copyable dest src n \<Longrightarrow> i \<le> length (cstr src) \<Longrightarrow> i < n \<Longrightarrow> unat w = n - i \<Longrightarrow>
   last_chars (fill (padded_copy src n) dest i) src i w = Inr (fill (padded_copy src n) dest n)"
proof (induction "n - i" arbitrary: i w)
  case (Suc k)
  note st = copy_step [OF Suc.prems(1-3)]
  have w: "unat (w - 1) = n - (i + 1)" using word_pred [OF Suc.prems(4)] Suc.prems(3) by simp
  show ?case
  proof (cases "i + 1 = n")
    case True
    then have "w - 1 = 0" using w by (simp add: word_unat_eq_iff)
    then show ?thesis using st True by (simp add: last_chars.simps [of _ src i])
  next
    case False
    then have ne: "w - 1 \<noteq> 0" using w Suc.prems(3) by (auto simp: word_unat_eq_iff)
    show ?thesis
    proof (cases "i = length (cstr src)")
      case True
      then have "last_chars (fill (padded_copy src n) dest i) src i w =
          zero_fill (fill (padded_copy src n) dest (i + 1)) (i + 1) (w - 1)"
        using st ne by (subst last_chars.simps) simp
      then show ?thesis
        using zero_fill_fill [of src "i + 1" n dest "w - 1"] False True w Suc.prems by (simp add: copyable_def)
    next
      case i: False
      then show ?thesis
        using st ne Suc.hyps(1) [of "i + 1" "w - 1"] Suc.hyps(2) False w Suc.prems
        by (simp add: last_chars.simps [of _ src i])
    qed
  qed
qed simp

lemma strncpy_fill:
  assumes ok: "copyable dest src (unat n)"
  shows "strncpy dest src n = Inr (fill (padded_copy src (unat n)) dest (unat n))"
proof -
  let ?t = "padded_copy src (unat n)" and ?L = "length (cstr src)"
  have f0: "fill ?t dest 0 = dest" by (simp add: fill_def)
  have n3: "unat (n AND 3) = unat n mod 4"
  proof -
    have "n AND 3 = take_bit 2 n" by (simp add: take_bit_eq_mask mask_eq_exp_minus_1)
    then show ?thesis by (simp add: take_bit_eq_mod unat_mod)
  qed
  have n4: "unat (drop_bit 2 n) = unat n div 4" by (simp add: drop_bit_eq_div unat_div)
  have last: "(if n AND 3 = 0 then Inr (fill ?t dest i) else last_chars (fill ?t dest i) src i (n AND 3)) =
      Inr (fill ?t dest (unat n))" if "i \<le> ?L" "i = unat n - unat n mod 4" for i
  proof (cases "n AND 3 = 0")
    case True
    then have "i = unat n" using that n3 by simp
    then show ?thesis using True by simp
  next
    case False
    then have "unat n mod 4 \<noteq> 0" using n3 by (metis unsigned_0 word_unat_eq_iff)
    then show ?thesis
      using False last_chars_fill [OF ok that(1), of "n AND 3"] that n3 by simp
  qed
  show ?thesis
  proof (cases "n \<ge> 4")
    case False
    then have "unat n < 4" by (simp add: not_le word_less_nat_alt)
    then show ?thesis using False last [of 0, unfolded f0] by (simp add: strncpy_def Let_def)
  next
    case True
    let ?k = "unat n div 4"
    have q: "copy_quads (unat (drop_bit 2 n)) dest src 0 =
      (let stop = 4 * ?k > ?L; j = (if stop then ?L + 1 else 4 * ?k) in Inr (stop, fill ?t dest j, j))"
      using copy_quads_fill [OF ok, of 0 ?k] f0 n4 by (simp add: Let_def)
    show ?thesis
    proof (cases "4 * ?k > ?L")
      case False
      have e: "4 * ?k = unat n - unat n mod 4" by presburger
      have "4 * ?k \<le> ?L" using False by simp
      note l = last [OF this e]
      show ?thesis using True False q l by (cases "n AND 3 = 0") (simp_all add: strncpy_def Let_def)
    next
      case stop: True
      have L: "?L < unat n" using stop by linarith
      let ?w = "n - word_of_nat ?L - 1"
      have "unat (word_of_nat ?L :: u32) = ?L"
        using L unat_u32_less [of n] by (intro unat_of_nat_no_wrap) simp
      then have "unat (n - word_of_nat ?L) = unat n - ?L" using L by (subst unat_sub_no_wrap) simp_all
      then have w: "unat ?w = unat n - (?L + 1)" using word_pred [of "n - word_of_nat ?L"] L by simp
      have "(if ?w = 0 then Inr (fill ?t dest (?L + 1)) else zero_fill (fill ?t dest (?L + 1)) (?L + 1) ?w) =
          Inr (fill ?t dest (unat n))"
      proof (cases "?w = 0")
        case True
        then have "?L + 1 = unat n" using w L by simp
        then show ?thesis using True by simp
      next
        case False
        then have "?L + 1 < unat n" using w L by (cases "?L + 1 = unat n") (auto simp: word_unat_eq_iff)
        then show ?thesis
          using False zero_fill_fill [of src "?L + 1" "unat n" dest ?w] ok w by (simp add: copyable_def)
      qed
      then show ?thesis
        using True stop q by (cases "n - word_of_nat ?L = 1") (simp_all add: strncpy_def Let_def)
    qed
  qed
qed

section \<open>Numbers and their digits\<close>

function digits :: "nat \<Rightarrow> nat \<Rightarrow> nat list" where
  "digits r v = (if r < 2 \<or> v < r then [v] else digits r (v div r) @ [v mod r])"
  by pat_completeness auto
termination
  by (relation "measure (\<lambda>(r, v). v)") auto

declare digits.simps [simp del]

definition dchar :: "nat \<Rightarrow> u8" where
  "dchar d = digit_chars ! d"

lemma length_digit_chars: "length digit_chars = 36"
  by (simp add: digit_chars_def)

lemma dchar_nz: "d < 36 \<Longrightarrow> dchar d \<noteq> 0"
proof -
  assume "d < 36"
  then have "dchar d \<in> set digit_chars" by (simp add: dchar_def length_digit_chars)
  moreover have "0 \<notin> set digit_chars" by (simp add: digit_chars_def upt_conv_Cons)
  ultimately show ?thesis by metis
qed

lemma digits_bound: "2 \<le> r \<Longrightarrow> d \<in> set (digits r v) \<Longrightarrow> d < r"
proof (induction r v rule: digits.induct)
  case (1 r v)
  then show ?case by (cases "v < r") (auto simp: digits.simps [of r v] dest: 1(1))
qed

lemma utoa_digit:
  assumes "val < radix" and "radix \<le> 36" and "p + 1 < length buf"
  shows "utoa_rec val buf p radix = Inr (take p buf @ [dchar (unat val), 0] @ drop (p + 2) buf)"
proof -
  have "unat val < unat radix" "unat radix \<le> 36" using assms(1,2) by (simp_all add: word_less_nat_alt word_le_nat_alt)
  then have v: "unat val < 36" by linarith
  have "buf[p := x, Suc p := 0] = take p buf @ [x, 0] @ drop (p + 2) buf" for x :: u8
    using assms(3) by (simp add: upd_conv_take_nth_drop list_update_append drop_nth_Cons [of "Suc p"])
  then show ?thesis
    using v assms by (simp add: utoa_rec.simps [of val] load_def store_def length_digit_chars dchar_def)
qed

lemma utoa_rec_digits:
  "2 \<le> radix \<Longrightarrow> radix \<le> 36 \<Longrightarrow> p + length (digits (unat radix) (unat val)) < length buf \<Longrightarrow>
   utoa_rec val buf p radix = Inr (take p buf @ map dchar (digits (unat radix) (unat val)) @ 0 #
     drop (p + length (digits (unat radix) (unat val)) + 1) buf)"
proof (induction val buf p radix rule: utoa_rec.induct)
  case (1 val buf p radix)
  have r: "2 \<le> unat radix" "unat radix \<le> 36" using "1.prems"(1,2) by (simp_all add: word_le_nat_alt)
  show ?case
  proof (cases "val < radix")
    case True
    then have "digits (unat radix) (unat val) = [unat val]" by (simp add: digits.simps [of _ "unat val"] word_less_nat_alt)
    then show ?thesis using utoa_digit [OF True "1.prems"(2)] "1.prems"(3) by simp
  next
    case False
    let ?ds = "digits (unat radix) (unat (val div radix))"
    have ds: "digits (unat radix) (unat val) = ?ds @ [unat (val mod radix)]"
      using False r by (simp add: digits.simps [of _ "unat val"] word_less_nat_alt unat_div unat_mod)
    have len: "p + length ?ds + 1 < length buf" using "1.prems"(3) ds by simp
    let ?b = "take p buf @ map dchar ?ds @ 0 # drop (p + length ?ds + 1) buf"
    have ne: "\<not> (radix = 0 \<or> radix = 1)" using r by auto
    have b: "utoa_rec (val div radix) buf p radix = Inr ?b"
      using "1.IH"(1) [OF False ne "1.prems"(1,2)] len by simp
    have nz: "0 \<notin> set (map dchar ?ds)" using dchar_nz digits_bound [OF r(1)] r(2) by fastforce
    have "drop p ?b = map dchar ?ds @ 0 # drop (p + length ?ds + 1) buf" using len by simp
    from strlen_at_ok [OF this nz] have n: "strlen_at ?b p = Inr (length ?ds)" by simp
    have m: "val mod radix < radix"
      using r by (simp add: word_less_nat_alt unat_mod)
    have "utoa_rec val buf p radix = utoa_rec (val mod radix) ?b (p + length ?ds) radix"
      using False ne b n by (simp add: utoa_rec.simps [of val])
    also have "\<dots> = Inr (take (p + length ?ds) ?b @ [dchar (unat (val mod radix)), 0] @ drop (p + length ?ds + 2) ?b)"
      using len by (intro utoa_digit [OF m "1.prems"(2)]) simp
    also have "take (p + length ?ds) ?b @ [dchar (unat (val mod radix)), 0] @ drop (p + length ?ds + 2) ?b =
        take p buf @ map dchar (?ds @ [unat (val mod radix)]) @ 0 # drop (p + length (?ds @ [unat (val mod radix)]) + 1) buf"
      using len by (simp add: ac_simps)
    finally show ?thesis unfolding ds .
  qed
qed

lemma length_digits: "v < r ^ Suc k \<Longrightarrow> 2 \<le> r \<Longrightarrow> length (digits r v) \<le> Suc k"
proof (induction k arbitrary: v)
  case 0
  then show ?case by (simp add: digits.simps [of r v])
next
  case (Suc k)
  then have "v div r < r ^ Suc k" by (simp add: div_less_iff_less_mult ac_simps)
  from Suc.IH [OF this Suc.prems(2)] show ?case by (simp add: digits.simps [of r v])
qed

lemma hex_digits_u32: "length (digits 16 (unat (v :: u32))) \<le> 8"
  using length_digits [of "unat v" 16 7] unat_u32_less [of v] by simp

text \<open>The value of a list of digits, and that \<open>atou_hex\<close> computes it.\<close>

definition hex_value :: "nat list \<Rightarrow> nat \<Rightarrow> nat" where
  "hex_value ds v = foldl (\<lambda>v d. v * 16 + d) v ds"

lemma hex_value_digits: "hex_value (digits 16 v) 0 = v"
proof (induction v rule: less_induct)
  case (less v)
  then show ?case
    using less.IH [of "v div 16"] by (cases "v < 16") (simp_all add: digits.simps [of 16 v] hex_value_def)
qed

lemma hex_digit:
  "d < 16 \<Longrightarrow> atou_hex_loop s i v = atou_hex_loop s (i + 1) (v * 16 + word_of_nat d)" if "load s i = Inr (dchar d)"
proof -
  let ?next = "\<lambda>x. atou_hex_loop s (i + 1) (v * 16 + ucast x)"
  let ?cases = "\<lambda>c :: u8. if c = 0 then Inr v
    else if 0x30 \<le> c \<and> c \<le> 0x39 then ?next (c - 0x30)
    else if 0x41 \<le> c \<and> c \<le> 0x46 then ?next (c - 0x41 + 10)
    else if 0x61 \<le> c \<and> c \<le> 0x66 then ?next (c - 0x61 + 10) else Inr v"
  have "atou_hex_loop s i v = ?cases (dchar d)" using that by (subst atou_hex_loop.simps) simp
  moreover have "\<forall>d \<in> set [0..<16]. ?cases (dchar d) = atou_hex_loop s (i + 1) (v * 16 + word_of_nat d)"
    by (simp add: upt_conv_Cons dchar_def digit_chars_def)
  moreover assume "d < 16"
  ultimately show ?thesis by (metis atLeastLessThan_iff atLeast_upt lessThan_iff set_upt)
qed

lemma atou_hex_digits:
  "drop i s = map dchar ds @ 0 # rest \<Longrightarrow> \<forall>d \<in> set ds. d < 16 \<Longrightarrow>
   atou_hex_loop s i (word_of_nat v) = Inr (word_of_nat (hex_value ds v))"
proof (induction ds arbitrary: i v)
  case Nil
  then show ?case
    using drop_eq_ConsD [of i s 0 rest] by (simp add: atou_hex_loop.simps [of s i] load_in hex_value_def)
next
  case (Cons d ds)
  then have d: "drop i s = dchar d # (map dchar ds @ 0 # rest)" by simp
  note dd = drop_eq_ConsD [OF d]
  have "atou_hex_loop s i (word_of_nat v) = atou_hex_loop s (i + 1) (word_of_nat (v * 16 + d))"
    using hex_digit [of s i d "word_of_nat v"] dd Cons.prems(2) by (simp add: load_in)
  also have "\<dots> = Inr (word_of_nat (hex_value ds (v * 16 + d)))"
    using dd(3) Cons.prems(2) by (intro Cons.IH) simp_all
  finally show ?case by (simp add: hex_value_def)
qed

section \<open>\<open>Search_str\<close>\<close>

text \<open>
  Both arguments are terminated strings here.  The inner loop returns; it has either matched the
  rest of the pattern or stands at a difference, with the counted length in step.
\<close>

lemma cstr_bound:
  assumes "0 \<in> set m"
  shows "length (cstr m) < length m" and "i < length (cstr m) \<Longrightarrow> m ! i = cstr m ! i"
    and "i < length (cstr m) \<Longrightarrow> m ! i \<noteq> 0" and "m ! length (cstr m) = 0"
proof -
  from split_list_first [OF assms] obtain xs ys where m: "m = xs @ 0 # ys" "0 \<notin> set xs" by auto
  then have c: "cstr m = xs" by (simp add: cstr_def takeWhile_nz)
  show "length (cstr m) < length m" "m ! length (cstr m) = 0" using m c by simp_all
  show "i < length (cstr m) \<Longrightarrow> m ! i = cstr m ! i" "i < length (cstr m) \<Longrightarrow> m ! i \<noteq> 0"
    using m c by (auto simp: nth_append in_set_conv_nth)
qed

lemma take_Suc_drop: "i < length xs \<Longrightarrow> take (Suc k) (drop i xs) = xs ! i # take k (drop (Suc i) xs)"
  by (simp add: drop_nth_Cons)

lemma search_inner_result:
  assumes src: "0 \<in> set source" and pat: "0 \<in> set chars"
  shows "s \<le> length (cstr source) \<Longrightarrow> t \<le> length (cstr chars) \<Longrightarrow>
   \<exists>k. s + k \<le> length (cstr source) \<and> take k (drop s (cstr source)) = take k (drop t (cstr chars)) \<and>
     (search_inner source chars s t len = Inr (s + k, length (cstr chars), len + int k) \<and> k = length (cstr chars) - t \<or>
      search_inner source chars s t len = Inr (s + k, 0, len + int k))"
proof (induction "length (cstr chars) - t" arbitrary: s t len)
  case 0
  then have "search_inner source chars s t len = Inr (s, length (cstr chars), len)"
    using cstr_bound [OF pat] by (subst search_inner.simps) (simp add: load_def)
  with 0 show ?case by (intro exI [of _ 0]) simp
next
  case (Suc n)
  note P = cstr_bound [OF pat] and S = cstr_bound [OF src]
  have t: "t < length (cstr chars)" using Suc.hyps(2) by simp
  have lt: "load chars t = Inr (chars ! t)" "chars ! t \<noteq> 0" "load source s = Inr (source ! s)"
    using P(1) P(3) [of t] S(1) t Suc.prems(1) by (simp_all add: load_def)
  show ?case
  proof (cases "chars ! t = source ! s")
    case False
    then have "search_inner source chars s t len = Inr (s, 0, len)" using lt by (subst search_inner.simps) simp
    with Suc.prems show ?thesis by (intro exI [of _ 0]) simp
  next
    case True
    then have s: "s < length (cstr source)" using lt S(4) Suc.prems(1) by (metis le_neq_implies_less)
    have step: "search_inner source chars s t len = search_inner source chars (s + 1) (t + 1) (len + 1)"
      using lt True by (subst search_inner.simps) simp
    obtain k where k: "s + 1 + k \<le> length (cstr source)"
      "take k (drop (s + 1) (cstr source)) = take k (drop (t + 1) (cstr chars))"
      "search_inner source chars (s + 1) (t + 1) (len + 1) = Inr (s + 1 + k, length (cstr chars), len + 1 + int k) \<and>
         k = length (cstr chars) - (t + 1) \<or>
       search_inner source chars (s + 1) (t + 1) (len + 1) = Inr (s + 1 + k, 0, len + 1 + int k)"
    proof -
      have "n = length (cstr chars) - (t + 1)" "s + 1 \<le> length (cstr source)" "t + 1 \<le> length (cstr chars)"
        using Suc.hyps(2) s t by linarith+
      from Suc.hyps(1) [OF this, of "len + 1"] that show ?thesis by blast
    qed
    have "take (Suc k) (drop s (cstr source)) = take (Suc k) (drop t (cstr chars))"
      using k(2) s t True P(2) [OF t] S(2) [OF s] by (simp add: take_Suc_drop)
    then show ?thesis
      using k(1,3) t unfolding step by (intro exI [of _ "Suc k"]) (auto simp: ac_simps)
  qed
qed

lemma search_outer_result:
  assumes src: "0 \<in> set source" and pat: "0 \<in> set chars" and ne: "cstr chars \<noteq> []"
  shows "s \<le> length (cstr source) \<Longrightarrow>
   \<exists>r. search_outer source chars s 0 (int s) = Inr (int r) \<and>
     (r = 0 \<or> length (cstr chars) \<le> r \<and> take (length (cstr chars)) (drop (r - length (cstr chars)) (cstr source)) = cstr chars)"
proof (induction "length (cstr source) - s" arbitrary: s rule: less_induct)
  case less
  note P = cstr_bound [OF pat] and S = cstr_bound [OF src]
  let ?C = "length (cstr chars)"
  have ls: "load source s = Inr (source ! s)" using S(1) less.prems by (simp add: load_def)
  have lc: "load chars 0 = Inr (chars ! 0)" "chars ! 0 \<noteq> 0" "load chars ?C = Inr 0"
    using P(1,4) P(3) [of 0] ne by (auto simp: load_def)
  show ?case
  proof (cases "s = length (cstr source)")
    case True
    then show ?thesis using ls S(4) by (intro exI [of _ 0]) (simp add: search_outer.simps [of source])
  next
    case False
    then have s: "s < length (cstr source)" using less.prems by simp
    note nz = S(3) [OF s]
    show ?thesis
    proof (cases "source ! s = chars ! 0")
      case ne0: False
      then have "search_outer source chars s 0 (int s) = search_outer source chars (s + 1) 0 (int (s + 1))"
        using ls lc nz by (subst search_outer.simps) (simp add: add.commute)
      then show ?thesis using less.hyps [of "s + 1"] s by simp
    next
      case True
      have i1: "search_inner source chars s 0 (int s) = search_inner source chars (s + 1) 1 (int s + 1)"
        using ls lc True by (subst search_inner.simps) simp
      obtain k where k: "s + 1 + k \<le> length (cstr source)"
        "take k (drop (s + 1) (cstr source)) = take k (drop 1 (cstr chars))"
        "search_inner source chars s 0 (int s) = Inr (s + 1 + k, ?C, int s + 1 + int k) \<and> k = ?C - 1 \<or>
         search_inner source chars s 0 (int s) = Inr (s + 1 + k, 0, int s + 1 + int k)"
        using search_inner_result [OF src pat, of "s + 1" 1 "int s + 1"] s ne unfolding i1 by (auto simp: Suc_le_eq)
      from k(3) show ?thesis
      proof
        assume m: "search_inner source chars s 0 (int s) = Inr (s + 1 + k, ?C, int s + 1 + int k) \<and> k = ?C - 1"
        then have r: "search_outer source chars s 0 (int s) = Inr (int (s + ?C))"
          using ls lc nz True ne by (subst search_outer.simps) (simp add: of_nat_diff Suc_le_eq)
        have "take (Suc k) (drop s (cstr source)) = take (Suc k) (cstr chars)"
          using k(2) s ne True P(2) [of 0] S(2) [OF s] take_Suc_drop [of 0 "cstr chars" k] by (simp add: take_Suc_drop)
        then have "take ?C (drop s (cstr source)) = cstr chars" using m ne by simp
        then show ?thesis using r by (intro exI [of _ "s + ?C"]) simp
      next
        assume m: "search_inner source chars s 0 (int s) = Inr (s + 1 + k, 0, int s + 1 + int k)"
        then have "search_outer source chars s 0 (int s) = search_outer source chars (s + 1 + k) 0 (int (s + 1 + k))"
          using ls lc nz True by (subst search_outer.simps) (simp add: ac_simps)
        then show ?thesis using less.hyps [of "s + 1 + k"] k(1) s by simp
      qed
    qed
  qed
qed

section \<open>Properties\<close>

text \<open>
  \<open>strncpy\<close>, with its loop unrolled by four, is the function of the C standard: the first \<open>n\<close>
  bytes of the destination become the string continued with NULs, the others are unchanged, and
  nothing is read behind the terminator or behind \<open>n\<close> bytes.
\<close>

theorem strncpy_correct:
  assumes "0 \<in> set src \<or> unat n \<le> length src" and "unat n \<le> length dest"
  shows "strncpy dest src n =
    Inr (take (unat n) (takeWhile (\<lambda>c. c \<noteq> 0) src @ replicate (unat n) 0) @ drop (unat n) dest)"
  using strncpy_fill [of dest src n] assms
  by (simp add: copyable_def fill_def padded_copy_def cstr_def)

theorem strncpy_correct_witness:
  "strncpy [9, 9, 9, 9, 9, 9, 9, 9] [0x61, 0x62, 0] 7 = Inr [0x61, 0x62, 0, 0, 0, 0, 0, 9]"
proof -
  have "replicate 7 (0 :: u8) = [0, 0, 0, 0, 0, 0, 0]" by (simp add: numeral_eq_Suc)
  then show ?thesis using strncpy_correct [of "[0x61, 0x62, 0]" 7 "[9, 9, 9, 9, 9, 9, 9, 9]"] by simp
qed

text \<open>
  A number printed by \<open>utoa\<close> in base 16 into a buffer of nine bytes or more is read back by
  \<open>atou_hex\<close>.
\<close>

theorem utoa_hex_roundtrip:
  assumes "9 \<le> length buf"
  shows "\<exists>b. utoa val (Some buf) 16 = Inr (Some b) \<and> atou_hex (Some b) = Inr val"
proof -
  let ?ds = "digits 16 (unat val)" let ?b = "map dchar ?ds @ 0 # drop (length ?ds + 1) buf"
  have "utoa val (Some buf) 16 = Inr (Some ?b)"
    using utoa_rec_digits [of 16 0 val buf] hex_digits_u32 [of val] assms by (simp add: utoa_def)
  moreover have "atou_hex_loop ?b 0 (word_of_nat 0) = Inr (word_of_nat (hex_value ?ds 0))"
    using digits_bound [of 16] by (intro atou_hex_digits) auto
  ultimately show ?thesis by (simp add: atou_hex_def hex_value_digits)
qed

theorem utoa_hex_roundtrip_witness:
  "\<exists>b. utoa 0xBEEF (Some (replicate 9 0)) 16 = Inr (Some b) \<and> atou_hex (Some b) = Inr 0xBEEF"
  using utoa_hex_roundtrip [of "replicate 9 0" "0xBEEF"] by simp

text \<open>
  \<open>Search_str\<close> ends for every pair of terminated strings with a non-empty pattern, without an
  access behind a terminator, and a result other than 0 is the position behind an occurrence of
  the pattern.
\<close>

theorem Search_str_returns:
  assumes "0 \<in> set source" and "0 \<in> set chars" and "cstr chars \<noteq> []"
  shows "\<exists>r. Search_str (Some source) (Some chars) = Inr (int r) \<and>
    (r = 0 \<or> length (cstr chars) \<le> r \<and>
       take (length (cstr chars)) (drop (r - length (cstr chars)) (cstr source)) = cstr chars)"
  using search_outer_result [OF assms, of 0] by (simp add: Search_str_def)

theorem Search_str_returns_witness:
  "\<exists>r. Search_str (Some [0x78, 0x61, 0x62, 0]) (Some [0x61, 0x62, 0]) = Inr (int r)"
  using Search_str_returns [of "[0x78, 0x61, 0x62, 0]" "[0x61, 0x62, 0]"] by (auto simp: cstr_def)

text \<open>
  \<open>Search_str\<close> is not a search for the pattern: after a partial match it goes on behind the
  difference, so that it does not find \<open>aab\<close> in \<open>aaab\<close>.
\<close>

theorem Search_str_misses:
  "Search_str (Some [0x61, 0x61, 0x61, 0x62, 0]) (Some [0x61, 0x61, 0x62, 0]) = Inr 0 \<and>
   Search_str (Some [0x61, 0x61, 0x62, 0]) (Some [0x61, 0x61, 0x62, 0]) = Inr 3"
  by (simp add: Search_str_def search_outer.simps search_inner.simps load_def)

end
