(* ===== verification/CJson.thy ===== *)
theory CJson
  imports DynMem CString
begin

text \<open>
  The JSON library \<open>Lib/cJSON.c\<close>: items, the parser with its unescaping of strings, the printer
  with the buffers it computes, and the operations on the children of an item.  A chain of
  \<open>next\<close>/\<open>prev\<close> pointers is a list, a pointer into the text the list of the characters from
  there up to the NUL, and \<open>ep\<close>, the position of an error, part of the result.  The heap is the
  argument \<open>mm\<close>; the double-precision numbers of the C compiler are the argument \<open>D\<close>.
\<close>

section \<open>Items\<close>

record 'd doubles =
  d_int :: "int \<Rightarrow> 'd"
  d_to_int :: "'d \<Rightarrow> int"
  d_add :: "'d \<Rightarrow> 'd \<Rightarrow> 'd"
  d_sub :: "'d \<Rightarrow> 'd \<Rightarrow> 'd"
  d_mul :: "'d \<Rightarrow> 'd \<Rightarrow> 'd"
  d_pow :: "'d \<Rightarrow> 'd \<Rightarrow> 'd"
  d_fabs :: "'d \<Rightarrow> 'd"
  d_floor :: "'d \<Rightarrow> 'd"
  d_eq :: "'d \<Rightarrow> 'd \<Rightarrow> bool"
  d_le :: "'d \<Rightarrow> 'd \<Rightarrow> bool"
  d_lt :: "'d \<Rightarrow> 'd \<Rightarrow> bool"
  DBL_EPSILON :: 'd
  d_1e60 :: 'd
  d_1em6 :: 'd
  d_1e9 :: 'd
  fmt_0f :: "'d \<Rightarrow> cstring"
  fmt_e :: "'d \<Rightarrow> cstring"
  fmt_f :: "'d \<Rightarrow> cstring"

datatype json_type = cJSON_False | cJSON_True | cJSON_NULL | cJSON_Number | cJSON_String | cJSON_Array | cJSON_Object

datatype 'd cJSON =
  Item (jtype: json_type) (valuestring: "cstring option") (valueint: int) (valuedouble: 'd)
    (jstring: "cstring option") (child: "'d cJSON list")

primrec set_type :: "json_type \<Rightarrow> 'd cJSON \<Rightarrow> 'd cJSON" where
  "set_type t' (Item t vs vi vd n ch) = Item t' vs vi vd n ch"

primrec set_valuestring :: "cstring option \<Rightarrow> 'd cJSON \<Rightarrow> 'd cJSON" where
  "set_valuestring vs' (Item t vs vi vd n ch) = Item t vs' vi vd n ch"

primrec set_valueint :: "int \<Rightarrow> 'd cJSON \<Rightarrow> 'd cJSON" where
  "set_valueint vi' (Item t vs vi vd n ch) = Item t vs vi' vd n ch"

primrec set_valuedouble :: "'d \<Rightarrow> 'd cJSON \<Rightarrow> 'd cJSON" where
  "set_valuedouble vd' (Item t vs vi vd n ch) = Item t vs vi vd' n ch"

primrec set_string :: "cstring option \<Rightarrow> 'd cJSON \<Rightarrow> 'd cJSON" where
  "set_string n' (Item t vs vi vd n ch) = Item t vs vi vd n' ch"

primrec set_child :: "'d cJSON list \<Rightarrow> 'd cJSON \<Rightarrow> 'd cJSON" where
  "set_child ch' (Item t vs vi vd n ch) = Item t vs vi vd n ch'"

definition sizeof_cJSON :: u32 where "sizeof_cJSON = 40"

text \<open>\<open>memset(node,0,sizeof(cJSON))\<close> makes a fresh item one of type \<open>cJSON_False\<close>.\<close>

definition zero_item :: "'d doubles \<Rightarrow> 'd cJSON" where
  "zero_item D = Item cJSON_False None 0 (d_int D 0) None []"

definition cJSON_New_Item :: "'d doubles \<Rightarrow> mallocator \<Rightarrow> 'd cJSON option" where
  "cJSON_New_Item D mm = map_option (\<lambda>_. zero_item D) (mm sizeof_cJSON)"

section \<open>Characters of the text\<close>

definition peek :: "cstring \<Rightarrow> u8" where
  "peek s = (case s of [] \<Rightarrow> 0 | c # _ \<Rightarrow> c)"

text \<open>A pointer that has moved behind the NUL is read by the loops at once.\<close>

definition advance :: "nat \<Rightarrow> cstring \<Rightarrow> cstring outcome" where
  "advance n s = (if n \<le> length s then Inr (drop n s) else Inl OutOfBounds)"

definition is_digit :: "u8 \<Rightarrow> bool" where
  "is_digit c \<longleftrightarrow> 0x30 \<le> c \<and> c \<le> 0x39"

fun skip :: "cstring \<Rightarrow> cstring" where
  "skip [] = []"
| "skip (c # s) = (if c \<noteq> 0 \<and> c \<le> 32 then skip s else c # s)"

text \<open>
  The result of a parser: \<open>Inl ep\<close> when it returns 0 (\<open>ep\<close> is \<open>None\<close> unless it was set), otherwise
  the item and the position behind the text it has read.
\<close>

type_synonym 'a parsed = "(cstring option + 'a \<times> cstring) outcome"

definition pbind :: "'a parsed \<Rightarrow> ('a \<Rightarrow> cstring \<Rightarrow> 'b parsed) \<Rightarrow> 'b parsed" where
  "pbind m k = ebind m (\<lambda>r. case r of Inl ep \<Rightarrow> Inr (Inl ep) | Inr (x, s) \<Rightarrow> k x s)"

section \<open>Numbers\<close>

definition dig :: "u8 \<Rightarrow> int" where
  "dig c = int (unat (c - 0x30))"

fun digits :: "'d doubles \<Rightarrow> 'd \<Rightarrow> cstring \<Rightarrow> 'd \<times> cstring" where
  "digits D n [] = (n, [])"
| "digits D n (c # s) =
     (if is_digit c then digits D (d_add D (d_mul D n (d_int D 10)) (d_int D (dig c))) s else (n, c # s))"

fun fraction :: "'d doubles \<Rightarrow> 'd \<Rightarrow> 'd \<Rightarrow> cstring \<Rightarrow> 'd \<times> 'd \<times> cstring" where
  "fraction D n scale [] = (n, scale, [])"
| "fraction D n scale (c # s) =
     (if is_digit c
      then fraction D (d_add D (d_mul D n (d_int D 10)) (d_int D (dig c))) (d_sub D scale (d_int D 1)) s
      else (n, scale, c # s))"

text \<open>\<open>subscale\<close> is an \<open>int\<close>, which wraps around on this target.\<close>

fun exponent :: "u32 \<Rightarrow> cstring \<Rightarrow> u32 \<times> cstring" where
  "exponent subscale [] = (subscale, [])"
| "exponent subscale (c # s) =
     (if is_digit c then exponent (subscale * 10 + word_of_int (dig c)) s else (subscale, c # s))"

text \<open>The four parts of a number; each leaves what it does not find.\<close>

definition num_sign :: "'d doubles \<Rightarrow> cstring \<Rightarrow> 'd \<times> cstring" where
  "num_sign D num = (if peek num = 0x2d then (d_int D (-1), tl num) else (d_int D 1, num))"

definition num_integer :: "'d doubles \<Rightarrow> cstring \<Rightarrow> 'd \<times> cstring" where
  "num_integer D num =
     (let num = (if peek num = 0x30 then tl num else num) in
      if 0x31 \<le> peek num \<and> peek num \<le> 0x39 then digits D (d_int D 0) num else (d_int D 0, num))"

definition num_fraction :: "'d doubles \<Rightarrow> 'd \<Rightarrow> cstring \<Rightarrow> 'd \<times> 'd \<times> cstring" where
  "num_fraction D n num =
     (if peek num = 0x2e \<and> is_digit (peek (tl num)) then fraction D n (d_int D 0) (tl num) else (n, d_int D 0, num))"

definition num_exponent :: "cstring \<Rightarrow> u32 \<times> u32 \<times> cstring" where
  "num_exponent num =
     (if peek num = 0x65 \<or> peek num = 0x45 then
        let num = tl num;
            (signsubscale, num) = (if peek num = 0x2b then (1, tl num)
                                   else if peek num = 0x2d then (-1, tl num) else (1, num));
            (subscale, num) = exponent 0 num
        in (subscale, signsubscale, num)
      else (0, 1, num))"

definition parse_number :: "'d doubles \<Rightarrow> 'd cJSON \<Rightarrow> cstring \<Rightarrow> 'd cJSON \<times> cstring" where
  "parse_number D item num =
     (let (sign, num) = num_sign D num;
          (n, num) = num_integer D num;
          (n, scale, num) = num_fraction D n num;
          (subscale, signsubscale, num) = num_exponent num;
          n = d_mul D (d_mul D sign n)
                (d_pow D (d_int D 10) (d_add D scale (d_int D (sint (subscale * signsubscale)))))
      in (set_type cJSON_Number (set_valueint (d_to_int D n) (set_valuedouble n item)), num))"

section \<open>Strings\<close>

definition hex_digit :: "u8 \<Rightarrow> u32 option" where
  "hex_digit c =
     (if 0x30 \<le> c \<and> c \<le> 0x39 then Some (ucast (c - 0x30))
      else if 0x41 \<le> c \<and> c \<le> 0x46 then Some (10 + ucast (c - 0x41))
      else if 0x61 \<le> c \<and> c \<le> 0x66 then Some (10 + ucast (c - 0x61))
      else None)"

fun hex_loop :: "nat \<Rightarrow> u32 \<Rightarrow> cstring \<Rightarrow> u32" where
  "hex_loop 0 h s = h"
| "hex_loop (Suc k) h s =
     (case hex_digit (peek s) of None \<Rightarrow> 0 | Some d \<Rightarrow> hex_loop k (push_bit 4 h + d) (tl s))"

definition parse_hex4 :: "cstring \<Rightarrow> u32" where
  "parse_hex4 s = hex_loop 4 0 s"

text \<open>The first pass over a string: the number of characters, an escape counted once.\<close>

fun string_len :: "cstring \<Rightarrow> nat \<Rightarrow> nat outcome" where
  "string_len [] len = Inr len"
| "string_len (c # s) len =
     (if c = 0x22 \<or> c = 0 then Inr len
      else if c = 0x5c then (case s of [] \<Rightarrow> Inl OutOfBounds | _ # s \<Rightarrow> string_len s (len + 1))
      else string_len s (len + 1))"

text \<open>\<open>*ptr2++ = ...\<close> in the block of \<open>cap\<close> bytes.\<close>

definition put :: "nat \<Rightarrow> bytes \<Rightarrow> bytes \<Rightarrow> bytes outcome" where
  "put cap out bs = (if length out + length bs \<le> cap then Inr (out @ bs) else Inl OutOfBounds)"

definition firstByteMark :: "u32 list" where
  "firstByteMark = [0x00, 0x00, 0xC0, 0xE0, 0xF0, 0xF8, 0xFC]"

definition utf8_len :: "u32 \<Rightarrow> nat" where
  "utf8_len uc = (if uc < 0x80 then 1 else if uc < 0x800 then 2 else if uc < 0x10000 then 3 else 4)"

text \<open>The \<open>switch (len)\<close> that falls through from its last byte to the first.\<close>

fun utf8_put :: "nat \<Rightarrow> u32 \<Rightarrow> u32 \<Rightarrow> bytes \<Rightarrow> bytes" where
  "utf8_put 0 mark uc acc = acc"
| "utf8_put (Suc 0) mark uc acc = ucast (uc OR mark) # acc"
| "utf8_put (Suc (Suc k)) mark uc acc =
     utf8_put (Suc k) mark (drop_bit 6 uc) (ucast ((uc OR 0x80) AND 0xBF) # acc)"

definition utf8 :: "u32 \<Rightarrow> bytes" where
  "utf8 uc = utf8_put (utf8_len uc) (firstByteMark ! utf8_len uc) uc []"

text \<open>The \<open>switch (*ptr)\<close> behind a backslash.\<close>

definition unescape_u :: "nat \<Rightarrow> bytes \<Rightarrow> cstring \<Rightarrow> (bytes \<times> cstring) outcome" where
  "unescape_u cap out ptr =
     (let uc = parse_hex4 (tl ptr) in
      ebind (advance 4 ptr) (\<lambda>ptr.
      if 0xDC00 \<le> uc \<and> uc \<le> 0xDFFF \<or> uc = 0 then Inr (out, ptr)
      else if 0xD800 \<le> uc \<and> uc \<le> 0xDBFF then
        (if peek (tl ptr) \<noteq> 0x5c \<or> peek (tl (tl ptr)) \<noteq> 0x75 then Inr (out, ptr)
         else let uc2 = parse_hex4 (drop 3 ptr) in
              ebind (advance 6 ptr) (\<lambda>ptr.
              if uc2 < 0xDC00 \<or> uc2 > 0xDFFF then Inr (out, ptr)
              else ebind (put cap out (utf8 (0x10000 + (push_bit 10 (uc AND 0x3FF) OR (uc2 AND 0x3FF)))))
                     (\<lambda>out. Inr (out, ptr))))
      else ebind (put cap out (utf8 uc)) (\<lambda>out. Inr (out, ptr))))"

definition unescape :: "nat \<Rightarrow> bytes \<Rightarrow> cstring \<Rightarrow> (bytes \<times> cstring) outcome" where
  "unescape cap out ptr =
     (let one = (\<lambda>c. ebind (put cap out [c]) (\<lambda>out. Inr (out, ptr))) in
      if peek ptr = 0x62 then one 8
      else if peek ptr = 0x66 then one 12
      else if peek ptr = 0x6e then one 10
      else if peek ptr = 0x72 then one 13
      else if peek ptr = 0x74 then one 9
      else if peek ptr = 0x75 then unescape_u cap out ptr
      else one (peek ptr))"

lemma unescape_length: "unescape cap out ptr = Inr (out', ptr') \<Longrightarrow> length ptr' \<le> length ptr"
  by (auto simp: unescape_def unescape_u_def Let_def c_bind advance_def split: if_splits)

function string_loop :: "nat \<Rightarrow> bytes \<Rightarrow> cstring \<Rightarrow> (bytes \<times> cstring) outcome" where
  "string_loop cap out ptr =
     (if peek ptr = 0x22 \<or> peek ptr = 0 then Inr (out, ptr)
      else if peek ptr \<noteq> 0x5c then ebind (put cap out [peek ptr]) (\<lambda>out. string_loop cap out (tl ptr))
      else ebind (unescape cap out (tl ptr)) (\<lambda>(out, ptr).
           ebind (advance 1 ptr) (\<lambda>ptr. string_loop cap out ptr)))"
  by pat_completeness auto
termination
proof (relation "measure (\<lambda>(cap, out, ptr). length ptr)")
  fix cap :: nat and out :: bytes and ptr :: cstring
  assume "\<not> (peek ptr = 0x22 \<or> peek ptr = 0)"
  then have ne: "ptr \<noteq> []" by (auto simp: peek_def)
  then show "((cap, out', tl ptr), (cap, out, ptr)) \<in> measure (\<lambda>(cap, out, ptr). length ptr)" for out'
    by simp
  fix x out' ptr' ptr''
  assume "unescape cap out (tl ptr) = Inr x" "(out', ptr') = x" "advance 1 ptr' = Inr ptr''"
  with ne show "((cap, out', ptr''), (cap, out, ptr)) \<in> measure (\<lambda>(cap, out, ptr). length ptr)"
    using unescape_length [of cap out "tl ptr" out' ptr'] by (auto simp: advance_def split: if_splits)
qed simp

declare string_loop.simps [simp del]

definition parse_string :: "mallocator \<Rightarrow> 'd cJSON \<Rightarrow> cstring \<Rightarrow> 'd cJSON parsed" where
  "parse_string mm item str =
     (if peek str \<noteq> 0x22 then Inr (Inl (Some str))
      else ebind (string_len (tl str) 0) (\<lambda>len.
           case mm (word_of_nat (len + 1)) of
             None \<Rightarrow> Inr (Inl None)
           | Some _ \<Rightarrow>
               ebind (string_loop (len + 1) [] (tl str)) (\<lambda>(out, ptr).
               ebind (put (len + 1) out [0]) (\<lambda>block.
               Inr (Inr (set_type cJSON_String (set_valuestring (Some (cstr block)) item),
                         if peek ptr = 0x22 then tl ptr else ptr))))))"

section \<open>The parser\<close>

definition lit_null :: cstring where "lit_null = [0x6e, 0x75, 0x6c, 0x6c]"
definition lit_false :: cstring where "lit_false = [0x66, 0x61, 0x6c, 0x73, 0x65]"
definition lit_true :: cstring where "lit_true = [0x74, 0x72, 0x75, 0x65]"

text \<open>\<open>!strncmp(value, lit, strlen(lit))\<close>\<close>

definition starts :: "cstring \<Rightarrow> cstring \<Rightarrow> bool" where
  "starts s lit \<longleftrightarrow> take (length lit) s = lit"

definition with_item :: "'d doubles \<Rightarrow> mallocator \<Rightarrow> ('d cJSON \<Rightarrow> 'b parsed) \<Rightarrow> 'b parsed" where
  "with_item D mm k = (case cJSON_New_Item D mm of None \<Rightarrow> Inr (Inl None) | Some item \<Rightarrow> k item)"

text \<open>
  The recursive descent.  \<open>parse_value\<close> is the argument \<open>pv\<close> of the two functions it calls and
  that call it back.  The fuel bounds the depth of the recursion and the iterations of each of
  the two loops; it is never used up when it exceeds the length of the text.
\<close>

fun array_loop ::
  "'d doubles \<Rightarrow> mallocator \<Rightarrow> ('d cJSON \<Rightarrow> cstring \<Rightarrow> 'd cJSON parsed) \<Rightarrow> nat \<Rightarrow> 'd cJSON list \<Rightarrow> 'd cJSON \<Rightarrow>
   cstring \<Rightarrow> 'd cJSON parsed" where
  "array_loop D mm pv 0 xs item s = Inl Diverges"
| "array_loop D mm pv (Suc k) xs item s =
     (if peek s = 0x2c then
        with_item D mm (\<lambda>child.
        pbind (pv child (skip (tl s))) (\<lambda>child s.
        array_loop D mm pv k (xs @ [child]) item (skip s)))
      else if peek s = 0x5d then Inr (Inr (set_child xs item, tl s))
      else Inr (Inl (Some s)))"

definition parse_array ::
  "'d doubles \<Rightarrow> mallocator \<Rightarrow> ('d cJSON \<Rightarrow> cstring \<Rightarrow> 'd cJSON parsed) \<Rightarrow> nat \<Rightarrow> 'd cJSON \<Rightarrow> cstring \<Rightarrow>
   'd cJSON parsed" where
  "parse_array D mm pv k item s =
     (if peek s \<noteq> 0x5b then Inr (Inl (Some s))
      else let item = set_type cJSON_Array item; s = skip (tl s) in
           if peek s = 0x5d then Inr (Inr (item, tl s))
           else with_item D mm (\<lambda>child.
                pbind (pv child (skip s)) (\<lambda>child s.
                array_loop D mm pv k [child] item (skip s))))"

text \<open>A new child, its name, the colon and its value.\<close>

definition parse_member ::
  "'d doubles \<Rightarrow> mallocator \<Rightarrow> ('d cJSON \<Rightarrow> cstring \<Rightarrow> 'd cJSON parsed) \<Rightarrow> cstring \<Rightarrow> 'd cJSON parsed" where
  "parse_member D mm pv s =
     with_item D mm (\<lambda>child.
     pbind (parse_string mm child s) (\<lambda>child s.
     let child = set_valuestring None (set_string (valuestring child) child); s = skip s in
     if peek s \<noteq> 0x3a then Inr (Inl (Some s))
     else pv child (skip (tl s))))"

fun object_loop ::
  "'d doubles \<Rightarrow> mallocator \<Rightarrow> ('d cJSON \<Rightarrow> cstring \<Rightarrow> 'd cJSON parsed) \<Rightarrow> nat \<Rightarrow> 'd cJSON list \<Rightarrow> 'd cJSON \<Rightarrow>
   cstring \<Rightarrow> 'd cJSON parsed" where
  "object_loop D mm pv 0 xs item s = Inl Diverges"
| "object_loop D mm pv (Suc k) xs item s =
     (if peek s = 0x2c then
        pbind (parse_member D mm pv (skip (tl s))) (\<lambda>child s.
        object_loop D mm pv k (xs @ [child]) item (skip s))
      else if peek s = 0x7d then Inr (Inr (set_child xs item, tl s))
      else Inr (Inl (Some s)))"

definition parse_object ::
  "'d doubles \<Rightarrow> mallocator \<Rightarrow> ('d cJSON \<Rightarrow> cstring \<Rightarrow> 'd cJSON parsed) \<Rightarrow> nat \<Rightarrow> 'd cJSON \<Rightarrow> cstring \<Rightarrow>
   'd cJSON parsed" where
  "parse_object D mm pv k item s =
     (if peek s \<noteq> 0x7b then Inr (Inl (Some s))
      else let item = set_type cJSON_Object item; s = skip (tl s) in
           if peek s = 0x7d then Inr (Inr (item, tl s))
           else pbind (parse_member D mm pv (skip s)) (\<lambda>child s.
                object_loop D mm pv k [child] item (skip s)))"

fun parse_value :: "'d doubles \<Rightarrow> mallocator \<Rightarrow> nat \<Rightarrow> 'd cJSON \<Rightarrow> cstring \<Rightarrow> 'd cJSON parsed" where
  "parse_value D mm 0 item s = Inl Diverges"
| "parse_value D mm (Suc f) item s =
     (if starts s lit_null then Inr (Inr (set_type cJSON_NULL item, drop 4 s))
      else if starts s lit_false then Inr (Inr (set_type cJSON_False item, drop 5 s))
      else if starts s lit_true then Inr (Inr (set_valueint 1 (set_type cJSON_True item), drop 4 s))
      else if peek s = 0x22 then parse_string mm item s
      else if peek s = 0x2d \<or> is_digit (peek s) then Inr (Inr (parse_number D item s))
      else if peek s = 0x5b then parse_array D mm (parse_value D mm f) f item s
      else if peek s = 0x7b then parse_object D mm (parse_value D mm f) f item s
      else Inr (Inl (Some s)))"

definition cJSON_ParseWithOpts :: "'d doubles \<Rightarrow> mallocator \<Rightarrow> cstring \<Rightarrow> bool \<Rightarrow> 'd cJSON parsed" where
  "cJSON_ParseWithOpts D mm text require_null_terminated =
     with_item D mm (\<lambda>c.
     pbind (parse_value D mm (length text + 1) c (skip text)) (\<lambda>c stop.
     if require_null_terminated then
       let stop = skip stop in if peek stop \<noteq> 0 then Inr (Inl (Some stop)) else Inr (Inr (c, stop))
     else Inr (Inr (c, stop))))"

definition cJSON_Parse :: "'d doubles \<Rightarrow> mallocator \<Rightarrow> cstring \<Rightarrow> 'd cJSON option outcome" where
  "cJSON_Parse D mm text =
     ebind (cJSON_ParseWithOpts D mm text False) (\<lambda>r. Inr (case r of Inl _ \<Rightarrow> None | Inr (c, _) \<Rightarrow> Some c))"

section \<open>The printer\<close>

text \<open>A block of \<open>n\<close> bytes into which a text and its NUL are written; \<open>None\<close> without memory.\<close>

definition alloc_text :: "mallocator \<Rightarrow> nat \<Rightarrow> cstring \<Rightarrow> cstring option outcome" where
  "alloc_text mm n t =
     (case mm (word_of_nat n) of
        None \<Rightarrow> Inr None
      | Some _ \<Rightarrow> if length t < n then Inr (Some t) else Inl OutOfBounds)"

definition cJSON_strdup :: "mallocator \<Rightarrow> cstring \<Rightarrow> cstring option outcome" where
  "cJSON_strdup mm str = alloc_text mm (length str + 1) str"

text \<open>The conversion \<open>%d\<close>.\<close>

fun dec_nat :: "nat \<Rightarrow> cstring" where
  "dec_nat n = (if n < 10 then [0x30 + word_of_nat n] else dec_nat (n div 10) @ [0x30 + word_of_nat (n mod 10)])"

declare dec_nat.simps [simp del]

definition fmt_d :: "int \<Rightarrow> cstring" where
  "fmt_d i = (if i < 0 then 0x2d # dec_nat (nat (- i)) else dec_nat (nat i))"

definition print_number :: "'d doubles \<Rightarrow> mallocator \<Rightarrow> 'd cJSON \<Rightarrow> cstring option outcome" where
  "print_number D mm item =
     (let d = valuedouble item in
      if d_eq D d (d_int D 0) then alloc_text mm 2 [0x30]
      else if d_le D (d_fabs D (d_sub D (d_int D (valueint item)) d)) (DBL_EPSILON D) \<and>
              d_le D d (d_int D (2 ^ 31 - 1)) \<and> d_le D (d_int D (- (2 ^ 31))) d
      then alloc_text mm 21 (fmt_d (valueint item))
      else if d_le D (d_fabs D (d_sub D (d_floor D d) d)) (DBL_EPSILON D) \<and> d_lt D (d_fabs D d) (d_1e60 D)
      then alloc_text mm 64 (fmt_0f D d)
      else if d_lt D (d_fabs D d) (d_1em6 D) \<or> d_lt D (d_1e9 D) (d_fabs D d) then alloc_text mm 64 (fmt_e D d)
      else alloc_text mm 64 (fmt_f D d))"

definition hex_char :: "u8 \<Rightarrow> u8" where
  "hex_char d = (if d < 10 then 0x30 + d else 0x57 + d)"

text \<open>One character of the output, and the room the second pass reserves for it.\<close>

definition escape_char :: "u8 \<Rightarrow> cstring" where
  "escape_char c =
     (if c > 31 \<and> c \<noteq> 0x22 \<and> c \<noteq> 0x5c then [c]
      else if c = 0x5c then [0x5c, 0x5c]
      else if c = 0x22 then [0x5c, 0x22]
      else if c = 8 then [0x5c, 0x62]
      else if c = 12 then [0x5c, 0x66]
      else if c = 10 then [0x5c, 0x6e]
      else if c = 13 then [0x5c, 0x72]
      else if c = 9 then [0x5c, 0x74]
      else [0x5c, 0x75, 0x30, 0x30, hex_char (drop_bit 4 c), hex_char (c AND 0xf)])"

definition escape_len :: "u8 \<Rightarrow> nat" where
  "escape_len c = (if c \<in> {0x22, 0x5c, 8, 12, 10, 13, 9} then 2 else if c < 32 then 6 else 1)"

definition print_string_ptr :: "mallocator \<Rightarrow> cstring option \<Rightarrow> cstring option outcome" where
  "print_string_ptr mm str =
     (case str of
        None \<Rightarrow> Inl NullPointer
      | Some str \<Rightarrow>
          if \<not> list_ex (\<lambda>c. c > 0 \<and> c < 32 \<or> c = 0x22 \<or> c = 0x5c) str
          then alloc_text mm (length str + 3) (0x22 # str @ [0x22])
          else alloc_text mm (sum_list (map escape_len str) + 3) (0x22 # concat (map escape_char str) @ [0x22]))"

definition print_string :: "mallocator \<Rightarrow> 'd cJSON \<Rightarrow> cstring option outcome" where
  "print_string mm item = print_string_ptr mm (valuestring item)"

text \<open>The texts an array and an object are composed of.\<close>

fun array_body :: "bool \<Rightarrow> cstring list \<Rightarrow> cstring" where
  "array_body fmt [] = []"
| "array_body fmt (e # es) =
     e @ (if es \<noteq> [] then 0x2c # (if fmt then [0x20] else []) else []) @ array_body fmt es"

fun object_body :: "bool \<Rightarrow> nat \<Rightarrow> (cstring \<times> cstring) list \<Rightarrow> cstring" where
  "object_body fmt depth [] = []"
| "object_body fmt depth ((n, e) # es) =
     (if fmt then replicate depth 0x09 else []) @ n @ 0x3a # (if fmt then [0x09] else []) @ e @
     (if es \<noteq> [] then [0x2c] else []) @ (if fmt then [0x0a] else []) @ object_body fmt depth es"

definition array_text :: "bool \<Rightarrow> cstring list \<Rightarrow> cstring" where
  "array_text fmt entries = 0x5b # array_body fmt entries @ [0x5d]"

definition object_text :: "bool \<Rightarrow> nat \<Rightarrow> (cstring \<times> cstring) list \<Rightarrow> cstring" where
  "object_text fmt depth entries =
     0x7b # (if fmt then [0x0a] else []) @ object_body fmt depth entries @
     (if fmt then replicate (depth - 1) 0x09 else []) @ [0x7d]"

definition array_len :: "bool \<Rightarrow> cstring list \<Rightarrow> nat" where
  "array_len fmt entries = 5 + sum_list (map (\<lambda>e. length e + 2 + (if fmt then 1 else 0)) entries)"

definition object_len :: "bool \<Rightarrow> nat \<Rightarrow> (cstring \<times> cstring) list \<Rightarrow> nat" where
  "object_len fmt depth entries =
     7 + (if fmt then depth else 0) +
     sum_list (map (\<lambda>(n, e). length e + length n + 2 + (if fmt then 2 + depth else 0)) entries)"

text \<open>\<open>print_value\<close> and its cases without a \<open>printbuffer\<close>.\<close>

definition compose_array :: "mallocator \<Rightarrow> bool \<Rightarrow> nat \<Rightarrow> cstring list option outcome \<Rightarrow> cstring option outcome" where
  "compose_array mm fmt numentries entries =
     (if numentries = 0 then alloc_text mm 3 [0x5b, 0x5d]
      else if mm (word_of_nat (numentries * 4)) = None then Inr None
      else ebind entries (\<lambda>entries.
           case entries of
             None \<Rightarrow> Inr None
           | Some entries \<Rightarrow> alloc_text mm (array_len fmt entries) (array_text fmt entries)))"

definition compose_object ::
  "mallocator \<Rightarrow> bool \<Rightarrow> nat \<Rightarrow> nat \<Rightarrow> (cstring \<times> cstring) list option outcome \<Rightarrow> cstring option outcome" where
  "compose_object mm fmt depth numentries entries =
     (if numentries = 0
      then alloc_text mm (if fmt then depth + 4 else 3)
             (0x7b # (if fmt then 0x0a # replicate (depth - 1) 0x09 else []) @ [0x7d])
      else if mm (word_of_nat (numentries * 4)) = None then Inr None
      else ebind entries (\<lambda>entries.
           case entries of
             None \<Rightarrow> Inr None
           | Some entries \<Rightarrow> alloc_text mm (object_len fmt (depth + 1) entries) (object_text fmt (depth + 1) entries)))"

fun print_value :: "'d doubles \<Rightarrow> mallocator \<Rightarrow> nat \<Rightarrow> bool \<Rightarrow> 'd cJSON \<Rightarrow> cstring option outcome"
  and print_entries :: "'d doubles \<Rightarrow> mallocator \<Rightarrow> nat \<Rightarrow> bool \<Rightarrow> 'd cJSON list \<Rightarrow> cstring list option outcome"
  and print_members ::
    "'d doubles \<Rightarrow> mallocator \<Rightarrow> nat \<Rightarrow> bool \<Rightarrow> 'd cJSON list \<Rightarrow> (cstring \<times> cstring) list option outcome" where
  "print_value D mm depth fmt (Item t vs vi vd n ch) =
     (case t of
        cJSON_NULL \<Rightarrow> cJSON_strdup mm lit_null
      | cJSON_False \<Rightarrow> cJSON_strdup mm lit_false
      | cJSON_True \<Rightarrow> cJSON_strdup mm lit_true
      | cJSON_Number \<Rightarrow> print_number D mm (Item t vs vi vd n ch)
      | cJSON_String \<Rightarrow> print_string mm (Item t vs vi vd n ch)
      | cJSON_Array \<Rightarrow> compose_array mm fmt (length ch) (print_entries D mm (depth + 1) fmt ch)
      | cJSON_Object \<Rightarrow> compose_object mm fmt depth (length ch) (print_members D mm (depth + 1) fmt ch))"
| "print_entries D mm depth fmt [] = Inr (Some [])"
| "print_entries D mm depth fmt (c # cs) =
     ebind (print_value D mm depth fmt c) (\<lambda>ret.
     case ret of
       None \<Rightarrow> Inr None
     | Some ret \<Rightarrow> ebind (print_entries D mm depth fmt cs) (\<lambda>rest. Inr (map_option ((#) ret) rest)))"
| "print_members D mm depth fmt [] = Inr (Some [])"
| "print_members D mm depth fmt (c # cs) =
     ebind (print_string_ptr mm (jstring c)) (\<lambda>str.
     ebind (print_value D mm depth fmt c) (\<lambda>ret.
     ebind (print_members D mm depth fmt cs) (\<lambda>rest.
     Inr (case (str, ret, rest) of (Some str, Some ret, Some rest) \<Rightarrow> Some ((str, ret) # rest) | _ \<Rightarrow> None))))"

definition cJSON_Print :: "'d doubles \<Rightarrow> mallocator \<Rightarrow> 'd cJSON \<Rightarrow> cstring option outcome" where
  "cJSON_Print D mm item = print_value D mm 0 True item"

definition cJSON_PrintUnformatted :: "'d doubles \<Rightarrow> mallocator \<Rightarrow> 'd cJSON \<Rightarrow> cstring option outcome" where
  "cJSON_PrintUnformatted D mm item = print_value D mm 0 False item"

section \<open>Characters\<close>

lemma peek_simps [simp]: "peek [] = 0" "peek (c # s) = c"
  by (simp_all add: peek_def)

lemma skip_nonblank: "s = [] \<or> peek s > 32 \<or> peek s = 0 \<Longrightarrow> skip s = s"
  by (cases s) (auto simp: not_less)

lemma skip_length: "length (skip s) \<le> length s"
  by (induction s rule: skip.induct) auto

lemma skip_replicate [simp]: "c \<noteq> 0 \<Longrightarrow> c \<le> 32 \<Longrightarrow> skip (replicate n c @ s) = skip s"
  by (induction n) auto

text \<open>The small words, for proofs by inspection.\<close>

lemma word_cases_below:
  fixes c :: u8
  assumes "c < word_of_nat n" "n < 256"
  shows "c \<in> set (map word_of_nat [0..<n])"
proof -
  have "unat c < n" using assms by (simp add: word_less_nat_alt unat_of_nat)
  then show ?thesis by (auto intro!: image_eqI [of c word_of_nat "unat c"])
qed

lemma all_below_32: "(\<forall>c::u8. c < 32 \<longrightarrow> P c) \<longleftrightarrow> list_all P (map word_of_nat [0..<32])"
  using word_cases_below [of _ 32] by (auto simp: list_all_iff word_less_nat_alt unat_of_nat)

lemma digit_char:
  assumes "d < 10"
  shows "is_digit (0x30 + word_of_nat d)" "dig (0x30 + word_of_nat d) = int d"
    "0 < d \<Longrightarrow> 0x31 \<le> (0x30 + word_of_nat d :: u8)" "(0x30 + word_of_nat d :: u8) \<le> 0x39"
proof -
  have u: "unat (0x30 + word_of_nat d :: u8) = 48 + d"
    using assms by (simp add: unat_word_ariths unat_of_nat)
  then show "is_digit (0x30 + word_of_nat d)" "dig (0x30 + word_of_nat d) = int d"
    "0 < d \<Longrightarrow> 0x31 \<le> (0x30 + word_of_nat d :: u8)" "(0x30 + word_of_nat d :: u8) \<le> 0x39"
    using assms by (auto simp: is_digit_def dig_def word_le_nat_alt unat_of_nat)
qed

section \<open>Strings are printed and read back\<close>

definition json_string :: "cstring \<Rightarrow> cstring" where
  "json_string s = 0x22 # concat (map escape_char s) @ [0x22]"

lemma all_below_16: "(\<forall>c::u8. c < 16 \<longrightarrow> P c) \<longleftrightarrow> list_all P (map word_of_nat [0..<16])"
  using word_cases_below [of _ 16] by (auto simp: list_all_iff word_less_nat_alt unat_of_nat)

lemma hex_digit_char: "d < 16 \<Longrightarrow> hex_digit (hex_char d) = Some (ucast d)"
proof -
  have "\<forall>d::u8. d < 16 \<longrightarrow> hex_digit (hex_char d) = Some (ucast d)"
    unfolding all_below_16 by (simp add: upt_rec hex_digit_def hex_char_def)
  then show "d < 16 \<Longrightarrow> hex_digit (hex_char d) = Some (ucast d)" by blast
qed

lemma hex_char_plain: "d < 16 \<Longrightarrow> hex_char d \<notin> {0, 0x22, 0x5c}"
  using hex_digit_char [of d] by (auto simp: hex_digit_def)

lemma control_nibbles:
  fixes c :: u8
  assumes "c < 32"
  shows "drop_bit 4 c < 16" "c AND 0xf < 16" "push_bit 4 (ucast (drop_bit 4 c)) + ucast (c AND 0xf) = (ucast c :: u32)"
    "utf8 (ucast c) = [c]"
proof -
  have "\<forall>c::u8. c < 32 \<longrightarrow> drop_bit 4 c < 16 \<and> c AND 0xf < 16 \<and>
      push_bit 4 (ucast (drop_bit 4 c)) + ucast (c AND 0xf) = (ucast c :: u32)"
    unfolding all_below_32 by (simp add: upt_rec)
  with assms show "drop_bit 4 c < 16" "c AND 0xf < 16"
    "push_bit 4 (ucast (drop_bit 4 c)) + ucast (c AND 0xf) = (ucast c :: u32)" by blast+
  have "\<forall>c::u8. c < 32 \<longrightarrow> utf8 (ucast c) = [c]"
    unfolding all_below_32 by (simp add: upt_rec utf8_def utf8_len_def firstByteMark_def)
  with assms show "utf8 (ucast c) = [c]" by blast
qed

lemma hex_loop_numeral:
  "hex_loop (numeral k) h s =
     (case hex_digit (peek s) of None \<Rightarrow> 0 | Some d \<Rightarrow> hex_loop (pred_numeral k) (push_bit 4 h + d) (tl s))"
  by (simp add: numeral_eq_Suc)

lemma parse_hex4_control:
  assumes "c < 32"
  shows "parse_hex4 (0x30 # 0x30 # hex_char (drop_bit 4 c) # hex_char (c AND 0xf) # rest) = ucast c"
proof -
  have zero: "hex_digit 0x30 = Some 0" by (simp add: hex_digit_def)
  have "parse_hex4 (0x30 # 0x30 # hex_char (drop_bit 4 c) # hex_char (c AND 0xf) # rest) =
      push_bit 4 (ucast (drop_bit 4 c)) + ucast (c AND 0xf)"
    by (simp add: parse_hex4_def hex_loop_numeral zero hex_digit_char control_nibbles(1,2) [OF assms])
  then show ?thesis using control_nibbles(3) [OF assms] by simp
qed

lemma escape_char_id: "c > 31 \<Longrightarrow> c \<noteq> 0x22 \<Longrightarrow> c \<noteq> 0x5c \<Longrightarrow> escape_char c = [c]"
  by (simp add: escape_char_def)

lemma not_less_32: "\<not> (c::u8) < 32 \<longleftrightarrow> c > 31"
  by unat_arith

lemma escape_char_control:
  "c < 32 \<Longrightarrow> c \<notin> {8, 9, 10, 12, 13} \<Longrightarrow>
   escape_char c = [0x5c, 0x75, 0x30, 0x30, hex_char (drop_bit 4 c), hex_char (c AND 0xf)]"
  by (auto simp: escape_char_def not_less_32 [symmetric])

lemma escape_cases [case_names plain short control]:
  obtains "escape_char c = [c]" "c \<noteq> 0x22" "c \<noteq> 0x5c"
  | e where "escape_char c = [0x5c, e]" "(e, c) \<in> {(0x5c, 0x5c), (0x22, 0x22), (0x62, 8), (0x66, 12), (0x6e, 10), (0x72, 13), (0x74, 9)}"
  | "c < 32" "escape_char c = [0x5c, 0x75, 0x30, 0x30, hex_char (drop_bit 4 c), hex_char (c AND 0xf)]"
  using escape_char_control [of c] not_less_32 [of c] that
  by (cases "c \<in> {0x22, 0x5c, 8, 9, 10, 12, 13}"; cases "c < 32") (auto simp: escape_char_def)

lemma string_len_escape:
  assumes "c \<noteq> 0"
  shows "\<exists>m \<ge> 1. m \<le> length (escape_char c) \<and> (\<forall>s n. string_len (escape_char c @ s) n = string_len s (n + m))"
proof (cases rule: escape_cases [of c])
  case plain
  then show ?thesis using assms by auto
next
  case short
  then show ?thesis by (intro exI [of _ 1]) auto
next
  case control
  have "string_len (escape_char c @ s) n = string_len s (Suc (Suc (Suc (Suc (Suc n)))))" for s n
    using hex_char_plain [OF control_nibbles(1) [OF control(1)]] hex_char_plain [OF control_nibbles(2) [OF control(1)]]
    by (simp add: control(2))
  moreover have "Suc (Suc (Suc (Suc (Suc n)))) = n + 5" for n by simp
  ultimately have "string_len (escape_char c @ s) n = string_len s (n + 5)" for s n by metis
  then show ?thesis using control(2) by (intro exI [of _ 5]) (simp del: string_len.simps)
qed

lemma unescape_u_control:
  assumes "c < 32" "c \<noteq> 0" "length out < cap"
  shows "unescape cap out (0x75 # 0x30 # 0x30 # hex_char (drop_bit 4 c) # hex_char (c AND 0xf) # s) =
    Inr (out @ [c], hex_char (c AND 0xf) # s)"
proof -
  have "\<forall>c::u8. c < 32 \<longrightarrow> \<not> 0xDC00 \<le> (ucast c :: u32) \<and> \<not> 0xD800 \<le> (ucast c :: u32) \<and> ((ucast c :: u32) = 0 \<longrightarrow> c = 0)"
    unfolding all_below_32 by (simp add: upt_rec word_le_nat_alt)
  with assms have "\<not> 0xDC00 \<le> (ucast c :: u32)" "\<not> 0xD800 \<le> (ucast c :: u32)" "(ucast c :: u32) \<noteq> 0"
    by blast+
  then show ?thesis
    using parse_hex4_control [OF assms(1), of s] control_nibbles(4) [OF assms(1)] assms(3)
    by (simp add: unescape_def unescape_u_def advance_def put_def)
qed

lemma string_loop_escape:
  assumes c: "c \<noteq> 0" and room: "length out < cap"
  shows "string_loop cap out (escape_char c @ s) = string_loop cap (out @ [c]) s"
proof (cases rule: escape_cases [of c])
  case plain
  then show ?thesis using assms by (subst string_loop.simps) (simp add: put_def)
next
  case (short e)
  then have "unescape cap out (e # s) = Inr (out @ [c], e # s)"
    using room by (auto simp: unescape_def put_def)
  then show ?thesis using short(1) by (subst string_loop.simps) (simp add: advance_def)
next
  case control
  then show ?thesis
    using unescape_u_control [OF control(1) c room, of s] by (subst string_loop.simps) (simp add: advance_def)
qed

lemma string_len_printed:
  assumes "is_cstring str"
  shows "\<exists>m \<ge> length str. m \<le> length (concat (map escape_char str)) \<and>
    string_len (concat (map escape_char str) @ 0x22 # s) n = Inr (n + m)"
  using assms
proof (induction str arbitrary: n)
  case (Cons c str)
  then obtain k where k: "k \<ge> 1" "k \<le> length (escape_char c)"
    "\<And>s n. string_len (escape_char c @ s) n = string_len s (n + k)"
    using string_len_escape [of c] by (auto simp: is_cstring_def)
  from Cons obtain m where "m \<ge> length str" "m \<le> length (concat (map escape_char str))"
    "string_len (concat (map escape_char str) @ 0x22 # s) (n + k) = Inr (n + k + m)"
    by (auto simp: is_cstring_def)
  with k show ?case by (intro exI [of _ "k + m"]) simp
qed (simp add: is_cstring_def)

lemma string_loop_printed:
  assumes "is_cstring str" "length out + length str \<le> cap"
  shows "string_loop cap out (concat (map escape_char str) @ 0x22 # s) = Inr (out @ str, 0x22 # s)"
  using assms
proof (induction str arbitrary: out)
  case Nil
  then show ?case by (subst string_loop.simps) simp
next
  case (Cons c str)
  then have "string_loop cap out (escape_char c @ concat (map escape_char str) @ 0x22 # s) =
      string_loop cap (out @ [c]) (concat (map escape_char str) @ 0x22 # s)"
    by (intro string_loop_escape) (auto simp: is_cstring_def)
  with Cons show ?case by (simp add: is_cstring_def)
qed

lemma parse_string_printed:
  assumes mm: "byte_malloc mm limit" and str: "is_cstring str" and room: "length (json_string str) \<le> limit"
  shows "parse_string mm item (json_string str @ s) =
    Inr (Inr (set_type cJSON_String (set_valuestring (Some str) item), s))"
proof -
  obtain m where m: "m \<ge> length str" "m \<le> length (concat (map escape_char str))"
    "string_len (concat (map escape_char str) @ 0x22 # s) 0 = Inr m"
    using string_len_printed [OF str, of s 0] by auto
  have "m + 1 \<le> limit" using m(2) room by (simp add: json_string_def)
  then have "unat (word_of_nat (m + 1) :: u32) \<le> limit"
    using byte_malloc.limit_less [OF mm] by (subst unat_of_nat_no_wrap) simp_all
  then obtain d where "mm (word_of_nat (m + 1)) = Some d"
    using byte_malloc.mm_total [OF mm] by blast
  moreover have "string_loop (m + 1) [] (concat (map escape_char str) @ 0x22 # s) = Inr (str, 0x22 # s)"
    using string_loop_printed [OF str, of "[]" "m + 1" s] m(1) by simp
  moreover have "cstr (str @ [0]) = str" using str by (auto simp: cstr_def is_cstring_def takeWhile_tail)
  ultimately show ?thesis using m by (simp add: parse_string_def json_string_def put_def)
qed

section \<open>Numbers\<close>

text \<open>
  Double-precision arithmetic is exact on the integers it can represent, up to \<open>2\<^sup>5\<^sup>3\<close>; a product of zero
  and a negative integer, which is the negative zero, is left out.
\<close>

definition exact_integers :: "'d doubles \<Rightarrow> bool" where
  "exact_integers D \<longleftrightarrow>
     (\<forall>a b. abs (a + b) \<le> 2 ^ 53 \<longrightarrow> abs a \<le> 2 ^ 53 \<longrightarrow> abs b \<le> 2 ^ 53 \<longrightarrow> d_add D (d_int D a) (d_int D b) = d_int D (a + b)) \<and>
     (\<forall>a b. abs (a - b) \<le> 2 ^ 53 \<longrightarrow> abs a \<le> 2 ^ 53 \<longrightarrow> abs b \<le> 2 ^ 53 \<longrightarrow> d_sub D (d_int D a) (d_int D b) = d_int D (a - b)) \<and>
     (\<forall>a b. (a * b = 0 \<longrightarrow> 0 \<le> a \<and> 0 \<le> b) \<longrightarrow> abs (a * b) \<le> 2 ^ 53 \<longrightarrow> abs a \<le> 2 ^ 53 \<longrightarrow> abs b \<le> 2 ^ 53 \<longrightarrow> d_mul D (d_int D a) (d_int D b) = d_int D (a * b)) \<and>
     (\<forall>a b. abs a \<le> 2 ^ 53 \<longrightarrow> abs b \<le> 2 ^ 53 \<longrightarrow>
        d_le D (d_int D a) (d_int D b) = (a \<le> b) \<and> d_eq D (d_int D a) (d_int D b) = (a = b)) \<and>
     d_fabs D (d_int D 0) = d_int D 0 \<and> d_le D (d_int D 0) (DBL_EPSILON D) \<and>
     d_pow D (d_int D 10) (d_int D 0) = d_int D 1 \<and>
     (\<forall>a. - (2 ^ 31) \<le> a \<longrightarrow> a < 2 ^ 31 \<longrightarrow> d_to_int D (d_int D a) = a)"

lemma exact_rules:
  assumes "exact_integers D"
  shows "abs (a + b) \<le> 2 ^ 53 \<Longrightarrow> abs a \<le> 2 ^ 53 \<Longrightarrow> abs b \<le> 2 ^ 53 \<Longrightarrow> d_add D (d_int D a) (d_int D b) = d_int D (a + b)"
    and "abs (a - b) \<le> 2 ^ 53 \<Longrightarrow> abs a \<le> 2 ^ 53 \<Longrightarrow> abs b \<le> 2 ^ 53 \<Longrightarrow> d_sub D (d_int D a) (d_int D b) = d_int D (a - b)"
    and "(a * b = 0 \<Longrightarrow> 0 \<le> a \<and> 0 \<le> b) \<Longrightarrow> abs (a * b) \<le> 2 ^ 53 \<Longrightarrow> abs a \<le> 2 ^ 53 \<Longrightarrow> abs b \<le> 2 ^ 53 \<Longrightarrow> d_mul D (d_int D a) (d_int D b) = d_int D (a * b)"
    and "abs a \<le> 2 ^ 53 \<Longrightarrow> abs b \<le> 2 ^ 53 \<Longrightarrow> d_le D (d_int D a) (d_int D b) = (a \<le> b)"
    and "abs a \<le> 2 ^ 53 \<Longrightarrow> abs b \<le> 2 ^ 53 \<Longrightarrow> d_eq D (d_int D a) (d_int D b) = (a = b)"
    and "d_fabs D (d_int D 0) = d_int D 0" and "d_le D (d_int D 0) (DBL_EPSILON D)"
    and "d_pow D (d_int D 10) (d_int D 0) = d_int D 1"
    and "- (2 ^ 31) \<le> a \<Longrightarrow> a < 2 ^ 31 \<Longrightarrow> d_to_int D (d_int D a) = a"
  using assms unfolding exact_integers_def by blast+

lemma digits_stop: "\<not> is_digit (peek s) \<Longrightarrow> digits D n s = (n, s)"
  by (cases s) auto

lemma digits_dec_nat:
  assumes D: "exact_integers D" and "m < 2 ^ 33"
  shows "digits D (d_int D 0) (dec_nat m @ s) = digits D (d_int D (int m)) s"
  using assms(2)
proof (induction m arbitrary: s rule: dec_nat.induct)
  case (1 m)
  show ?case
  proof (cases "m < 10")
    case True
    have "d_add D (d_mul D (d_int D 0) (d_int D 10)) (d_int D (int m)) = d_int D (int m)"
      using True by (simp add: exact_rules [OF D])
    with True show ?thesis by (subst dec_nat.simps) (simp add: digit_char)
  next
    case False
    let ?q = "m div 10" and ?r = "m mod 10"
    have "digits D (d_int D 0) (dec_nat m @ s) = digits D (d_int D (int ?q)) ((0x30 + word_of_nat ?r) # s)"
      using False 1 by (subst dec_nat.simps) simp
    moreover have "d_add D (d_mul D (d_int D (int ?q)) (d_int D 10)) (d_int D (int ?r)) = d_int D (int ?q * 10 + int ?r)"
      using "1.prems" by (simp add: exact_rules [OF D])
    moreover have "int ?q * 10 + int ?r = int m" by presburger
    ultimately show ?thesis by (simp add: digit_char)
  qed
qed

lemma dec_nat_head:
  "0 < m \<Longrightarrow> \<exists>c s. dec_nat m = c # s \<and> 0x31 \<le> c \<and> c \<le> 0x39"
proof (induction m rule: dec_nat.induct)
  case (1 m)
  show ?case
  proof (cases "m < 10")
    case True
    then show ?thesis using "1.prems" by (subst dec_nat.simps) (simp add: digit_char)
  next
    case False
    then have "0 < m div 10" by simp
    with False 1 obtain c s where "dec_nat (m div 10) = c # s" "0x31 \<le> c" "c \<le> 0x39" by auto
    with False show ?thesis by (subst dec_nat.simps) simp
  qed
qed

lemma dec_nat_length: "m < 10 ^ k \<Longrightarrow> 0 < k \<Longrightarrow> length (dec_nat m) \<le> k"
proof (induction k arbitrary: m)
  case (Suc k)
  show ?case
  proof (cases "m < 10")
    case True
    then show ?thesis by (subst dec_nat.simps) simp
  next
    case False
    then have "m div 10 < 10 ^ k" "0 < k" using Suc.prems by (cases k; simp add: less_mult_imp_div_less mult.commute)+
    with False show ?thesis using Suc.IH [of "m div 10"] by (subst dec_nat.simps) simp
  qed
qed simp

text \<open>What may stand behind a number: not a digit, a point or an exponent.\<close>

definition number_end :: "cstring \<Rightarrow> bool" where
  "number_end s \<longleftrightarrow> \<not> is_digit (peek s) \<and> peek s \<notin> {0x2e, 0x65, 0x45}"

lemma parse_number_printed:
  assumes D: "exact_integers D" and i: "- (2 ^ 31) \<le> i" "i < 2 ^ 31" and s: "number_end s"
  shows "parse_number D item (fmt_d i @ s) =
    (set_type cJSON_Number (set_valueint i (set_valuedouble (d_int D i) item)), s)"
proof -
  let ?m = "nat (abs i)" and ?sign = "if i < 0 then -1 else 1 :: int"
  have fin: "d_mul D (d_mul D (d_int D ?sign) (d_int D (int ?m))) (d_pow D (d_int D 10) (d_add D (d_int D 0) (d_int D 0))) = d_int D i"
    using i by (simp add: exact_rules [OF D])
  have stop: "digits D n s = (n, s)" for n using s by (intro digits_stop) (simp add: number_end_def)
  show ?thesis
  proof (cases "i = 0")
    case True
    have "fmt_d i = [0x30]" using True by (simp add: fmt_d_def dec_nat.simps)
    moreover have "(0x31 \<le> peek s \<and> peek s \<le> 0x39) = False"
      using s unfolding number_end_def is_digit_def by (auto simp: word_le_nat_alt)
    ultimately show ?thesis
      using s fin True i exact_rules(9) [OF D, of i] by (auto simp: parse_number_def num_sign_def num_integer_def num_fraction_def num_exponent_def number_end_def Let_def)
  next
    case False
    then obtain c w where cw: "dec_nat ?m = c # w" "0x31 \<le> c" "c \<le> 0x39"
      using dec_nat_head [of ?m] by auto
    then have c: "c \<noteq> 0x30" "c \<noteq> 0x2d" by unat_arith+
    have "digits D (d_int D 0) (c # w @ s) = (d_int D (int ?m), s)"
      using digits_dec_nat [OF D, of ?m s] i stop cw(1) by simp
    then show ?thesis
      using s fin i c cw exact_rules(9) [OF D, of i] False
      by (cases "i < 0") (simp_all add: fmt_d_def parse_number_def num_sign_def num_integer_def num_fraction_def num_exponent_def number_end_def Let_def del: digits.simps)
  qed
qed

section \<open>The text of an item\<close>

text \<open>
  What the printer is meant to write for an item whose numbers are integers, and the items that
  the parser produces for such a text: the fields that belong to other types are as the fresh
  item has them, members have names and array elements have none.
\<close>

fun render :: "bool \<Rightarrow> nat \<Rightarrow> 'd cJSON \<Rightarrow> cstring" where
  "render fmt depth (Item t vs vi vd n ch) =
     (case t of
        cJSON_NULL \<Rightarrow> lit_null
      | cJSON_False \<Rightarrow> lit_false
      | cJSON_True \<Rightarrow> lit_true
      | cJSON_Number \<Rightarrow> fmt_d vi
      | cJSON_String \<Rightarrow> json_string (the vs)
      | cJSON_Array \<Rightarrow> array_text fmt (map (render fmt (depth + 1)) ch)
      | cJSON_Object \<Rightarrow>
          if ch = [] then 0x7b # (if fmt then 0x0a # replicate (depth - 1) 0x09 else []) @ [0x7d]
          else object_text fmt (depth + 1) (map (\<lambda>c. (json_string (the (jstring c)), render fmt (depth + 1) c)) ch))"

fun json_ok :: "'d doubles \<Rightarrow> 'd cJSON \<Rightarrow> bool" where
  "json_ok D (Item t vs vi vd n ch) \<longleftrightarrow>
     (vs \<noteq> None \<longleftrightarrow> t = cJSON_String) \<and> (\<forall>s \<in> set_option vs. is_cstring s) \<and>
     (case t of
        cJSON_True \<Rightarrow> vi = 1 \<and> vd = d_int D 0
      | cJSON_Number \<Rightarrow> - (2 ^ 31) \<le> vi \<and> vi < 2 ^ 31 \<and> vd = d_int D vi
      | _ \<Rightarrow> vi = 0 \<and> vd = d_int D 0) \<and>
     (t \<in> {cJSON_Array, cJSON_Object} \<or> ch = []) \<and>
     list_all (\<lambda>c. json_ok D c \<and> (jstring c \<noteq> None \<longleftrightarrow> t = cJSON_Object) \<and> (\<forall>s \<in> set_option (jstring c). is_cstring s)) ch"

declare render.simps [simp del] json_ok.simps [simp del]

definition json_text :: "'d cJSON \<Rightarrow> cstring" where
  "json_text j = render True 0 j"

lemma length_array_body:
  "length (array_body fmt es) + (if es = [] then 0 else 1 + of_bool fmt) = sum_list (map (\<lambda>e. length e + 1 + of_bool fmt) es)"
  by (induction es) auto

lemma array_len_bounds:
  "length (array_text fmt es) < array_len fmt es" "array_len fmt es \<le> 2 * length (array_text fmt es) + 8"
  "length es \<le> length (array_text fmt es)"
proof -
  have *: "sum_list (map (\<lambda>e. length e + 2 + (if fmt then 1 else 0)) es) = sum_list (map (\<lambda>e. length e + 1 + of_bool fmt) es) + length es"
    by (induction es) auto
  have "length es \<le> sum_list (map (\<lambda>e. length e + 1 + of_bool fmt) es)"
    by (induction es) auto
  then show "length (array_text fmt es) < array_len fmt es" "array_len fmt es \<le> 2 * length (array_text fmt es) + 8"
    "length es \<le> length (array_text fmt es)"
    using length_array_body [of fmt es] * by (auto simp: array_text_def array_len_def split: if_splits)
qed

lemma length_object_body:
  "length (object_body fmt depth es) + (if es = [] then 0 else 1) =
   sum_list (map (\<lambda>(n, e). length e + length n + 2 + (if fmt then 2 + depth else 0)) es)"
  by (induction fmt depth es rule: object_body.induct) auto

lemma object_len_bounds:
  "length (object_text fmt depth es) < object_len fmt depth es"
  "object_len fmt depth es \<le> length (object_text fmt depth es) + 8"
  "length es \<le> length (object_text fmt depth es)"
proof -
  have "length es \<le> sum_list (map (\<lambda>(n, e). length e + length n + 2 + (if fmt then 2 + depth else 0)) es)"
    by (induction es) auto
  then show "length (object_text fmt depth es) < object_len fmt depth es"
    "object_len fmt depth es \<le> length (object_text fmt depth es) + 8" "length es \<le> length (object_text fmt depth es)"
    using length_object_body [of fmt depth es] by (auto simp: object_text_def object_len_def split: if_splits)
qed

lemma array_text_mem: "e \<in> set es \<Longrightarrow> length e \<le> length (array_text fmt es)"
proof -
  have "e \<in> set es \<Longrightarrow> length e \<le> length (array_body fmt es)"
    by (induction es) auto
  then show "e \<in> set es \<Longrightarrow> length e \<le> length (array_text fmt es)" by (simp add: array_text_def)
qed

lemma object_text_mem: "(n, e) \<in> set es \<Longrightarrow> length n + length e \<le> length (object_text fmt depth es)"
proof -
  have "(n, e) \<in> set es \<Longrightarrow> length n + length e \<le> length (object_body fmt depth es)"
    by (induction fmt depth es rule: object_body.induct) auto
  then show "(n, e) \<in> set es \<Longrightarrow> length n + length e \<le> length (object_text fmt depth es)" by (simp add: object_text_def)
qed

lemma child_text_length:
  assumes "c \<in> set ch" "t \<in> {cJSON_Array, cJSON_Object}"
  shows "length (render fmt (depth + 1) c) \<le> length (render fmt depth (Item t vs vi vd n ch))"
    and "t = cJSON_Object \<Longrightarrow> length (json_string (the (jstring c))) \<le> length (render fmt depth (Item t vs vi vd n ch))"
    and "length ch \<le> length (render fmt depth (Item t vs vi vd n ch))"
proof -
  let ?m = "\<lambda>c. (json_string (the (jstring c)), render fmt (depth + 1) c)"
  have "length (json_string (the (jstring c))) + length (render fmt (depth + 1) c) \<le> length (object_text fmt (depth + 1) (map ?m ch))"
    using assms(1) by (intro object_text_mem) auto
  moreover have "length (render fmt (depth + 1) c) \<le> length (array_text fmt (map (render fmt (depth + 1)) ch))"
    using assms(1) by (intro array_text_mem) auto
  ultimately show "length (render fmt (depth + 1) c) \<le> length (render fmt depth (Item t vs vi vd n ch))"
    "t = cJSON_Object \<Longrightarrow> length (json_string (the (jstring c))) \<le> length (render fmt depth (Item t vs vi vd n ch))"
    "length ch \<le> length (render fmt depth (Item t vs vi vd n ch))"
    using assms array_len_bounds(3) [where es = "map (render fmt (depth + 1)) ch"]
      object_len_bounds(3) [where es = "map ?m ch"] by (auto simp: render.simps)
qed

section \<open>The printer stays inside its blocks\<close>

lemma alloc_text_ok:
  assumes "byte_malloc mm limit" "length t < n" "n \<le> limit"
  shows "alloc_text mm n t = Inr (Some t)"
proof -
  have "unat (word_of_nat n :: u32) \<le> limit"
    using assms byte_malloc.limit_less [OF assms(1)] by (subst unat_of_nat_no_wrap) simp_all
  then obtain d where "mm (word_of_nat n) = Some d" using byte_malloc.mm_total [OF assms(1)] by blast
  with assms show ?thesis by (simp add: alloc_text_def)
qed

lemma mm_nat_ok: "byte_malloc mm limit \<Longrightarrow> n \<le> limit \<Longrightarrow> mm (word_of_nat n) \<noteq> None"
  using alloc_text_ok [of mm limit "[]" "max n 1"] byte_malloc.mm_total [of mm limit "word_of_nat n"] byte_malloc.limit_less [of mm limit]
  by (auto simp: unat_of_nat_no_wrap)

lemma length_escape: "c \<noteq> 0 \<Longrightarrow> length (escape_char c) = escape_len c"
  by (cases "c < 32") (auto simp: escape_char_def escape_len_def simp flip: not_less_32)

lemma escape_plain:
  assumes "is_cstring str" "\<not> list_ex (\<lambda>c. c > 0 \<and> c < 32 \<or> c = 0x22 \<or> c = 0x5c) str"
  shows "concat (map escape_char str) = str"
  using assms
proof (induction str)
  case (Cons c str)
  then have "c \<noteq> 0" "\<not> (c > 0 \<and> c < 32 \<or> c = 0x22 \<or> c = 0x5c)" by (auto simp: is_cstring_def)
  then have "escape_char c = [c]" by (intro escape_char_id) (auto simp: not_less_32 word_gt_0)
  with Cons show ?case by (simp add: is_cstring_def)
qed simp

lemma print_string_ptr_json:
  assumes mm: "byte_malloc mm limit" and str: "is_cstring str" and room: "length (json_string str) < limit"
  shows "print_string_ptr mm (Some str) = Inr (Some (json_string str))"
proof -
  have "length (concat (map escape_char str)) = sum_list (map escape_len str)"
    using str by (induction str) (auto simp: length_escape is_cstring_def)
  then show ?thesis
    using room escape_plain [OF str] by (auto simp: print_string_ptr_def json_string_def alloc_text_ok [OF mm])
qed

lemma print_number_json:
  assumes mm: "byte_malloc mm limit" and D: "exact_integers D" and i: "- (2 ^ 31) \<le> i" "i < 2 ^ 31"
  shows "print_number D mm (Item t vs i (d_int D i) n ch) = Inr (Some (fmt_d i))"
proof -
  have lim: "21 \<le> limit" "2 \<le> limit" using byte_malloc.limit_ge [OF mm] by simp_all
  have "nat i < 10 ^ 11" "nat (- i) < 10 ^ 11" using i by simp_all
  then have len: "length (fmt_d i) < 21"
    using dec_nat_length [of "nat i" 11] dec_nat_length [of "nat (- i)" 11] by (auto simp: fmt_d_def)
  show ?thesis
    using i lim len
    by (auto simp: print_number_def Let_def exact_rules [OF D] fmt_d_def dec_nat.simps [of 0] alloc_text_ok [OF mm])
qed

lemma print_value_render:
  assumes mm: "byte_malloc mm limit" and D: "exact_integers D"
  shows "json_ok D j \<Longrightarrow> 4 * length (render fmt depth j) + 64 \<le> limit \<Longrightarrow>
    print_value D mm depth fmt j = Inr (Some (render fmt depth j))"
proof (induction j arbitrary: depth)
  case (Item t vs vi vd n ch)
  let ?j = "Item t vs vi vd n ch" and ?m = "\<lambda>c. (json_string (the (jstring c)), render fmt (depth + 1) c)"
  have IH: "print_value D mm (depth + 1) fmt c = Inr (Some (render fmt (depth + 1) c))"
    if "c \<in> set ch" "t \<in> {cJSON_Array, cJSON_Object}" for c
    using Item.IH [OF that(1)] Item.prems child_text_length(1) [OF that, of fmt depth vs vi vd n] that(1)
    by (force simp: json_ok.simps list_all_iff)
  have ent: "set cs \<subseteq> set ch \<Longrightarrow> t = cJSON_Array \<Longrightarrow>
      print_entries D mm (depth + 1) fmt cs = Inr (Some (map (render fmt (depth + 1)) cs))" for cs
    using IH by (induction cs) auto
  have nm: "print_string_ptr mm (jstring c) = Inr (Some (json_string (the (jstring c))))"
    if "c \<in> set ch" "t = cJSON_Object" for c
    using print_string_ptr_json [OF mm] that Item.prems child_text_length(2) [OF that(1), of t fmt depth vs vi vd n]
    by (auto simp: json_ok.simps list_all_iff)
  have mem: "set cs \<subseteq> set ch \<Longrightarrow> t = cJSON_Object \<Longrightarrow>
      print_members D mm (depth + 1) fmt cs = Inr (Some (map ?m cs))" for cs
    using IH nm by (induction cs) auto
  have four: "mm (word_of_nat (length ch * 4)) \<noteq> None" if "ch \<noteq> []" "t \<in> {cJSON_Array, cJSON_Object}"
  proof (rule mm_nat_ok [OF mm])
    show "length ch * 4 \<le> limit"
      using child_text_length(3) [of "hd ch" ch t fmt depth vs vi vd n] that Item.prems(2) by simp
  qed
  show ?case
  proof (cases t)
    case cJSON_Number
    then show ?thesis using print_number_json [OF mm D, of vi] Item.prems by (simp add: json_ok.simps render.simps)
  next
    case cJSON_String
    then show ?thesis using print_string_ptr_json [OF mm] Item.prems
      by (auto simp: json_ok.simps render.simps print_string_def)
  next
    case cJSON_Array
    then show ?thesis
      using four ent [of ch] Item.prems array_len_bounds [where fmt = fmt and es = "map (render fmt (depth + 1)) ch"]
      by (cases "ch = []") (auto simp: compose_array_def render.simps array_text_def alloc_text_ok [OF mm])
  next
    case cJSON_Object
    then show ?thesis
      using four mem [of ch] Item.prems object_len_bounds [where fmt = fmt and depth = "depth + 1" and es = "map ?m ch"]
      by (cases "ch = []") (auto simp: compose_object_def render.simps alloc_text_ok [OF mm])
  qed (use Item.prems in \<open>auto simp: render.simps cJSON_strdup_def lit_null_def lit_true_def lit_false_def alloc_text_ok [OF mm]\<close>)
qed

section \<open>The parser reads the text of an item\<close>

definition array_rest :: "bool \<Rightarrow> cstring list \<Rightarrow> cstring" where
  "array_rest fmt es = concat (map (\<lambda>e. 0x2c # (if fmt then [0x20] else []) @ e) es)"

lemma array_body_rest: "array_body fmt (e # es) = e @ array_rest fmt es"
  by (induction es arbitrary: e) (auto simp: array_rest_def)

definition object_tail :: "bool \<Rightarrow> nat \<Rightarrow> (cstring \<times> cstring) list \<Rightarrow> cstring" where
  "object_tail fmt depth es =
     (if es \<noteq> [] then [0x2c] else []) @ (if fmt then [0x0a] else []) @ object_body fmt depth es @
     (if fmt then replicate (depth - 1) 0x09 else []) @ [0x7d]"

definition member_text :: "bool \<Rightarrow> cstring \<Rightarrow> cstring \<Rightarrow> cstring" where
  "member_text fmt n e = n @ 0x3a # (if fmt then [0x09] else []) @ e"

lemma object_tail_Cons:
  "object_tail fmt depth ((n, e) # es) =
   0x2c # (if fmt then 0x0a # replicate depth 0x09 else []) @ member_text fmt n e @ object_tail fmt depth es"
  "object_text fmt depth ((n, e) # es) =
   0x7b # (if fmt then 0x0a # replicate depth 0x09 else []) @ member_text fmt n e @ object_tail fmt depth es"
  by (auto simp: object_tail_def object_text_def member_text_def)

lemma starts_simps [simp]: "starts s []" "\<not> starts [] (d # l)" "starts (c # s) (d # l) \<longleftrightarrow> c = d \<and> starts s l"
  by (auto simp: starts_def)

lemma fmt_d_head: "\<exists>c w. fmt_d i = c # w \<and> (c = 0x2d \<or> is_digit c)"
proof (cases "i = 0")
  case True
  then show ?thesis by (simp add: fmt_d_def dec_nat.simps is_digit_def)
next
  case False
  then obtain c w where "dec_nat (nat \<bar>i\<bar>) = c # w" "0x31 \<le> c" "c \<le> 0x39"
    using dec_nat_head [of "nat \<bar>i\<bar>"] by auto
  with False show ?thesis
    by (cases "i < 0") (auto simp: fmt_d_def is_digit_def intro: order_trans [of "0x30" "0x31"])
qed

lemma digit_range: "is_digit c \<Longrightarrow> c > 32 \<and> c \<notin> {0x22, 0x2c, 0x5b, 0x5d, 0x66, 0x6e, 0x74, 0x7b, 0x7d}"
  by (auto simp: is_digit_def word_le_nat_alt word_less_nat_alt)

lemma render_head: "\<exists>c w. render fmt depth j = c # w \<and> c > 32 \<and> c \<noteq> 0x5d"
proof (cases j)
  case (Item t vs vi vd n ch)
  then show ?thesis
    using fmt_d_head [of vi] digit_range
    by (cases t)
       (fastforce simp: render.simps lit_null_def lit_false_def lit_true_def json_string_def array_text_def object_text_def)+
qed

lemma skip_render: "skip (render fmt depth j @ s) = render fmt depth j @ s"
  using render_head [of fmt depth j] by (auto intro!: skip_nonblank)

lemma with_item_ok: "byte_malloc mm limit \<Longrightarrow> with_item D mm k = k (zero_item D)"
  using byte_malloc.mm_total [of mm limit sizeof_cJSON] byte_malloc.limit_ge [of mm limit]
  by (auto simp: with_item_def cJSON_New_Item_def sizeof_cJSON_def)

lemma pbind_simps [simp]: "pbind (Inr (Inr (x, s))) k = k x s" "pbind (Inr (Inl e)) k = Inr (Inl e)" "pbind (Inl f) k = Inl f"
  by (simp_all add: pbind_def)

definition value_item :: "'d doubles \<Rightarrow> json_type \<Rightarrow> 'd cJSON \<Rightarrow> 'd cJSON" where
  "value_item D t j = Item t None 0 (d_int D 0) (jstring j) []"

text \<open>What the loops know of \<open>parse_value\<close>: it reads the text of each child if fewer than \<open>N\<close> characters are left.\<close>

definition reads :: "'d doubles \<Rightarrow> ('d cJSON \<Rightarrow> cstring \<Rightarrow> 'd cJSON parsed) \<Rightarrow> ('d cJSON \<Rightarrow> cstring) \<Rightarrow> nat \<Rightarrow> 'd cJSON \<Rightarrow> bool" where
  "reads D pv r N c \<longleftrightarrow>
     (\<forall>t s. number_end s \<longrightarrow> length (r c @ s) < N \<longrightarrow> pv (value_item D t c) (r c @ s) = Inr (Inr (c, s)))"

lemma readsD: "reads D pv r N c \<Longrightarrow> number_end s \<Longrightarrow> length (r c @ s) < N \<Longrightarrow> pv (value_item D t c) (r c @ s) = Inr (Inr (c, s))"
  by (simp add: reads_def)

lemma number_end_simps [simp]: "number_end (0x2c # s)" "number_end (0x5d # s)" "number_end (0x7d # s)" "number_end (0x0a # s)" "number_end []"
  by (auto simp: number_end_def is_digit_def)

lemma number_end_array: "number_end (array_rest fmt es @ 0x5d # s)"
  by (cases es) (auto simp: array_rest_def)

lemma number_end_object: "number_end (object_tail fmt depth es @ s)"
  by (cases es; cases fmt) (auto simp: object_tail_def)

lemma array_loop_entries:
  assumes mm: "byte_malloc mm limit"
  shows "list_all (\<lambda>c. reads D pv (render fmt depth) N c \<and> jstring c = None) cs \<Longrightarrow>
    length (array_rest fmt (map (render fmt depth) cs) @ 0x5d # s) \<le> N \<Longrightarrow> length cs < k \<Longrightarrow>
    array_loop D mm pv k xs item (array_rest fmt (map (render fmt depth) cs) @ 0x5d # s) = Inr (Inr (set_child (xs @ cs) item, s))"
proof (induction cs arbitrary: xs k)
  case Nil
  then obtain k' where "k = Suc k'" by (cases k) auto
  then show ?case by (simp add: array_rest_def)
next
  case (Cons c cs)
  then obtain k' where k: "k = Suc k'" "length cs < k'" by (cases k) auto
  let ?s = "array_rest fmt (map (render fmt depth) cs) @ 0x5d # s"
  have split: "array_rest fmt (map (render fmt depth) (c # cs)) @ 0x5d # s =
      0x2c # (if fmt then [0x20] else []) @ render fmt depth c @ ?s"
    by (simp add: array_rest_def)
  have sk: "skip ((if fmt then [0x20] else []) @ render fmt depth c @ ?s) = render fmt depth c @ ?s"
    by (simp add: skip_render)
  have len: "length (render fmt depth c @ ?s) < N" using Cons.prems(2) unfolding split by simp
  have "pv (zero_item D) (render fmt depth c @ ?s) = Inr (Inr (c, ?s))"
    using readsD [where r = "render fmt depth" and t = cJSON_False, OF _ number_end_array len] Cons.prems(1)
    by (simp add: value_item_def zero_item_def)
  moreover have "skip ?s = ?s"
    by (cases cs) (auto simp: array_rest_def intro!: skip_nonblank)
  moreover have "array_loop D mm pv k' (xs @ [c]) item ?s = Inr (Inr (set_child ((xs @ [c]) @ cs) item, s))"
    using Cons.prems(1) k(2) len by (intro Cons.IH) auto
  ultimately show ?case
    unfolding k(1) split by (simp add: with_item_ok [OF mm] sk del: skip.simps)
qed

lemma parse_member_ok:
  assumes mm: "byte_malloc mm limit" and c: "jstring c = Some n" "is_cstring n" "length (json_string n) \<le> limit"
    and pv: "reads D pv (render fmt depth) N c" and s: "number_end s" "length (render fmt depth c @ s) < N"
  shows "parse_member D mm pv (skip ((if fmt then 0x0a # replicate depth' 0x09 else []) @
      member_text fmt (json_string n) (render fmt depth c) @ s)) = Inr (Inr (c, s))"
proof -
  let ?r = "0x3a # (if fmt then [0x09] else []) @ render fmt depth c @ s"
  have sk: "skip ((if fmt then 0x0a # replicate depth' 0x09 else []) @
      member_text fmt (json_string n) (render fmt depth c) @ s) = json_string n @ ?r"
    by (simp add: member_text_def json_string_def)
  have "skip ((if fmt then [0x09] else []) @ render fmt depth c @ s) = render fmt depth c @ s"
    by (simp add: skip_render)
  moreover have "pv (value_item D cJSON_String c) (render fmt depth c @ s) = Inr (Inr (c, s))"
    by (rule readsD [OF pv s])
  ultimately show ?thesis
    unfolding sk parse_member_def with_item_ok [OF mm] parse_string_printed [OF mm c(2,3)]
    by (simp add: zero_item_def value_item_def c(1) Let_def)
qed

lemma object_loop_members:
  assumes mm: "byte_malloc mm limit"
  shows "list_all (\<lambda>c. reads D pv (render fmt depth) N c \<and> (\<exists>n. jstring c = Some n \<and> is_cstring n \<and> length (json_string n) \<le> limit)) cs \<Longrightarrow>
    length (object_tail fmt depth (map (\<lambda>c. (json_string (the (jstring c)), render fmt depth c)) cs) @ s) \<le> N \<Longrightarrow>
    length cs < k \<Longrightarrow>
    object_loop D mm pv k xs item (skip (object_tail fmt depth (map (\<lambda>c. (json_string (the (jstring c)), render fmt depth c)) cs) @ s)) =
      Inr (Inr (set_child (xs @ cs) item, s))"
proof (induction cs arbitrary: xs k)
  case Nil
  then obtain k' where "k = Suc k'" by (cases k) auto
  then show ?case by (simp add: object_tail_def)
next
  case (Cons c cs)
  then obtain k' where k: "k = Suc k'" "length cs < k'" by (cases k) auto
  obtain n where n: "jstring c = Some n" "is_cstring n" "length (json_string n) \<le> limit" using Cons.prems by auto
  let ?s = "object_tail fmt depth (map (\<lambda>c. (json_string (the (jstring c)), render fmt depth c)) cs) @ s"
  have len: "length (render fmt depth c @ ?s) < N" "length ?s \<le> N"
    using Cons.prems(2) by (auto simp: object_tail_Cons member_text_def)
  have "parse_member D mm pv (skip ((if fmt then 0x0a # replicate depth 0x09 else []) @
      member_text fmt (json_string n) (render fmt depth c) @ ?s)) = Inr (Inr (c, ?s))"
    using Cons.prems(1) by (intro parse_member_ok [OF mm n _ number_end_object len(1)]) simp
  moreover have "object_loop D mm pv k' (xs @ [c]) item (skip ?s) = Inr (Inr (set_child ((xs @ [c]) @ cs) item, s))"
    using Cons.prems(1) k(2) len(2) by (intro Cons.IH) auto
  ultimately show ?case unfolding k(1) by (simp add: object_tail_Cons n(1))
qed

lemma text_starts:
  "\<not> starts (0x5b # s) lit_null" "\<not> starts (0x5b # s) lit_false" "\<not> starts (0x5b # s) lit_true"
  "\<not> starts (0x7b # s) lit_null" "\<not> starts (0x7b # s) lit_false" "\<not> starts (0x7b # s) lit_true"
  by (simp_all add: lit_null_def lit_false_def lit_true_def)

lemma parse_value_bracket:
  "parse_value D mm (Suc g) item (0x5b # s) = parse_array D mm (parse_value D mm g) g item (0x5b # s)"
  "parse_value D mm (Suc g) item (0x7b # s) = parse_object D mm (parse_value D mm g) g item (0x7b # s)"
  by (simp_all add: text_starts is_digit_def)

lemma parse_array_text:
  assumes mm: "byte_malloc mm limit" and len: "length (array_text fmt (map (render fmt depth) ch) @ s) \<le> k"
    and ch: "list_all (\<lambda>c. reads D pv (render fmt depth) k c \<and> jstring c = None) ch"
  shows "parse_array D mm pv k (Item t None 0 d n []) (array_text fmt (map (render fmt depth) ch) @ s) =
    Inr (Inr (Item cJSON_Array None 0 d n ch, s))"
proof (cases ch)
  case Nil
  then show ?thesis by (simp add: parse_array_def array_text_def)
next
  case (Cons c cs)
  let ?r = "render fmt depth" let ?s = "array_rest fmt (map ?r cs) @ 0x5d # s"
  have whole: "array_text fmt (map ?r ch) @ s = 0x5b # ?r c @ ?s"
    using Cons by (simp add: array_text_def array_body_rest del: array_body.simps)
  have pk: "peek (?r c @ ?s) \<noteq> 0x5d" using render_head [of fmt depth c] by auto
  have l: "length (?r c @ ?s) < k" using len whole by simp
  have nl: "length cs \<le> length (array_rest fmt (map ?r cs))" by (induction cs) (auto simp: array_rest_def)
  have "pv (zero_item D) (?r c @ ?s) = Inr (Inr (c, ?s))"
    using readsD [where r = ?r and t = cJSON_False, OF _ number_end_array l] ch Cons
    by (simp add: value_item_def zero_item_def)
  moreover have "skip ?s = ?s" by (cases cs) (auto simp: array_rest_def intro!: skip_nonblank)
  moreover have "array_loop D mm pv k [c] (Item cJSON_Array None 0 d n []) ?s = Inr (Inr (Item cJSON_Array None 0 d n ch, s))"
    using array_loop_entries [OF mm, where cs = cs and k = k and N = k and s = s] ch l nl Cons by simp
  ultimately show ?thesis
    unfolding whole using pk
    by (simp add: parse_array_def Let_def skip_render with_item_ok [OF mm] del: skip.simps)
qed

lemma parse_object_text:
  assumes mm: "byte_malloc mm limit" and ne: "ch \<noteq> []"
    and len: "length (object_text fmt depth (map (\<lambda>c. (json_string (the (jstring c)), render fmt depth c)) ch) @ s) \<le> k"
    and ch: "list_all (\<lambda>c. reads D pv (render fmt depth) k c \<and>
        (\<exists>n. jstring c = Some n \<and> is_cstring n \<and> length (json_string n) \<le> limit)) ch"
  shows "parse_object D mm pv k (Item t None 0 d n [])
      (object_text fmt depth (map (\<lambda>c. (json_string (the (jstring c)), render fmt depth c)) ch) @ s) =
    Inr (Inr (Item cJSON_Object None 0 d n ch, s))"
proof -
  obtain c cs where c: "ch = c # cs" using ne by (cases ch) auto
  then obtain nm where nm: "jstring c = Some nm" "is_cstring nm" "length (json_string nm) \<le> limit" using ch by auto
  let ?m = "\<lambda>c. (json_string (the (jstring c)), render fmt depth c)"
  let ?s = "object_tail fmt depth (map ?m cs) @ s" let ?t = "member_text fmt (json_string nm) (render fmt depth c) @ ?s"
  let ?w = "if fmt then 0x0a # replicate depth 0x09 else [] :: cstring"
  have whole: "object_text fmt depth (map ?m ch) @ s = 0x7b # ?w @ ?t" by (simp add: c nm object_tail_Cons)
  have sk: "skip (?w @ ?t) = ?t" by (simp add: member_text_def json_string_def)
  have pk: "peek ?t \<noteq> 0x7d" "skip ?t = ?t" by (simp_all add: member_text_def json_string_def)
  have l: "length (render fmt depth c @ ?s) < k" "length ?s \<le> k" using len unfolding whole by (simp_all add: member_text_def)
  have nl: "length cs \<le> length (object_tail fmt depth (map ?m cs))" by (induction cs) (auto simp: object_tail_Cons)
  have "parse_member D mm pv (skip (?w @ ?t)) = Inr (Inr (c, ?s))"
    using ch c by (intro parse_member_ok [OF mm nm _ number_end_object l(1)]) simp
  moreover have "object_loop D mm pv k [c] (Item cJSON_Object None 0 d n []) (skip ?s) = Inr (Inr (Item cJSON_Object None 0 d n ch, s))"
    using object_loop_members [OF mm, where cs = cs and k = k and N = k and s = s] ch l nl c by (simp add: member_text_def)
  ultimately show ?thesis
    unfolding whole sk using pk by (simp add: parse_object_def Let_def sk del: skip.simps)
qed

lemma parse_value_render:
  assumes mm: "byte_malloc mm limit" and D: "exact_integers D"
  shows "json_ok D j \<Longrightarrow> length (render fmt depth j) \<le> limit \<Longrightarrow> number_end s \<Longrightarrow> length (render fmt depth j @ s) < f \<Longrightarrow>
    parse_value D mm f (value_item D t' j) (render fmt depth j @ s) = Inr (Inr (j, s))"
proof (induction j arbitrary: depth s f t')
  case (Item t vs vi vd n ch)
  then obtain g where f: "f = Suc g" and g: "1 \<le> g"
    using render_head [of fmt depth "Item t vs vi vd n ch"] by (cases f) auto
  let ?j = "Item t vs vi vd n ch" and ?r = "render fmt (depth + 1)"
  let ?m = "\<lambda>c. (json_string (the (jstring c)), ?r c)"
  have rd: "reads D (parse_value D mm g) ?r g c" if "c \<in> set ch" "t \<in> {cJSON_Array, cJSON_Object}" for c
    unfolding reads_def
  proof (intro allI impI)
    fix t s assume "number_end s" "length (?r c @ s) < g"
    then show "parse_value D mm g (value_item D t c) (?r c @ s) = Inr (Inr (c, s))"
      using Item.prems child_text_length(1) [OF that, of fmt depth vs vi vd n] that(1)
      by (intro Item.IH) (auto simp: json_ok.simps list_all_iff)
  qed
  have nm: "\<exists>k. jstring c = Some k \<and> is_cstring k \<and> length (json_string k) \<le> limit" if "c \<in> set ch" "t = cJSON_Object" for c
    using that Item.prems child_text_length(2) [OF that(1), of t fmt depth vs vi vd n]
    by (auto simp: json_ok.simps list_all_iff)
  show ?case
  proof (cases t)
    case cJSON_Number
    obtain c w where "fmt_d vi = c # w" "c = 0x2d \<or> is_digit c" using fmt_d_head by blast
    moreover have "c \<noteq> 0x6e" "c \<noteq> 0x66" "c \<noteq> 0x74" "c \<noteq> 0x22" using calculation(2) digit_range [of c] by auto
    ultimately show ?thesis
      using cJSON_Number Item.prems parse_number_printed [OF D, of vi s "value_item D t' ?j"]
      by (simp add: f render.simps json_ok.simps lit_null_def lit_false_def lit_true_def value_item_def)
  next
    case cJSON_String
    then obtain str where "vs = Some str" "is_cstring str" using Item.prems by (auto simp: json_ok.simps)
    then show ?thesis
      using cJSON_String Item.prems parse_string_printed [OF mm, of str "value_item D t' ?j" s]
      by (auto simp: f render.simps json_ok.simps json_string_def lit_null_def lit_false_def lit_true_def value_item_def)
  next
    case cJSON_Array
    have "list_all (\<lambda>c. reads D (parse_value D mm g) ?r g c \<and> jstring c = None) ch"
      using rd cJSON_Array Item.prems(1) by (auto simp: json_ok.simps list_all_iff)
    then have "parse_array D mm (parse_value D mm g) g (value_item D t' ?j) (array_text fmt (map ?r ch) @ s) = Inr (Inr (?j, s))"
      using parse_array_text [OF mm, where ch = ch and s = s and k = g and t = t' and n = n and d = "d_int D 0"]
        cJSON_Array Item.prems f by (simp add: value_item_def json_ok.simps render.simps)
    then show ?thesis using cJSON_Array by (simp add: f render.simps array_text_def parse_value_bracket del: parse_value.simps)
  next
    case cJSON_Object
    show ?thesis
    proof (cases "ch = []")
      case True
      then show ?thesis using cJSON_Object Item.prems
        by (auto simp: f render.simps json_ok.simps parse_value_bracket parse_object_def value_item_def Let_def simp del: parse_value.simps)
    next
      case False
      have "list_all (\<lambda>c. reads D (parse_value D mm g) ?r g c \<and>
          (\<exists>n. jstring c = Some n \<and> is_cstring n \<and> length (json_string n) \<le> limit)) ch"
        using rd nm cJSON_Object by (auto simp: list_all_iff)
      then have "parse_object D mm (parse_value D mm g) g (value_item D t' ?j) (object_text fmt (depth + 1) (map ?m ch) @ s) = Inr (Inr (?j, s))"
        using parse_object_text [OF mm False, where s = s and k = g and t = t' and n = n and d = "d_int D 0"]
          cJSON_Object False Item.prems f by (simp add: value_item_def json_ok.simps render.simps)
      then show ?thesis using cJSON_Object False
        by (simp add: f render.simps object_text_def parse_value_bracket del: parse_value.simps)
    qed
  qed (use Item.prems in \<open>auto simp: f render.simps json_ok.simps lit_null_def lit_true_def lit_false_def value_item_def\<close>)
qed

section \<open>The parser ends\<close>

lemma string_loop_progress:
  "string_loop cap out ptr = Inr (out', ptr') \<Longrightarrow> length ptr' \<le> length ptr"
proof (induction cap out ptr rule: string_loop.induct)
  case (1 cap out ptr)
  show ?case
  proof (cases "peek ptr = 0x22 \<or> peek ptr = 0")
    case True
    then show ?thesis using "1.prems" by (simp add: string_loop.simps [of cap out ptr])
  next
    case False
    then show ?thesis
      using "1.prems" "1.IH"(1) [OF False] "1.IH"(2) [OF False] unescape_length [of cap out "tl ptr"]
      by (fastforce simp: string_loop.simps [of cap out ptr] c_bind advance_def put_def split: if_splits prod.splits)
  qed
qed

lemma string_len_not_Diverges: "string_len s n \<noteq> Inl Diverges"
  by (induction s n rule: string_len.induct) (auto split: list.splits)

lemma ebind_Diverges: "ebind m f = Inl Diverges \<longleftrightarrow> m = Inl Diverges \<or> (\<exists>x. m = Inr x \<and> f x = Inl Diverges)"
  by (cases m) auto

lemma string_loop_not_Diverges: "string_loop cap out ptr \<noteq> Inl Diverges"
proof (induction cap out ptr rule: string_loop.induct)
  case (1 cap out ptr)
  have "unescape cap out (tl ptr) \<noteq> Inl Diverges"
    by (auto simp: unescape_def unescape_u_def Let_def put_def advance_def ebind_Diverges)
  with 1 show ?case
    by (subst string_loop.simps) (auto simp: ebind_Diverges put_def advance_def split: if_splits)
qed

text \<open>A parser that succeeds has read something, and it does not run out of fuel.\<close>

definition progress :: "'a parsed \<Rightarrow> cstring \<Rightarrow> bool" where
  "progress r s \<longleftrightarrow> r \<noteq> Inl Diverges \<and> (\<forall>x s'. r = Inr (Inr (x, s')) \<longrightarrow> length s' < length s)"

lemma progress_simps [simp]:
  "progress (Inr (Inl e)) s" "progress (Inr (Inr (x, s'))) s \<longleftrightarrow> length s' < length s"
  by (simp_all add: progress_def)

lemma progress_pbind:
  assumes m: "progress m s" "length s \<le> length s0" and k: "\<And>x s'. length s' < length s \<Longrightarrow> progress (k x s') s0"
  shows "progress (pbind m k) s0"
proof (cases m)
  case (Inr r)
  with m k show ?thesis by (cases r) auto
qed (use m in \<open>simp add: progress_def\<close>)

lemma progress_mono: "progress r s \<Longrightarrow> length s \<le> length s' \<Longrightarrow> progress r s'"
  by (fastforce simp: progress_def)

lemma progress_with_item: "(\<And>item. progress (k item) s) \<Longrightarrow> progress (with_item D mm k) s"
  by (auto simp: with_item_def split: option.splits)

lemma peek_Cons: "peek s = c \<Longrightarrow> c \<noteq> 0 \<Longrightarrow> s = c # tl s"
  by (cases s) auto

lemma parse_string_progress: "progress (parse_string mm item s) s"
proof (cases "peek s = 0x22")
  case True
  then obtain w where s: "s = 0x22 # w" using peek_Cons by fastforce
  show ?thesis
    using string_loop_progress [where ptr = w] string_len_not_Diverges [of w 0] string_loop_not_Diverges [where ptr = w]
    by (fastforce simp: parse_string_def s progress_def ebind_Diverges c_bind put_def split: option.splits if_splits)
qed (simp add: parse_string_def)

lemma digits_length: "digits D n s = (m, s') \<Longrightarrow> length s' \<le> length s"
  by (induction D n s rule: digits.induct) (auto split: if_splits)

lemma fraction_length: "fraction D n sc s = (m, sc', s') \<Longrightarrow> length s' \<le> length s"
  by (induction D n sc s rule: fraction.induct) (auto split: if_splits)

lemma exponent_length: "exponent n s = (m, s') \<Longrightarrow> length s' \<le> length s"
  by (induction n s rule: exponent.induct) (auto split: if_splits)

lemma digits_progress: "is_digit (peek s) \<Longrightarrow> digits D n s = (m, s') \<Longrightarrow> length s' < length s"
  using digits_length by (cases s) (fastforce simp: is_digit_def split: if_splits)+

lemma digit_1_9: "is_digit c \<Longrightarrow> c \<noteq> 0x30 \<Longrightarrow> 0x31 \<le> c \<and> c \<le> 0x39"
  unfolding is_digit_def by unat_arith

lemma number_parts_length:
  "num_sign D s = (sign, s') \<Longrightarrow> length s' \<le> length s \<and> (peek s = 0x2d \<longrightarrow> length s' < length s)"
  "num_integer D s = (n, s') \<Longrightarrow> length s' \<le> length s \<and> (is_digit (peek s) \<longrightarrow> length s' < length s)"
  "num_fraction D n s = (n', scale, s') \<Longrightarrow> length s' \<le> length s"
  "num_exponent s = (subscale, signsubscale, s') \<Longrightarrow> length s' \<le> length s"
proof -
  show "num_sign D s = (sign, s') \<Longrightarrow> length s' \<le> length s \<and> (peek s = 0x2d \<longrightarrow> length s' < length s)"
    by (cases s) (auto simp: num_sign_def split: if_splits)
  show "num_fraction D n s = (n', scale, s') \<Longrightarrow> length s' \<le> length s"
    using fraction_length by (fastforce simp: num_fraction_def split: if_splits)
  show "num_exponent s = (subscale, signsubscale, s') \<Longrightarrow> length s' \<le> length s"
    using exponent_length by (fastforce simp: num_exponent_def Let_def split: if_splits prod.splits)
  assume n: "num_integer D s = (n, s')"
  show "length s' \<le> length s \<and> (is_digit (peek s) \<longrightarrow> length s' < length s)"
  proof (cases "peek s = 0x30")
    case True
    then show ?thesis using n digits_length [of D _ "tl s" n s'] by (cases s) (fastforce simp: num_integer_def Let_def split: if_splits)+
  next
    case False
    then show ?thesis
      using n digits_length [of D _ s n s'] digits_progress [of s] digit_1_9 [of "peek s"]
      by (fastforce simp: num_integer_def Let_def split: if_splits)
  qed
qed

lemma parse_number_progress:
  assumes s: "peek s = 0x2d \<or> is_digit (peek s)"
  shows "length (snd (parse_number D item s)) < length s"
proof -
  obtain sign s1 where 1: "num_sign D s = (sign, s1)" by fastforce
  obtain n s2 where 2: "num_integer D s1 = (n, s2)" by fastforce
  obtain n' scale s3 where 3: "num_fraction D n s2 = (n', scale, s3)" by (metis prod_cases3)
  obtain sub sg s4 where 4: "num_exponent s3 = (sub, sg, s4)" by (metis prod_cases3)
  have "s1 = s" if "peek s \<noteq> 0x2d" using 1 that by (simp add: num_sign_def)
  then have "length s4 < length s"
    using number_parts_length(1) [OF 1] number_parts_length(2) [OF 2] number_parts_length(3) [OF 3] number_parts_length(4) [OF 4] s
    by auto
  then show ?thesis by (simp add: parse_number_def Let_def 1 2 3 4)
qed

lemma array_loop_progress:
  assumes pv: "\<And>item s. length s < N \<Longrightarrow> progress (pv item s) s"
  shows "length s \<le> N \<Longrightarrow> length s < k \<Longrightarrow> progress (array_loop D mm pv k xs item s) s"
proof (induction k arbitrary: xs s)
  case (Suc k)
  show ?case
  proof (cases s)
    case (Cons c w)
    have "progress (with_item D mm (\<lambda>child. pbind (pv child (skip w)) (\<lambda>child s. array_loop D mm pv k (xs @ [child]) item (skip s)))) s"
    proof (intro progress_with_item progress_pbind [where s = "skip w"] pv)
      show "length (skip w) < N" "length (skip w) \<le> length s" using skip_length [of w] Suc.prems Cons by auto
      show "progress (array_loop D mm pv k (xs @ [child]) item (skip s')) s" if "length s' < length (skip w)" for child s'
        using that skip_length [of w] skip_length [of s'] Suc.prems Cons
        by (intro progress_mono [OF Suc.IH]) auto
    qed
    then show ?thesis by (auto simp: Cons)
  qed simp
qed simp

lemma parse_member_progress:
  assumes pv: "\<And>item s. length s < N \<Longrightarrow> progress (pv item s) s" and s: "length s \<le> N"
  shows "progress (parse_member D mm pv s) s"
  unfolding parse_member_def
proof (intro progress_with_item progress_pbind [where s = s])
  fix child x :: "'a cJSON" and s' :: cstring
  assume s': "length s' < length s"
  have "progress (pv c (skip (tl (skip s')))) s" for c
    using skip_length [of "tl (skip s')"] skip_length [of s'] s s' by (intro progress_mono [OF pv]) auto
  then show "progress (let child = set_valuestring None (set_string (valuestring x) x); s = skip s' in
      if peek s \<noteq> 0x3a then Inr (Inl (Some s)) else pv child (skip (tl s))) s"
    by (simp add: Let_def)
qed (simp_all add: parse_string_progress)

lemma object_loop_progress:
  assumes pv: "\<And>item s. length s < N \<Longrightarrow> progress (pv item s) s"
  shows "length s \<le> N \<Longrightarrow> length s < k \<Longrightarrow> progress (object_loop D mm pv k xs item s) s"
proof (induction k arbitrary: xs s)
  case (Suc k)
  show ?case
  proof (cases s)
    case (Cons c w)
    have "progress (pbind (parse_member D mm pv (skip w)) (\<lambda>child s. object_loop D mm pv k (xs @ [child]) item (skip s))) s"
    proof (rule progress_pbind [where s = "skip w"])
      show "progress (parse_member D mm pv (skip w)) (skip w)" "length (skip w) \<le> length s"
        using skip_length [of w] Suc.prems Cons by (auto intro!: parse_member_progress [OF pv])
      show "progress (object_loop D mm pv k (xs @ [child]) item (skip s')) s" if "length s' < length (skip w)" for child s'
        using that skip_length [of w] skip_length [of s'] Suc.prems Cons
        by (intro progress_mono [OF Suc.IH]) auto
    qed
    then show ?thesis by (auto simp: Cons)
  qed simp
qed simp

lemma parse_array_progress:
  assumes pv: "\<And>item s. length s < k \<Longrightarrow> progress (pv item s) s" and s: "length s \<le> k"
  shows "progress (parse_array D mm pv k item s) s"
proof (cases "peek s = 0x5b")
  case True
  then obtain w where w: "s = 0x5b # w" using peek_Cons by fastforce
  have sk: "length (skip (skip w)) \<le> length w" using skip_length [of w] skip_length [of "skip w"] by simp
  have "progress (with_item D mm (\<lambda>child. pbind (pv child (skip (skip w))) (\<lambda>child s.
      array_loop D mm pv k [child] (set_type cJSON_Array item) (skip s)))) s"
  proof (intro progress_with_item progress_pbind [where s = "skip (skip w)"] pv)
    show "length (skip (skip w)) < k" "length (skip (skip w)) \<le> length s" using sk s w by auto
    show "progress (array_loop D mm pv k [child] (set_type cJSON_Array item) (skip s')) s"
      if "length s' < length (skip (skip w))" for child s'
      using that sk skip_length [of s'] s w by (intro progress_mono [OF array_loop_progress [OF pv]]) auto
  qed
  then show ?thesis using skip_length [of w] by (auto simp: parse_array_def Let_def w)
qed (simp add: parse_array_def)

lemma parse_object_progress:
  assumes pv: "\<And>item s. length s < k \<Longrightarrow> progress (pv item s) s" and s: "length s \<le> k"
  shows "progress (parse_object D mm pv k item s) s"
proof (cases "peek s = 0x7b")
  case True
  then obtain w where w: "s = 0x7b # w" using peek_Cons by fastforce
  have sk: "length (skip (skip w)) \<le> length w" using skip_length [of w] skip_length [of "skip w"] by simp
  have "progress (pbind (parse_member D mm pv (skip (skip w))) (\<lambda>child s.
      object_loop D mm pv k [child] (set_type cJSON_Object item) (skip s))) s"
  proof (rule progress_pbind [where s = "skip (skip w)"])
    show "progress (parse_member D mm pv (skip (skip w))) (skip (skip w))"
      using sk s w by (intro parse_member_progress [OF pv]) auto
    show "length (skip (skip w)) \<le> length s" using sk w by simp
    show "progress (object_loop D mm pv k [child] (set_type cJSON_Object item) (skip s')) s"
      if "length s' < length (skip (skip w))" for child s'
      using that sk skip_length [of s'] s w by (intro progress_mono [OF object_loop_progress [OF pv]]) auto
  qed
  then show ?thesis using skip_length [of w] by (auto simp: parse_object_def Let_def w)
qed (simp add: parse_object_def)

lemma starts_length: "starts s lit \<Longrightarrow> length lit \<le> length s"
  by (metis starts_def length_take min.cobounded1)

lemma parse_value_progress: "length s < f \<Longrightarrow> progress (parse_value D mm f item s) s"
proof (induction f arbitrary: item s)
  case (Suc f)
  have a: "progress (parse_array D mm (parse_value D mm f) f item s) s"
    using Suc by (intro parse_array_progress) auto
  have o: "progress (parse_object D mm (parse_value D mm f) f item s) s"
    using Suc by (intro parse_object_progress) auto
  have n: "progress (Inr (Inr (parse_number D item s))) s" if "peek s = 0x2d \<or> is_digit (peek s)"
    using parse_number_progress [OF that, of D item] by (cases "parse_number D item s") simp
  have "length lit_null = 4" "length lit_false = 5" "length lit_true = 4"
    by (simp_all add: lit_null_def lit_false_def lit_true_def)
  with a o n show ?case
    using starts_length [of s lit_null] starts_length [of s lit_false] starts_length [of s lit_true]
    by (auto simp: parse_string_progress)
qed simp

section \<open>Properties of the library\<close>

lemma cJSON_Print_text:
  assumes "byte_malloc mm limit" "exact_integers D" "json_ok D j" "4 * length (json_text j) + 64 \<le> limit"
  shows "cJSON_Print D mm j = Inr (Some (json_text j))"
  using print_value_render [OF assms(1,2,3), of True 0] assms(4) by (simp add: cJSON_Print_def json_text_def)

lemma cJSON_Parse_text:
  assumes mm: "byte_malloc mm limit" and "exact_integers D" "json_ok D j" "length (json_text j) \<le> limit" and n: "jstring j = None"
  shows "cJSON_Parse D mm (json_text j) = Inr (Some j)"
proof -
  have "parse_value D mm (length (json_text j) + 1) (value_item D cJSON_False j) (render True 0 j @ []) = Inr (Inr (j, []))"
    using assms by (intro parse_value_render) (auto simp: json_text_def)
  moreover have "value_item D cJSON_False j = zero_item D" using n by (simp add: value_item_def zero_item_def)
  moreover have "skip (render True 0 j) = render True 0 j" using skip_render [of True 0 j "[]"] by simp
  ultimately show ?thesis
    by (simp add: cJSON_Parse_def cJSON_ParseWithOpts_def with_item_ok [OF mm] json_text_def)
qed

text \<open>
  C35: A JSON item whose numbers are 32-bit integers, with any strings (control characters,
  quotes and backslashes included) and any nesting of arrays and objects, is printed by
  \<open>cJSON_Print\<close> without leaving the blocks whose sizes it computes, and \<open>cJSON_Parse\<close> makes the
  same item of the text, provided that double-precision arithmetic is exact on integers and the
  heap can serve requests of four times the length of the text.
\<close>

theorem cJSON_roundtrip:
  assumes "byte_malloc mm limit" "exact_integers D" "json_ok D j" "jstring j = None" "4 * length (json_text j) + 64 \<le> limit"
  shows "\<exists>text. cJSON_Print D mm j = Inr (Some text) \<and> cJSON_Parse D mm text = Inr (Some j)"
  using cJSON_Print_text [of mm limit D j] cJSON_Parse_text [of mm limit D j] assms by simp

definition int_doubles :: "int doubles" where
  "int_doubles = \<lparr>d_int = id, d_to_int = id, d_add = (+), d_sub = (-), d_mul = (*), d_pow = (\<lambda>a b. a ^ nat b), d_fabs = abs,
     d_floor = id, d_eq = (=), d_le = (\<le>), d_lt = (<), DBL_EPSILON = 0, d_1e60 = 10 ^ 60, d_1em6 = 0, d_1e9 = 10 ^ 9,
     fmt_0f = fmt_d, fmt_e = fmt_d, fmt_f = fmt_d\<rparr>"

lemma int_doubles_exact: "exact_integers int_doubles"
  by (simp add: exact_integers_def int_doubles_def)

definition sample_item :: "int cJSON" where
  "sample_item = Item cJSON_Object None 0 0 None
     [Item cJSON_Array None 0 0 (Some [0x61, 0x22]) [Item cJSON_Number None (-17) (-17) None [], Item cJSON_True None 1 0 None []],
      Item cJSON_String (Some [0x0a, 0x01]) 0 0 (Some [0x62]) []]"

lemma sample_item_text_length: "length (json_text sample_item) \<le> 200"
  by (simp add: json_text_def sample_item_def render.simps object_text_def array_text_def json_string_def escape_char_def
      fmt_d_def dec_nat.simps lit_true_def)

theorem cJSON_roundtrip_witness:
  "\<exists>text. cJSON_Print int_doubles (pool_malloc PCB_ADDR fresh_heap) sample_item = Inr (Some text) \<and>
     cJSON_Parse int_doubles (pool_malloc PCB_ADDR fresh_heap) text = Inr (Some sample_item)"
  using cJSON_roundtrip [OF fresh.byte_malloc_axioms int_doubles_exact, of sample_item] sample_item_text_length
  by (simp add: sample_item_def json_ok.simps is_cstring_def int_doubles_def)

text \<open>
  C37: The parser ends on every text: neither the recursion nor the loops over array elements and
  object members ever run out of the number of steps given by the length of the text.
\<close>

theorem cJSON_Parse_terminates:
  "cJSON_ParseWithOpts D mm t require \<noteq> Inl Diverges"
proof -
  have "progress (parse_value D mm (length t + 1) c (skip t)) (skip t)" for c
    using skip_length [of t] by (intro parse_value_progress) simp
  then have "pbind (parse_value D mm (length t + 1) c (skip t)) (\<lambda>c stop.
      if require then let stop = skip stop in if peek stop \<noteq> 0 then Inr (Inl (Some stop)) else Inr (Inr (c, stop))
      else Inr (Inr (c, stop))) \<noteq> Inl Diverges" for c
    by (auto simp: pbind_def ebind_Diverges progress_def Let_def simp del: parse_value.simps split: sum.splits)
  then show ?thesis by (auto simp: cJSON_ParseWithOpts_def with_item_def split: option.splits)
qed

lemma string_loop_plain_overflow:
  assumes "\<forall>b \<in> set bs. b \<notin> {0, 0x22, 0x5c}" "length out \<le> cap" "cap < length out + length bs"
  shows "string_loop cap out bs = Inl OutOfBounds"
  using assms
proof (induction bs arbitrary: out)
  case (Cons b bs)
  then show ?case by (subst string_loop.simps) (auto simp: put_def not_le)
qed simp

text \<open>
  C38: A string that has a quote right behind the characters backslash and u makes the parser
  allocate two bytes, skip the closing quote and copy everything that follows into the block.
\<close>

theorem cJSON_unicode_overflow:
  assumes mm: "mm sizeof_cJSON \<noteq> None" "mm 2 \<noteq> None"
    and bs: "\<forall>b \<in> set bs. b \<notin> {0, 0x22, 0x5c}" "2 < length bs"
  shows "cJSON_Parse D mm ([0x22, 0x5c, 0x75, 0x22, x, y, z] @ bs) = Inl OutOfBounds"
proof -
  have "parse_hex4 (0x22 # s) = 0" for s by (simp add: parse_hex4_def hex_loop_numeral hex_digit_def)
  then have "unescape 2 [] ([0x75, 0x22, x, y, z] @ bs) = Inr ([], z # bs)"
    by (simp add: unescape_def unescape_u_def advance_def)
  then have "string_loop 2 [] ([0x5c, 0x75, 0x22, x, y, z] @ bs) = string_loop 2 [] bs"
    by (subst string_loop.simps) (simp add: advance_def)
  also have "\<dots> = Inl OutOfBounds" using bs by (intro string_loop_plain_overflow) auto
  finally have "parse_string mm item ([0x22, 0x5c, 0x75, 0x22, x, y, z] @ bs) = Inl OutOfBounds" for item :: "'a cJSON"
    using mm(2) by (auto simp: parse_string_def numeral_2_eq_2 [symmetric])
  then show ?thesis
    using mm(1) by (auto simp: cJSON_Parse_def cJSON_ParseWithOpts_def with_item_def cJSON_New_Item_def
        lit_null_def lit_false_def lit_true_def pbind_def)
qed

theorem cJSON_unicode_overflow_witness:
  "cJSON_Parse int_doubles (pool_malloc PCB_ADDR fresh_heap)
     ([0x22, 0x5c, 0x75, 0x22, 0x61, 0x61, 0x61] @ replicate 100 0x61) = Inl OutOfBounds"
  using cJSON_unicode_overflow [where mm = "pool_malloc PCB_ADDR fresh_heap" and bs = "replicate 100 0x61" and D = int_doubles
      and x = "0x61" and y = "0x61" and z = "0x61"]
    fresh.mm_total [of 2] fresh.mm_total [of sizeof_cJSON]
  by (auto simp: sizeof_cJSON_def)

end
