(* ===== verification/CJsonTree.thy ===== *)
theory CJsonTree
  imports CJson
begin

text \<open>
  The operations of \<open>cJSON.c\<close> on items: creation, the children of an array or object, their
  search, exchange and removal, and the copy of an item.  A pointer to an item that may be \<open>NULL\<close>
  is an option; items added by reference (\<open>create_reference\<close>) are left out.
\<close>

section \<open>Creation\<close>

definition cJSON_CreateNull :: "'d doubles \<Rightarrow> mallocator \<Rightarrow> 'd cJSON option" where
  "cJSON_CreateNull D mm = map_option (set_type cJSON_NULL) (cJSON_New_Item D mm)"

definition cJSON_CreateTrue :: "'d doubles \<Rightarrow> mallocator \<Rightarrow> 'd cJSON option" where
  "cJSON_CreateTrue D mm = map_option (set_type cJSON_True) (cJSON_New_Item D mm)"

definition cJSON_CreateFalse :: "'d doubles \<Rightarrow> mallocator \<Rightarrow> 'd cJSON option" where
  "cJSON_CreateFalse D mm = map_option (set_type cJSON_False) (cJSON_New_Item D mm)"

definition cJSON_CreateBool :: "'d doubles \<Rightarrow> mallocator \<Rightarrow> bool \<Rightarrow> 'd cJSON option" where
  "cJSON_CreateBool D mm b = map_option (set_type (if b then cJSON_True else cJSON_False)) (cJSON_New_Item D mm)"

definition cJSON_CreateNumber :: "'d doubles \<Rightarrow> mallocator \<Rightarrow> 'd \<Rightarrow> 'd cJSON option" where
  "cJSON_CreateNumber D mm num =
     map_option (\<lambda>item. set_valueint (d_to_int D num) (set_valuedouble num (set_type cJSON_Number item))) (cJSON_New_Item D mm)"

definition cJSON_CreateString :: "'d doubles \<Rightarrow> mallocator \<Rightarrow> cstring \<Rightarrow> 'd cJSON option outcome" where
  "cJSON_CreateString D mm str =
     (case cJSON_New_Item D mm of
        None \<Rightarrow> Inr None
      | Some item \<Rightarrow> ebind (cJSON_strdup mm str) (\<lambda>s. Inr (Some (set_valuestring s (set_type cJSON_String item)))))"

definition cJSON_CreateArray :: "'d doubles \<Rightarrow> mallocator \<Rightarrow> 'd cJSON option" where
  "cJSON_CreateArray D mm = map_option (set_type cJSON_Array) (cJSON_New_Item D mm)"

definition cJSON_CreateObject :: "'d doubles \<Rightarrow> mallocator \<Rightarrow> 'd cJSON option" where
  "cJSON_CreateObject D mm = map_option (set_type cJSON_Object) (cJSON_New_Item D mm)"

section \<open>Children\<close>

fun strcasecmp_loop :: "cstring \<Rightarrow> cstring \<Rightarrow> int" where
  "strcasecmp_loop (a # s1) (b # s2) =
     (if to_lower a = to_lower b then (if a = 0 then 0 else strcasecmp_loop s1 s2)
      else int (unat (to_lower a)) - int (unat (to_lower b)))"
| "strcasecmp_loop (a # s1) [] = int (unat (to_lower a))"
| "strcasecmp_loop [] (b # s2) = - int (unat (to_lower b))"
| "strcasecmp_loop [] [] = 0"

definition cJSON_strcasecmp :: "cstring option \<Rightarrow> cstring option \<Rightarrow> int" where
  "cJSON_strcasecmp s1 s2 =
     (case s1 of
        None \<Rightarrow> if s2 = None then 0 else 1
      | Some s1 \<Rightarrow> (case s2 of None \<Rightarrow> 1 | Some s2 \<Rightarrow> strcasecmp_loop s1 s2))"

definition cJSON_GetArraySize :: "'d cJSON \<Rightarrow> nat" where
  "cJSON_GetArraySize array = length (child array)"

text \<open>The loops \<open>while (c && which > 0) c = c->next, which--\<close> and \<open>while (c && cJSON_strcasecmp(..)) i++, c = c->next\<close>.\<close>

fun nth_child :: "'d cJSON list \<Rightarrow> nat \<Rightarrow> 'd cJSON option" where
  "nth_child [] which = None"
| "nth_child (c # cs) 0 = Some c"
| "nth_child (c # cs) (Suc which) = nth_child cs which"

definition cJSON_GetArrayItem :: "'d cJSON \<Rightarrow> int \<Rightarrow> 'd cJSON option" where
  "cJSON_GetArrayItem array item = nth_child (child array) (nat item)"

fun find_child :: "'d cJSON list \<Rightarrow> cstring \<Rightarrow> nat \<Rightarrow> (nat \<times> 'd cJSON) option" where
  "find_child [] str i = None"
| "find_child (c # cs) str i =
     (if cJSON_strcasecmp (jstring c) (Some str) \<noteq> 0 then find_child cs str (i + 1) else Some (i, c))"

definition cJSON_GetObjectItem :: "'d cJSON \<Rightarrow> cstring \<Rightarrow> 'd cJSON option" where
  "cJSON_GetObjectItem object str = map_option snd (find_child (child object) str 0)"

definition cJSON_AddItemToArray :: "'d cJSON option \<Rightarrow> 'd cJSON option \<Rightarrow> 'd cJSON option outcome" where
  "cJSON_AddItemToArray array item =
     (case array of
        None \<Rightarrow> Inl NullPointer
      | Some a \<Rightarrow> Inr (Some (case item of None \<Rightarrow> a | Some x \<Rightarrow> set_child (child a @ [x]) a)))"

definition cJSON_AddItemToObject ::
  "mallocator \<Rightarrow> 'd cJSON option \<Rightarrow> cstring \<Rightarrow> 'd cJSON option \<Rightarrow> 'd cJSON option outcome" where
  "cJSON_AddItemToObject mm object str item =
     (case item of
        None \<Rightarrow> Inr object
      | Some x \<Rightarrow> ebind (cJSON_strdup mm str) (\<lambda>s. cJSON_AddItemToArray object (Some (set_string s x))))"

definition cJSON_AddStringToObject ::
  "'d doubles \<Rightarrow> mallocator \<Rightarrow> 'd cJSON option \<Rightarrow> cstring \<Rightarrow> cstring \<Rightarrow> 'd cJSON option outcome" where
  "cJSON_AddStringToObject D mm object name s =
     ebind (cJSON_CreateString D mm s) (\<lambda>item. cJSON_AddItemToObject mm object name item)"

text \<open>Both results of an operation that unlinks a child: the child and the item without it.\<close>

definition cJSON_DetachItemFromArray :: "'d cJSON \<Rightarrow> int \<Rightarrow> 'd cJSON option \<times> 'd cJSON" where
  "cJSON_DetachItemFromArray array which =
     (case nth_child (child array) (nat which) of
        None \<Rightarrow> (None, array)
      | Some c \<Rightarrow> (Some c, set_child (take (nat which) (child array) @ drop (Suc (nat which)) (child array)) array))"

definition cJSON_DeleteItemFromArray :: "'d cJSON \<Rightarrow> int \<Rightarrow> 'd cJSON" where
  "cJSON_DeleteItemFromArray array which = snd (cJSON_DetachItemFromArray array which)"

definition cJSON_DetachItemFromObject :: "'d cJSON \<Rightarrow> cstring \<Rightarrow> 'd cJSON option \<times> 'd cJSON" where
  "cJSON_DetachItemFromObject object str =
     (case find_child (child object) str 0 of
        None \<Rightarrow> (None, object)
      | Some (i, _) \<Rightarrow> cJSON_DetachItemFromArray object (int i))"

definition cJSON_DeleteItemFromObject :: "'d cJSON \<Rightarrow> cstring \<Rightarrow> 'd cJSON" where
  "cJSON_DeleteItemFromObject object str = snd (cJSON_DetachItemFromObject object str)"

definition cJSON_InsertItemInArray :: "'d cJSON \<Rightarrow> int \<Rightarrow> 'd cJSON \<Rightarrow> 'd cJSON" where
  "cJSON_InsertItemInArray array which newitem =
     (case nth_child (child array) (nat which) of
        None \<Rightarrow> set_child (child array @ [newitem]) array
      | Some c \<Rightarrow> set_child (take (nat which) (child array) @ newitem # drop (nat which) (child array)) array)"

definition cJSON_ReplaceItemInArray :: "'d cJSON \<Rightarrow> int \<Rightarrow> 'd cJSON \<Rightarrow> 'd cJSON" where
  "cJSON_ReplaceItemInArray array which newitem =
     (case nth_child (child array) (nat which) of
        None \<Rightarrow> array
      | Some c \<Rightarrow> set_child ((child array)[nat which := newitem]) array)"

definition cJSON_ReplaceItemInObject :: "mallocator \<Rightarrow> 'd cJSON \<Rightarrow> cstring \<Rightarrow> 'd cJSON \<Rightarrow> 'd cJSON outcome" where
  "cJSON_ReplaceItemInObject mm object str newitem =
     (case find_child (child object) str 0 of
        None \<Rightarrow> Inr object
      | Some (i, _) \<Rightarrow>
          ebind (cJSON_strdup mm str) (\<lambda>s. Inr (cJSON_ReplaceItemInArray object (int i) (set_string s newitem))))"

section \<open>Copies\<close>

text \<open>A copy of an optional string; \<open>None\<close> stands for a failed allocation.\<close>

definition dup_string :: "mallocator \<Rightarrow> cstring option \<Rightarrow> cstring option option outcome" where
  "dup_string mm s =
     (case s of None \<Rightarrow> Inr (Some None) | Some s \<Rightarrow> ebind (cJSON_strdup mm s) (\<lambda>r. Inr (map_option Some r)))"

fun cJSON_Duplicate :: "'d doubles \<Rightarrow> mallocator \<Rightarrow> bool \<Rightarrow> 'd cJSON \<Rightarrow> 'd cJSON option outcome"
  and dup_children :: "'d doubles \<Rightarrow> mallocator \<Rightarrow> 'd cJSON list \<Rightarrow> 'd cJSON list option outcome" where
  "cJSON_Duplicate D mm recurse (Item t vs vi vd n ch) =
     (if cJSON_New_Item D mm = None then Inr None
      else ebind (dup_string mm vs) (\<lambda>vs'. case vs' of None \<Rightarrow> Inr None | Some vs' \<Rightarrow>
           ebind (dup_string mm n) (\<lambda>n'. case n' of None \<Rightarrow> Inr None | Some n' \<Rightarrow>
           if \<not> recurse then Inr (Some (Item t vs' vi vd n' []))
           else ebind (dup_children D mm ch) (\<lambda>ch'. Inr (map_option (Item t vs' vi vd n') ch')))))"
| "dup_children D mm [] = Inr (Some [])"
| "dup_children D mm (c # cs) =
     ebind (cJSON_Duplicate D mm True c) (\<lambda>c'. case c' of None \<Rightarrow> Inr None | Some c' \<Rightarrow>
     ebind (dup_children D mm cs) (\<lambda>cs'. Inr (map_option ((#) c') cs')))"

section \<open>Lemmas\<close>

lemma nth_child_nth: "nth_child cs i = (if i < length cs then Some (cs ! i) else None)"
  by (induction cs i rule: nth_child.induct) auto

lemma child_set_child [simp]: "child (set_child cs a) = cs"
  by (cases a) simp

lemma jstring_set_string [simp]: "jstring (set_string s a) = s"
  by (cases a) simp

text \<open>Two names are the same for the search when they differ in the case of letters only.\<close>

definition same_name :: "cstring \<Rightarrow> cstring \<Rightarrow> bool" where
  "same_name s1 s2 \<longleftrightarrow> map to_lower s1 = map to_lower s2"

lemma to_lower_0: "to_lower c = 0 \<longleftrightarrow> c = 0"
proof (cases "0x41 \<le> c \<and> c \<le> 0x5a")
  case True
  then have "unat (c + 0x20) = unat c + 0x20"
    by (intro trans [OF unat_add_no_wrap]) (auto simp: word_le_nat_alt)
  then have "c + 0x20 \<noteq> 0" by (metis add_is_0 unat_0 unat_numeral zero_neq_numeral)
  with True show ?thesis by (auto simp: to_lower_def)
qed (auto simp: to_lower_def)

lemma strcasecmp_loop_0:
  "is_cstring s1 \<Longrightarrow> is_cstring s2 \<Longrightarrow> strcasecmp_loop s1 s2 = 0 \<longleftrightarrow> same_name s1 s2"
proof (induction s1 s2 rule: strcasecmp_loop.induct)
  case (1 a s1 b s2)
  have "int (unat (to_lower a)) - int (unat (to_lower b)) = 0 \<longleftrightarrow> to_lower a = to_lower b"
    by (simp only: right_minus_eq of_nat_eq_iff word_unat_eq_iff)
  with 1 show ?case by (auto simp: same_name_def is_cstring_def simp del: of_nat_unat)
next
  case (2 a s1)
  then show ?case by (simp add: same_name_def is_cstring_def to_lower_0 unat_eq_0 del: of_nat_unat)
next
  case (3 b s2)
  then show ?case by (simp add: same_name_def is_cstring_def to_lower_0 unat_eq_0 del: of_nat_unat)
qed (simp add: same_name_def)

lemma find_child_append:
  "find_child (cs @ ds) str i = (case find_child cs str i of None \<Rightarrow> find_child ds str (i + length cs) | Some r \<Rightarrow> Some r)"
  by (induction cs str i rule: find_child.induct) (auto split: option.splits)

lemma cJSON_strdup_ok:
  "byte_malloc mm limit \<Longrightarrow> length s < limit \<Longrightarrow> cJSON_strdup mm s = Inr (Some s)"
  by (simp add: cJSON_strdup_def alloc_text_ok)

lemma cJSON_New_Item_ok: "byte_malloc mm limit \<Longrightarrow> cJSON_New_Item D mm = Some (zero_item D)"
  using with_item_ok [of mm limit D "\<lambda>item. Inr (Inr (item, []))"]
  by (auto simp: with_item_def split: option.splits)

text \<open>A member is found under its name, in any case, unless an earlier member has it.\<close>

lemma GetObjectItem_added:
  assumes mm: "byte_malloc mm limit" and str: "is_cstring str" "length str < limit" "is_cstring key" "same_name str key"
    and new: "cJSON_GetObjectItem object key = None"
  shows "\<exists>object'. cJSON_AddItemToObject mm (Some object) str (Some item) = Inr (Some object') \<and>
    cJSON_GetObjectItem object' key = Some (set_string (Some str) item)"
  using assms
  by (auto simp: cJSON_AddItemToObject_def cJSON_AddItemToArray_def cJSON_strdup_ok [OF mm] cJSON_GetObjectItem_def
      find_child_append cJSON_strcasecmp_def strcasecmp_loop_0)

lemma Detach_Insert:
  assumes "nat which < length (child array)"
  shows "cJSON_DetachItemFromArray (cJSON_InsertItemInArray array which item) which = (Some item, array)"
  using assms by (cases array) (simp add: cJSON_DetachItemFromArray_def cJSON_InsertItemInArray_def nth_child_nth nth_append)

lemma GetArrayItem_Replace:
  assumes "nat which < length (child array)"
  shows "cJSON_GetArrayItem (cJSON_ReplaceItemInArray array which item) i =
    (if nat i = nat which then Some item else cJSON_GetArrayItem array i)"
  using assms by (simp add: cJSON_GetArrayItem_def cJSON_ReplaceItemInArray_def nth_child_nth)

fun short_strings :: "nat \<Rightarrow> 'd cJSON \<Rightarrow> bool" where
  "short_strings m (Item t vs vi vd n ch) \<longleftrightarrow>
     (\<forall>s \<in> set_option vs. length s < m) \<and> (\<forall>s \<in> set_option n. length s < m) \<and> list_all (short_strings m) ch"

lemma dup_string_ok: "byte_malloc mm limit \<Longrightarrow> (\<forall>s \<in> set_option vs. length s < limit) \<Longrightarrow> dup_string mm vs = Inr (Some vs)"
  by (cases vs) (simp_all add: dup_string_def cJSON_strdup_ok)

lemma Duplicate_same:
  assumes mm: "byte_malloc mm limit"
  shows "short_strings limit j \<Longrightarrow> cJSON_Duplicate D mm True j = Inr (Some j)"
proof (induction j)
  case (Item t vs vi vd n ch)
  then have "set cs \<subseteq> set ch \<Longrightarrow> dup_children D mm cs = Inr (Some cs)" for cs
    by (induction cs) (auto simp: list_all_iff)
  then show ?case using Item.prems by (simp add: cJSON_New_Item_ok [OF mm] dup_string_ok [OF mm])
qed

text \<open>A printed text holds no NUL.\<close>

lemma escape_char_nonzero: "c \<noteq> 0 \<Longrightarrow> 0 \<notin> set (escape_char c)"
  using hex_char_plain [OF control_nibbles(1) [of c]] hex_char_plain [OF control_nibbles(2) [of c]]
  by (cases rule: escape_cases [of c]) auto

lemma json_string_nonzero: "is_cstring s \<Longrightarrow> 0 \<notin> set (json_string s)"
  unfolding json_string_def is_cstring_def using escape_char_nonzero by auto metis

lemma dec_nat_nonzero: "0 \<notin> set (dec_nat n)"
proof (induction n rule: dec_nat.induct)
  case (1 n)
  have "(0x30 + word_of_nat d :: u8) \<noteq> 0" if "d < 10" for d
    using digit_char(1) [OF that] by (auto simp: is_digit_def)
  then show ?case using 1 by (subst dec_nat.simps) auto
qed

lemma array_body_nonzero: "\<forall>e \<in> set es. 0 \<notin> set e \<Longrightarrow> 0 \<notin> set (array_body fmt es)"
  by (induction es) auto

lemma object_body_nonzero:
  "\<forall>(n, e) \<in> set es. 0 \<notin> set n \<and> 0 \<notin> set e \<Longrightarrow> 0 \<notin> set (object_body fmt depth es)"
  by (induction fmt depth es rule: object_body.induct) auto

lemma render_nonzero: "json_ok D j \<Longrightarrow> 0 \<notin> set (render fmt depth j)"
proof (induction j arbitrary: depth)
  case (Item t vs vi vd n ch)
  have c: "0 \<notin> set (render fmt (depth + 1) c)" if "c \<in> set ch" for c
    using Item that by (auto simp: json_ok.simps list_all_iff)
  have n: "0 \<notin> set (json_string (the (jstring c)))" if "c \<in> set ch" "t = cJSON_Object" for c
    using Item.prems that by (intro json_string_nonzero) (auto simp: json_ok.simps list_all_iff)
  have a: "0 \<notin> set (array_text fmt (map (render fmt (depth + 1)) ch))"
    using c array_body_nonzero [of "map (render fmt (depth + 1)) ch" fmt] by (simp add: array_text_def)
  have o: "0 \<notin> set (object_text fmt (depth + 1) (map (\<lambda>c. (json_string (the (jstring c)), render fmt (depth + 1) c)) ch))"
    if "t = cJSON_Object"
    using c n that object_body_nonzero [of "map (\<lambda>c. (json_string (the (jstring c)), render fmt (depth + 1) c)) ch" fmt "depth + 1"]
    by (auto simp: object_text_def)
  show ?case
    using Item.prems a o json_string_nonzero dec_nat_nonzero
    by (cases t) (auto simp: render.simps json_ok.simps lit_null_def lit_false_def lit_true_def fmt_d_def)
qed

end
