(* ===== verification/EdpJson.thy ===== *)
theory EdpJson
  imports EdpProtocol CJsonTree
begin

text \<open>
  The JSON variants of the SAVEDATA packet (\<open>EdpKit.c\<close>): the items the packet macros build, the
  packets that carry their text, and the accessors that take a value out of a received item.
  Texts are printed and read by the model of the JSON library.
\<close>

section \<open>Names and error codes\<close>

definition name_id :: cstring where "name_id = [0x69, 0x64]"
definition name_at :: cstring where "name_at = [0x61, 0x74]"
definition name_value :: cstring where "name_value = [0x76, 0x61, 0x6c, 0x75, 0x65]"
definition name_token :: cstring where "name_token = [0x74, 0x6f, 0x6b, 0x65, 0x6e]"
definition name_datapoints :: cstring where
  "name_datapoints = [0x64, 0x61, 0x74, 0x61, 0x70, 0x6f, 0x69, 0x6e, 0x74, 0x73]"
definition name_datastreams :: cstring where
  "name_datastreams = [0x64, 0x61, 0x74, 0x61, 0x73, 0x74, 0x72, 0x65, 0x61, 0x6d, 0x73]"
definition name_ds_id :: cstring where "name_ds_id = [0x64, 0x73, 0x5f, 0x69, 0x64]"

definition ERR_UNPACK_SAVED_PARSEJSON :: int where "ERR_UNPACK_SAVED_PARSEJSON = -1025"
definition ERR_UNPACK_SAVED_PARSEDESC :: int where "ERR_UNPACK_SAVED_PARSEDESC = -1027"

section \<open>Packets\<close>

text \<open>\<open>strlen\<close> of the text reads address 0 when the library had no memory for it.\<close>

definition print_or_null :: "'d doubles \<Rightarrow> mallocator \<Rightarrow> 'd cJSON option \<Rightarrow> cstring outcome" where
  "print_or_null D mm json_obj =
     (case json_obj of
        None \<Rightarrow> Inl NullPointer
      | Some j \<Rightarrow> ebind (cJSON_Print D mm j) (\<lambda>r. case r of None \<Rightarrow> Inl NullPointer | Some t \<Rightarrow> Inr t))"

definition PacketSavedataJson ::
  "'d doubles \<Rightarrow> mallocator \<Rightarrow> cstring option \<Rightarrow> 'd cJSON option \<Rightarrow> u8 \<Rightarrow> edp_buffer outcome" where
  "PacketSavedataJson D mm dst_devid json_obj type =
     ebind (NewBuffer mm) (\<lambda>pkg.
     ebind (print_or_null D mm json_obj) (\<lambda>json_out.
     let json_len = (word_of_nat (length json_out) :: u32) in
     run_writes
       ([WriteByte mm SAVEDATA] @
        savedata_address mm dst_devid (1 + (2 + json_len)) @
        [WriteByte mm type,
         WriteStr mm json_out]) pkg))"

text \<open>
  The items of the three formats.  \<open>at\<close> is the text \<open>FormatAt\<close> makes of the local time, \<open>mk\<close> the
  item of the value: \<open>cJSON_CreateNumber\<close> for the instances \<open>Int\<close> and \<open>Double\<close> of the macros,
  \<open>cJSON_CreateString\<close> for \<open>String\<close>.
\<close>

definition json_type1 ::
  "'d doubles \<Rightarrow> mallocator \<Rightarrow> cstring \<Rightarrow> cstring \<Rightarrow> 'd cJSON option outcome \<Rightarrow> cstring option \<Rightarrow> 'd cJSON option outcome" where
  "json_type1 D mm at ds_id mk token =
     ebind (cJSON_AddStringToObject D mm (cJSON_CreateObject D mm) name_id ds_id) (\<lambda>json_obj_ds.
     ebind (case token of
              None \<Rightarrow> Inr (cJSON_CreateObject D mm)
            | Some token \<Rightarrow> cJSON_AddStringToObject D mm (cJSON_CreateObject D mm) name_token token) (\<lambda>json_obj.
     ebind (cJSON_AddStringToObject D mm (cJSON_CreateObject D mm) name_at at) (\<lambda>dp_item.
     ebind mk (\<lambda>item. ebind (cJSON_AddItemToObject mm dp_item name_value item) (\<lambda>dp_item.
     ebind (cJSON_AddItemToArray (cJSON_CreateArray D mm) dp_item) (\<lambda>dp_array.
     ebind (cJSON_AddItemToObject mm json_obj_ds name_datapoints dp_array) (\<lambda>json_obj_ds.
     ebind (cJSON_AddItemToArray (cJSON_CreateArray D mm) json_obj_ds) (\<lambda>ds_array.
     cJSON_AddItemToObject mm json_obj name_datastreams ds_array))))))))"

definition json_type2 ::
  "'d doubles \<Rightarrow> mallocator \<Rightarrow> cstring \<Rightarrow> 'd cJSON option outcome \<Rightarrow> 'd cJSON option outcome" where
  "json_type2 D mm ds_id mk =
     ebind mk (\<lambda>item. cJSON_AddItemToObject mm (cJSON_CreateObject D mm) ds_id item)"

definition json_type3 ::
  "'d doubles \<Rightarrow> mallocator \<Rightarrow> cstring \<Rightarrow> cstring \<Rightarrow> 'd cJSON option outcome \<Rightarrow> 'd cJSON option outcome" where
  "json_type3 D mm at ds_id mk =
     ebind mk (\<lambda>item. ebind (cJSON_AddItemToObject mm (cJSON_CreateObject D mm) at item) (\<lambda>json_obj_ds.
     cJSON_AddItemToObject mm (cJSON_CreateObject D mm) ds_id json_obj_ds))"

text \<open>The common body of \<open>PacketSavedataInt\<close>, \<open>PacketSavedataDouble\<close> and \<open>PacketSavedataString\<close>, and the three instances.\<close>

definition PacketSavedataValue ::
  "'d doubles \<Rightarrow> mallocator \<Rightarrow> cstring \<Rightarrow> u8 \<Rightarrow> cstring option \<Rightarrow> cstring \<Rightarrow> 'd cJSON option outcome \<Rightarrow>
   cstring option \<Rightarrow> edp_buffer option outcome" where
  "PacketSavedataValue D mm at type dst_devid ds_id mk token =
     (let packet = (\<lambda>json. ebind json (\<lambda>json_obj. map_sum id Some (PacketSavedataJson D mm dst_devid json_obj type))) in
      if type = kTypeFullJson then packet (json_type1 D mm at ds_id mk token)
      else if type = kTypeSimpleJsonWithoutTime then packet (json_type2 D mm ds_id mk)
      else if type = kTypeSimpleJsonWithTime then packet (json_type3 D mm at ds_id mk)
      else Inr None)"

definition PacketSavedataInt ::
  "'d doubles \<Rightarrow> mallocator \<Rightarrow> cstring \<Rightarrow> u8 \<Rightarrow> cstring option \<Rightarrow> cstring \<Rightarrow> int \<Rightarrow> cstring option \<Rightarrow> edp_buffer option outcome" where
  "PacketSavedataInt D mm at type dst_devid ds_id value token =
     PacketSavedataValue D mm at type dst_devid ds_id (Inr (cJSON_CreateNumber D mm (d_int D value))) token"

definition PacketSavedataDouble ::
  "'d doubles \<Rightarrow> mallocator \<Rightarrow> cstring \<Rightarrow> u8 \<Rightarrow> cstring option \<Rightarrow> cstring \<Rightarrow> 'd \<Rightarrow> cstring option \<Rightarrow> edp_buffer option outcome" where
  "PacketSavedataDouble D mm at type dst_devid ds_id value token =
     PacketSavedataValue D mm at type dst_devid ds_id (Inr (cJSON_CreateNumber D mm value)) token"

definition PacketSavedataString ::
  "'d doubles \<Rightarrow> mallocator \<Rightarrow> cstring \<Rightarrow> u8 \<Rightarrow> cstring option \<Rightarrow> cstring \<Rightarrow> cstring \<Rightarrow> cstring option \<Rightarrow> edp_buffer option outcome" where
  "PacketSavedataString D mm at type dst_devid ds_id value token =
     PacketSavedataValue D mm at type dst_devid ds_id (cJSON_CreateString D mm value) token"

definition PacketSavedataBin ::
  "'d doubles \<Rightarrow> mallocator \<Rightarrow> cstring option \<Rightarrow> 'd cJSON \<Rightarrow> bytes \<Rightarrow> u32 \<Rightarrow> edp_buffer option outcome" where
  "PacketSavedataBin D mm dst_devid desc_obj bin_data bin_len =
     ebind (print_or_null D mm (Some desc_obj)) (\<lambda>desc_out.
     let desc_len = (word_of_nat (length desc_out) :: u32) in
      if desc_len > push_bit 16 0x01 \<or> bin_len > 3 * push_bit 20 0x01 \<or> cJSON_GetObjectItem desc_obj name_ds_id = None
      then Inr None
      else ebind (NewBuffer mm) (\<lambda>pkg.
           ebind (run_writes
             ([WriteByte mm SAVEDATA] @
              savedata_address mm dst_devid (1 + (2 + desc_len) + (4 + bin_len)) @
              [WriteByte mm 0x02,
               WriteStr mm desc_out,
               WriteUint32 mm bin_len,
               WriteBytes mm bin_data bin_len]) pkg) (\<lambda>pkg. Inr (Some pkg))))"

section \<open>Parsers\<close>

definition UnpackSavedataJson ::
  "'d doubles \<Rightarrow> mallocator \<Rightarrow> edp_buffer \<Rightarrow> ((int + 'd cJSON) \<times> edp_buffer) outcome" where
  "UnpackSavedataJson D mm pkg =
     read_or (ReadStr mm pkg) ERR_UNPACK_SAVED_JSON (\<lambda>json_str pkg.
     ebind (cJSON_Parse D mm json_str) (\<lambda>r. case r of
       None \<Rightarrow> Inr (Inl ERR_UNPACK_SAVED_PARSEJSON, pkg)
     | Some json_obj \<Rightarrow> all_read json_obj pkg))"

definition UnpackSavedataBin ::
  "'d doubles \<Rightarrow> mallocator \<Rightarrow> edp_buffer \<Rightarrow> ((int + 'd cJSON \<times> bytes \<times> u32) \<times> edp_buffer) outcome" where
  "UnpackSavedataBin D mm pkg =
     read_or (ReadStr mm pkg) ERR_UNPACK_SAVED_BIN_DESC (\<lambda>desc_str pkg.
     ebind (cJSON_Parse D mm desc_str) (\<lambda>r. case r of
       None \<Rightarrow> Inr (Inl ERR_UNPACK_SAVED_PARSEDESC, pkg)
     | Some desc_obj \<Rightarrow>
         read_or (ReadUint32 pkg) ERR_UNPACK_SAVED_BINLEN (\<lambda>bin_len pkg.
         read_or (ReadBytes mm pkg bin_len) ERR_UNPACK_SAVED_BINDATA (\<lambda>bin_data pkg.
         all_read (desc_obj, bin_data, bin_len) pkg))))"

text \<open>\<open>*p = malloc(strlen(s) + 1); memcpy(*p, s, strlen(s) + 1);\<close>\<close>

definition copy_string :: "mallocator \<Rightarrow> cstring option \<Rightarrow> cstring outcome" where
  "copy_string mm s =
     (case s of
        None \<Rightarrow> Inl NullPointer
      | Some s \<Rightarrow> (case mm (word_of_nat (length s) + 1) of None \<Rightarrow> Inl NullPointer | Some _ \<Rightarrow> Inr s))"

text \<open>The ends of the accessors for the instances \<open>Int\<close>, \<open>Double\<close> and \<open>String\<close>.\<close>

definition value_int :: "'d cJSON \<Rightarrow> int outcome" where
  "value_int item = Inr (valueint item)"

definition value_double :: "'d cJSON \<Rightarrow> 'd outcome" where
  "value_double item = Inr (valuedouble item)"

definition value_string :: "mallocator \<Rightarrow> 'd cJSON \<Rightarrow> cstring outcome" where
  "value_string mm item = copy_string mm (valuestring item)"

text \<open>
  The accessor of the first format starts with \<open>cJSON_GetObjectItem(json_obj, "datastreams")\<close>
  before \<open>json_obj\<close> has a value; nothing behind it is reached with a defined behaviour.
\<close>

definition UnpackSavedataType1 :: "edp_buffer \<Rightarrow> ((int + cstring \<times> 'v) \<times> edp_buffer) outcome" where
  "UnpackSavedataType1 pkg = Inl UninitRead"

definition UnpackSavedataType2 ::
  "'d doubles \<Rightarrow> mallocator \<Rightarrow> ('d cJSON \<Rightarrow> 'v outcome) \<Rightarrow> edp_buffer \<Rightarrow> ((int + cstring \<times> 'v) \<times> edp_buffer) outcome" where
  "UnpackSavedataType2 D mm get pkg =
     ebind (UnpackSavedataJson D mm pkg) (\<lambda>(r, pkg).
     case r of
       Inl _ \<Rightarrow> Inr (Inl ERR_UNPACK_SAVED_JSON, pkg)
     | Inr json_obj \<Rightarrow>
         (case child json_obj of
            [] \<Rightarrow> Inr (Inl ERR_UNPACK_SAVED_JSON, pkg)
          | json_child # _ \<Rightarrow>
              ebind (copy_string mm (jstring json_child)) (\<lambda>ds_id.
              ebind (get json_child) (\<lambda>v. Inr (Inr (ds_id, v), pkg)))))"

definition UnpackSavedataType3 ::
  "'d doubles \<Rightarrow> mallocator \<Rightarrow> ('d cJSON \<Rightarrow> 'v outcome) \<Rightarrow> edp_buffer \<Rightarrow> ((int + cstring \<times> 'v) \<times> edp_buffer) outcome" where
  "UnpackSavedataType3 D mm get pkg =
     ebind (UnpackSavedataJson D mm pkg) (\<lambda>(r, pkg).
     case r of
       Inl _ \<Rightarrow> Inr (Inl ERR_UNPACK_SAVED_JSON, pkg)
     | Inr json_obj \<Rightarrow>
         (case child json_obj of
            [] \<Rightarrow> Inr (Inl ERR_UNPACK_SAVED_JSON, pkg)
          | json_child # _ \<Rightarrow>
              if jstring json_child = None then Inr (Inl ERR_UNPACK_SAVED_JSON, pkg)
              else ebind (copy_string mm (jstring json_child)) (\<lambda>ds_id.
                   case child json_child of
                     [] \<Rightarrow> Inr (Inl ERR_UNPACK_SAVED_JSON, pkg)
                   | json_child # _ \<Rightarrow> ebind (get json_child) (\<lambda>v. Inr (Inr (ds_id, v), pkg)))))"

definition UnpackSavedataValue ::
  "'d doubles \<Rightarrow> mallocator \<Rightarrow> ('d cJSON \<Rightarrow> 'v outcome) \<Rightarrow> u8 \<Rightarrow> edp_buffer \<Rightarrow> ((int + cstring \<times> 'v) \<times> edp_buffer) outcome" where
  "UnpackSavedataValue D mm get type pkg =
     (if type = kTypeFullJson then UnpackSavedataType1 pkg
      else if type = kTypeSimpleJsonWithoutTime then UnpackSavedataType2 D mm get pkg
      else if type = kTypeSimpleJsonWithTime then UnpackSavedataType3 D mm get pkg
      else Inr (Inl (-1), pkg))"

definition UnpackSavedataInt :: "'d doubles \<Rightarrow> mallocator \<Rightarrow> u8 \<Rightarrow> edp_buffer \<Rightarrow> ((int + cstring \<times> int) \<times> edp_buffer) outcome" where
  "UnpackSavedataInt D mm type pkg = UnpackSavedataValue D mm value_int type pkg"

definition UnpackSavedataDouble :: "'d doubles \<Rightarrow> mallocator \<Rightarrow> u8 \<Rightarrow> edp_buffer \<Rightarrow> ((int + cstring \<times> 'd) \<times> edp_buffer) outcome" where
  "UnpackSavedataDouble D mm type pkg = UnpackSavedataValue D mm value_double type pkg"

definition UnpackSavedataString :: "'d doubles \<Rightarrow> mallocator \<Rightarrow> u8 \<Rightarrow> edp_buffer \<Rightarrow> ((int + cstring \<times> cstring) \<times> edp_buffer) outcome" where
  "UnpackSavedataString D mm type pkg = UnpackSavedataValue D mm (value_string mm) type pkg"

section \<open>A value on its way through a packet\<close>

lemma json_text_cstring: "json_ok D j \<Longrightarrow> is_cstring (json_text j)"
  using render_nonzero [of D j True 0] by (simp add: json_text_def is_cstring_def)

text \<open>The item of a value in each of the two formats that can be read back.\<close>

definition json_simple :: "'d doubles \<Rightarrow> cstring \<Rightarrow> u8 \<Rightarrow> cstring \<Rightarrow> 'd cJSON \<Rightarrow> 'd cJSON" where
  "json_simple D at type ds_id item =
     (let object = Item cJSON_Object None 0 (d_int D 0) in
      if type = kTypeSimpleJsonWithoutTime then object None [set_string (Some ds_id) item]
      else object None [object (Some ds_id) [set_string (Some at) item]])"

lemma json_simple_ok:
  assumes "json_ok D item" "is_cstring ds_id" "is_cstring at"
  shows "json_ok D (json_simple D at type ds_id item)" "jstring (json_simple D at type ds_id item) = None"
  using assms by (cases item; auto simp: json_simple_def Let_def json_ok.simps)+

lemma json_simple_built:
  assumes mm: "byte_malloc mm limit" and len: "length ds_id < limit" "length at < limit"
  shows "type = kTypeSimpleJsonWithoutTime \<Longrightarrow>
      json_type2 D mm ds_id (Inr (Some item)) = Inr (Some (json_simple D at type ds_id item))"
    and "type = kTypeSimpleJsonWithTime \<Longrightarrow>
      json_type3 D mm at ds_id (Inr (Some item)) = Inr (Some (json_simple D at type ds_id item))"
  using len
  by (simp_all add: json_type2_def json_type3_def json_simple_def Let_def cJSON_CreateObject_def cJSON_New_Item_ok [OF mm] zero_item_def
      cJSON_AddItemToObject_def cJSON_AddItemToArray_def cJSON_strdup_ok [OF mm] kTypeSimpleJsonWithoutTime_def kTypeSimpleJsonWithTime_def)

lemma PacketSavedataJson_frame:
  assumes mm: "byte_malloc mm limit" and t: "cJSON_Print D mm j = Inr (Some t)" and len: "length t < 2 ^ 16"
    and dst: "\<And>devid. dst = Some devid \<Longrightarrow> length devid < 2 ^ 16"
    and fit: "fits limit (8 + length (wire_address dst) + length t)"
  shows "\<exists>pkg. PacketSavedataJson D mm dst (Some j) type = Inr pkg \<and> wbuf pkg \<and>
    contents pkg = frame SAVEDATA (wire_address dst @ [type] @ wire_str t)"
proof -
  let ?rest = "1 + (2 + word_of_nat (length t)) :: u32"
  have "\<exists>pkg. ebind (NewBuffer mm) (run_writes ([WriteByte mm SAVEDATA] @
      savedata_address mm dst ?rest @ [WriteByte mm type, WriteStr mm t])) = Inr pkg \<and>
    wbuf pkg \<and> contents pkg = frame SAVEDATA (wire_address dst @ concat [[type], wire_str t])"
  proof (rule byte_malloc.savedata_frame [OF mm])
    show "unat ?rest = length (concat [[type], wire_str t])"
      using len by (simp add: unat_word_ariths unat_of_nat)
  qed (use len dst fit byte_malloc.appends_writers [OF mm] in \<open>auto simp: add.commute add.left_commute\<close>)
  then show ?thesis
    by (simp add: PacketSavedataJson_def print_or_null_def t Let_def del: run_writes.simps)
qed

lemma UnpackSavedataJson_wire:
  assumes mm: "byte_malloc mm limit" and b: "rbuf b (wire_str s)" and s: "is_cstring s" "length s < 2 ^ 16" "length s < limit"
    and p: "cJSON_Parse D mm s = Inr (Some j)"
  shows "\<exists>b'. UnpackSavedataJson D mm b = Inr (Inr j, b')"
  using byte_malloc.ReadStr_wire [OF mm, of b s "[]"] rbuf_after_str [of b s "[]"] assms
  by (simp add: UnpackSavedataJson_def all_read_ok)

lemma copy_string_ok: "byte_malloc mm limit \<Longrightarrow> length s < limit \<Longrightarrow> copy_string mm (Some s) = Inr s"
proof -
  assume mm: "byte_malloc mm limit" and s: "length s < limit"
  then have "unat (word_of_nat (length s) + 1 :: u32) \<le> limit"
    using byte_malloc.limit_less [OF mm] by (subst unat_add_no_wrap) (simp_all add: unat_of_nat_no_wrap)
  then show ?thesis using byte_malloc.mm_ok [OF mm] by (fastforce simp: copy_string_def)
qed

text \<open>The text of the item and the packet around it are within the limits of the format and of the allocator.\<close>

definition value_fits :: "nat \<Rightarrow> 'd doubles \<Rightarrow> cstring \<Rightarrow> u8 \<Rightarrow> cstring option \<Rightarrow> cstring \<Rightarrow> 'd cJSON \<Rightarrow> bool" where
  "value_fits limit D at type dst ds_id item \<longleftrightarrow>
     (let n = length (json_text (json_simple D at type ds_id item))
      in n < 2 ^ 16 \<and> 4 * n + 64 \<le> limit \<and> fits limit (8 + length (wire_address dst) + n))"

definition number_item :: "'d doubles \<Rightarrow> int \<Rightarrow> 'd cJSON" where
  "number_item D v = Item cJSON_Number None v (d_int D v) None []"

definition string_item :: "'d doubles \<Rightarrow> cstring \<Rightarrow> 'd cJSON" where
  "string_item D s = Item cJSON_String (Some s) 0 (d_int D 0) None []"

lemma savedata_item_roundtrip:
  assumes mm: "byte_malloc mm limit" and D: "exact_integers D" and ty: "type \<in> {kTypeSimpleJsonWithoutTime, kTypeSimpleJsonWithTime}"
    and item: "json_ok D item" and get: "\<And>name. get (set_string name item) = Inr v"
    and names: "is_cstring ds_id" "is_cstring at" "length ds_id < limit" "length at < limit"
    and dst: "\<And>devid. dst = Some devid \<Longrightarrow> is_cstring devid \<and> length devid < 2 ^ 16"
    and fit: "value_fits limit D at type dst ds_id item"
  shows "\<exists>pkg b' b''. PacketSavedataValue D mm at type dst ds_id (Inr (Some item)) token = Inr (Some pkg) \<and>
    EdpPacketType pkg = Inr (SAVEDATA, adv pkg 1) \<and>
    UnpackSavedata mm (adv pkg 1) = Inr (Inr (dst, type), b') \<and>
    UnpackSavedataValue D mm get type b' = Inr (Inr (ds_id, v), b'')"
proof -
  let ?j = "json_simple D at type ds_id item" let ?t = "json_text ?j" let ?body = "wire_address dst @ type # wire_str ?t"
  have size: "length ?t < 2 ^ 16" "4 * length ?t + 64 \<le> limit" "fits limit (8 + length (wire_address dst) + length ?t)"
    using fit by (simp_all add: value_fits_def Let_def)
  note ok = json_simple_ok [OF item names(1,2), of type]
  obtain pkg where pkg: "PacketSavedataJson D mm dst (Some ?j) type = Inr pkg" "wbuf pkg" "contents pkg = frame SAVEDATA ?body"
    using PacketSavedataJson_frame [OF mm cJSON_Print_text [OF mm D ok(1) size(2)] size(1) _ size(3)] dst by auto
  have r: "rbuf pkg (frame SAVEDATA ?body)" using wbuf_rbuf [OF pkg(2)] pkg(3) by simp
  have le: "length (wire_address dst) + length ?t + 8 \<le> limit" using fits_le [OF mm size(3)] by simp
  have dl: "is_cstring devid \<and> length devid < 2 ^ 16 \<and> length devid < limit" if "dst = Some devid" for devid
    using dst [OF that] le that by (auto simp: wire_address_def)
  have "length ?body < 2 ^ 28" using size(1) dst by (cases dst) (auto simp: wire_address_def)
  from byte_malloc.UnpackSavedata_frame [OF mm r dl this] obtain b' where
    b': "UnpackSavedata mm (adv pkg 1) = Inr (Inr (dst, type), b')" "rbuf b' (wire_str ?t)" by blast
  obtain b'' where b'': "UnpackSavedataJson D mm b' = Inr (Inr ?j, b'')"
    using UnpackSavedataJson_wire [OF mm b'(2) json_text_cstring [OF ok(1)] size(1) _ cJSON_Parse_text [OF mm D ok(1) _ ok(2)]] le by auto
  have "PacketSavedataValue D mm at type dst ds_id (Inr (Some item)) token = Inr (Some pkg)"
    using ty pkg(1) json_simple_built [OF mm names(3,4), of type D item] by (auto simp: PacketSavedataValue_def kTypeFullJson_def
      kTypeSimpleJsonWithoutTime_def kTypeSimpleJsonWithTime_def)
  moreover have "UnpackSavedataValue D mm get type b' = Inr (Inr (ds_id, v), b'')"
    using ty b'' copy_string_ok [OF mm names(3)] get
    by (auto simp: UnpackSavedataValue_def UnpackSavedataType2_def UnpackSavedataType3_def json_simple_def Let_def
      kTypeFullJson_def kTypeSimpleJsonWithoutTime_def kTypeSimpleJsonWithTime_def)
  ultimately show ?thesis using EdpPacketType_frame(1) [OF r] b'(1) by blast
qed

lemma CreateNumber_item:
  assumes "byte_malloc mm limit" "exact_integers D" "- (2 ^ 31) \<le> v" "v < 2 ^ 31"
  shows "cJSON_CreateNumber D mm (d_int D v) = Some (number_item D v)"
  using assms exact_rules(9) [OF assms(2), of v]
  by (simp add: cJSON_CreateNumber_def cJSON_New_Item_ok [OF assms(1)] zero_item_def number_item_def)

lemma CreateString_item:
  assumes "byte_malloc mm limit" "length str < limit"
  shows "cJSON_CreateString D mm str = Inr (Some (string_item D str))"
  using assms by (simp add: cJSON_CreateString_def cJSON_New_Item_ok [OF assms(1)] zero_item_def string_item_def cJSON_strdup_ok [OF assms(1)])

text \<open>
  C36: What \<open>PacketSavedataInt\<close>, \<open>PacketSavedataDouble\<close> and \<open>PacketSavedataString\<close> pack in one of the two
  simple JSON formats, \<open>UnpackSavedata\<close> and the accessor of the same type and format take out again,
  with the data stream it belongs to: every 32-bit integer, every double that is such an integer, and
  every string.  The creation of the item of the value is part of the packing.  Other doubles are printed
  with few digits and are not covered.  Double-precision arithmetic is exact on integers.
\<close>

theorem savedata_value_roundtrip:
  assumes mm: "byte_malloc mm limit" and D: "exact_integers D" and ty: "type \<in> {kTypeSimpleJsonWithoutTime, kTypeSimpleJsonWithTime}"
    and names: "is_cstring ds_id" "is_cstring at" "length ds_id < limit" "length at < limit"
    and dst: "\<And>devid. dst = Some devid \<Longrightarrow> is_cstring devid \<and> length devid < 2 ^ 16"
    and num: "- (2 ^ 31) \<le> v" "v < 2 ^ 31" "value_fits limit D at type dst ds_id (number_item D v)"
    and chars: "is_cstring str" "length str < limit" "value_fits limit D at type dst ds_id (string_item D str)"
  shows "(\<exists>pkg b' b''. PacketSavedataInt D mm at type dst ds_id v token = Inr (Some pkg) \<and> EdpPacketType pkg = Inr (SAVEDATA, adv pkg 1) \<and>
      UnpackSavedata mm (adv pkg 1) = Inr (Inr (dst, type), b') \<and> UnpackSavedataInt D mm type b' = Inr (Inr (ds_id, v), b'')) \<and>
    (\<exists>pkg b' b''. PacketSavedataDouble D mm at type dst ds_id (d_int D v) token = Inr (Some pkg) \<and> EdpPacketType pkg = Inr (SAVEDATA, adv pkg 1) \<and>
      UnpackSavedata mm (adv pkg 1) = Inr (Inr (dst, type), b') \<and> UnpackSavedataDouble D mm type b' = Inr (Inr (ds_id, d_int D v), b'')) \<and>
    (\<exists>pkg b' b''. PacketSavedataString D mm at type dst ds_id str token = Inr (Some pkg) \<and> EdpPacketType pkg = Inr (SAVEDATA, adv pkg 1) \<and>
      UnpackSavedata mm (adv pkg 1) = Inr (Inr (dst, type), b') \<and> UnpackSavedataString D mm type b' = Inr (Inr (ds_id, str), b''))"
proof (intro conjI)
  have n: "json_ok D (number_item D v)" and t: "json_ok D (string_item D str)"
    using num chars by (simp_all add: number_item_def string_item_def json_ok.simps)
  note trip = savedata_item_roundtrip [OF mm D ty _ _ names dst]
  note number = CreateNumber_item [OF mm D num(1,2)]
  show "\<exists>pkg b' b''. PacketSavedataInt D mm at type dst ds_id v token = Inr (Some pkg) \<and> EdpPacketType pkg = Inr (SAVEDATA, adv pkg 1) \<and>
      UnpackSavedata mm (adv pkg 1) = Inr (Inr (dst, type), b') \<and> UnpackSavedataInt D mm type b' = Inr (Inr (ds_id, v), b'')"
    unfolding PacketSavedataInt_def UnpackSavedataInt_def number
    by (rule trip [OF n _ _ num(3)]) (simp_all add: value_int_def number_item_def)
  show "\<exists>pkg b' b''. PacketSavedataDouble D mm at type dst ds_id (d_int D v) token = Inr (Some pkg) \<and> EdpPacketType pkg = Inr (SAVEDATA, adv pkg 1) \<and>
      UnpackSavedata mm (adv pkg 1) = Inr (Inr (dst, type), b') \<and> UnpackSavedataDouble D mm type b' = Inr (Inr (ds_id, d_int D v), b'')"
    unfolding PacketSavedataDouble_def UnpackSavedataDouble_def number
    by (rule trip [OF n _ _ num(3)]) (simp_all add: value_double_def number_item_def)
  show "\<exists>pkg b' b''. PacketSavedataString D mm at type dst ds_id str token = Inr (Some pkg) \<and> EdpPacketType pkg = Inr (SAVEDATA, adv pkg 1) \<and>
      UnpackSavedata mm (adv pkg 1) = Inr (Inr (dst, type), b') \<and> UnpackSavedataString D mm type b' = Inr (Inr (ds_id, str), b'')"
    unfolding PacketSavedataString_def UnpackSavedataString_def CreateString_item [OF mm chars(2)]
    by (rule trip [OF t _ _ chars(3)]) (simp_all add: value_string_def string_item_def copy_string_ok [OF mm chars(2)])
qed

theorem savedata_value_roundtrip_witness:
  "\<exists>pkg b' b''. PacketSavedataInt int_doubles (pool_malloc PCB_ADDR fresh_heap) [] kTypeSimpleJsonWithoutTime None [0x74] 7 None = Inr (Some pkg) \<and>
     UnpackSavedata (pool_malloc PCB_ADDR fresh_heap) (adv pkg 1) = Inr (Inr (None, kTypeSimpleJsonWithoutTime), b') \<and>
     UnpackSavedataInt int_doubles (pool_malloc PCB_ADDR fresh_heap) kTypeSimpleJsonWithoutTime b' = Inr (Inr ([0x74], 7), b'')"
proof -
  have "length (json_text (json_simple int_doubles [] kTypeSimpleJsonWithoutTime [0x74] (number_item int_doubles 7))) \<le> 20"
    "length (json_text (json_simple int_doubles [] kTypeSimpleJsonWithoutTime [0x74] (string_item int_doubles [0x61]))) \<le> 20"
    by (simp_all add: json_text_def json_simple_def Let_def render.simps object_text_def json_string_def escape_char_def fmt_d_def dec_nat.simps
      number_item_def string_item_def)
  then have "value_fits 20448 int_doubles [] kTypeSimpleJsonWithoutTime None [0x74] (number_item int_doubles 7)"
    "value_fits 20448 int_doubles [] kTypeSimpleJsonWithoutTime None [0x74] (string_item int_doubles [0x61])"
    by (simp_all add: value_fits_def Let_def fits_def wire_address_def)
  then show ?thesis
    using savedata_value_roundtrip [OF fresh.byte_malloc_axioms int_doubles_exact, where type = kTypeSimpleJsonWithoutTime
      and at = "[]" and ds_id = "[0x74]" and dst = None and v = 7 and str = "[0x61]" and token = None]
    by (auto simp: is_cstring_def)
qed

end
