(* ===== verification/NetAdapter.thy ===== *)
theory NetAdapter
  imports Prelude
begin

text \<open>
  The network adapter (\<open>System/network_adapter.c\<close>).  The TCP client: the state of the connection
  to the cloud, sending under the mutex, receiving and closing.  What the socket calls of the
  TCP/IP stack return is the script of the environment: one \<open>tx_step\<close> per call of \<open>select\<close> and
  \<open>send\<close>, one \<open>rx_step\<close> per call of \<open>select\<close> and \<open>recv\<close>; a script that has ended stands for a
  \<open>select\<close> that never returns.  The LAN TCP server: the table of its clients and one pass of its
  loop.
\<close>

section \<open>The connection to the cloud\<close>

record tx_step =
  tx_select :: int
  tx_ready :: bool
  tx_sent :: int

record rx_step =
  rx_select :: int
  rx_ready :: bool
  rx_count :: int

text \<open>
  \<open>send_lock\<close> tells whether \<open>cloud_send_mutex_lock\<close> is held, \<open>net_out\<close> collects the bytes the
  stack has accepted, \<open>net_in\<close> holds those of the server that have not been received yet.
\<close>

record net_state =
  TCPClientFd :: int
  TCPClient_reset_flag :: u8
  send_lock :: bool
  net_out :: bytes
  net_in :: bytes
  tx_script :: "tx_step list"

definition Socket_TCPClientClose :: "'a net_state_scheme \<Rightarrow> 'a net_state_scheme" where
  "Socket_TCPClientClose s = s\<lparr>TCPClientFd := -1\<rparr>"

text \<open>
  \<open>sent\<close> counts the bytes sent so far.  The error return of \<open>select\<close> leaves the mutex locked,
  that of \<open>send\<close> releases it and asks for a new connection.
\<close>

fun send_loop :: "bytes \<Rightarrow> nat \<Rightarrow> tx_step list \<Rightarrow> 'a net_state_scheme \<Rightarrow> (int \<times> 'a net_state_scheme) outcome" where
  "send_loop sendbuf sent [] s =
     (if sent = length sendbuf then Inr (int sent, s\<lparr>send_lock := False, tx_script := []\<rparr>) else Inl Diverges)"
| "send_loop sendbuf sent (st # steps) s =
     (if sent = length sendbuf then Inr (int sent, s\<lparr>send_lock := False, tx_script := st # steps\<rparr>)
      else if tx_select st = -1 then Inr (-1, s\<lparr>tx_script := steps\<rparr>)
      else if tx_ready st then
        (if tx_sent st < 0
         then Inr (tx_sent st, s\<lparr>send_lock := False, TCPClient_reset_flag := 0xa5, tx_script := steps\<rparr>)
         else send_loop sendbuf (sent + nat (tx_sent st)) steps
                (s\<lparr>net_out := net_out s @ take (nat (tx_sent st)) (drop sent sendbuf)\<rparr>))
      else send_loop sendbuf sent steps s)"

text \<open>\<open>OSMutexPend\<close> without a time limit: nobody releases a mutex that an earlier call has kept.\<close>

definition Socket_TCPClientSendData ::
  "bytes \<Rightarrow> 'a net_state_scheme \<Rightarrow> (int \<times> 'a net_state_scheme) outcome" where
  "Socket_TCPClientSendData sendbuf s =
     (if send_lock s then Inl Diverges
      else send_loop sendbuf 0 (tx_script s) (s\<lparr>send_lock := True\<rparr>))"

text \<open>The return value and the bytes put into the buffer, which has been cleared.\<close>

definition Socket_TCPClientRecvData ::
  "rx_step \<Rightarrow> nat \<Rightarrow> 'a net_state_scheme \<Rightarrow> int \<times> bytes \<times> 'a net_state_scheme" where
  "Socket_TCPClientRecvData st len s =
     (if rx_select st = -1 \<or> TCPClient_reset_flag s = 0xa5 then (-1, replicate len 0, s)
      else if rx_ready st then
        (if rx_count st < 0 then (-2, replicate len 0, Socket_TCPClientClose s)
         else let received = take (min len (nat (rx_count st))) (net_in s) in
              (int (length received), received @ replicate (len - length received) 0,
               s\<lparr>net_in := drop (length received) (net_in s)\<rparr>))
      else (0, replicate len 0, s))"

section \<open>The LAN TCP server\<close>

definition TCP_SERVER_CLIENT_MAX_NUM :: nat where "TCP_SERVER_CLIENT_MAX_NUM = 5"

record lan_state =
  TCPServerFd :: int
  lan_client :: "int list"
  client_connect_count :: int
  max_sock :: int

text \<open>\<open>FD_ISSET\<close> on the array of bits; C's division and mask take the descriptor -1 to bit 7.\<close>

definition FD_ISSET :: "int \<Rightarrow> int set \<Rightarrow> bool" where
  "FD_ISSET n fdset \<longleftrightarrow> (if n = -1 then 7 else n) \<in> fdset"

definition FD_CLR :: "int \<Rightarrow> int set \<Rightarrow> int set" where
  "FD_CLR n fdset = fdset - {if n = -1 then 7 else n}"

definition lan_init :: "int \<Rightarrow> lan_state" where
  "lan_init fd = \<lparr>TCPServerFd = fd, lan_client = replicate TCP_SERVER_CLIENT_MAX_NUM (-1),
     client_connect_count = 0, max_sock = fd\<rparr>"

text \<open>
  The pass over the table: \<open>recvd fd\<close> is what \<open>recv\<close> returns for a descriptor.  The data go to
  \<open>Socket_DispatchTCPData\<close>, which is empty; the last component lists the descriptors served.
\<close>

fun serve_clients ::
  "nat \<Rightarrow> (int \<Rightarrow> int) \<Rightarrow> int set \<Rightarrow> lan_state \<Rightarrow> (int set \<times> lan_state \<times> int list) outcome" where
  "serve_clients 0 recvd fdset s = Inr (fdset, s, [])"
| "serve_clients (Suc k) recvd fdset s =
     (let i = TCP_SERVER_CLIENT_MAX_NUM - Suc k in
      ebind (load (lan_client s) i) (\<lambda>fd.
      if FD_ISSET fd fdset then
        (if recvd fd \<le> 0
         then serve_clients k recvd (FD_CLR fd fdset)
                (s\<lparr>client_connect_count := client_connect_count s - 1, lan_client := (lan_client s)[i := -1]\<rparr>)
         else ebind (serve_clients k recvd fdset s) (\<lambda>(fdset, s, served). Inr (fdset, s, fd # served)))
      else serve_clients k recvd fdset s))"

text \<open>The search for an empty entry ends at the length of the table when there is none.\<close>

definition free_slot :: "int list \<Rightarrow> nat" where
  "free_slot clients = length (takeWhile (\<lambda>fd. fd \<noteq> -1) clients)"

definition accept_client :: "int \<Rightarrow> lan_state \<Rightarrow> lan_state outcome" where
  "accept_client new_fd s =
     (if new_fd < 0 then Inr s
      else if client_connect_count s < int TCP_SERVER_CLIENT_MAX_NUM then
        let i = free_slot (lan_client s) in
        ebind (store (lan_client s) i new_fd) (\<lambda>clients.
        Inr (s\<lparr>max_sock := (if max_sock s < new_fd + 1 then new_fd + 1 else max_sock s), lan_client := clients\<rparr>))
      else Inr s)"

definition lan_pass :: "int \<Rightarrow> int set \<Rightarrow> (int \<Rightarrow> int) \<Rightarrow> int \<Rightarrow> lan_state \<Rightarrow> (lan_state \<times> int list) outcome" where
  "lan_pass sel fdset recvd new_fd s =
     (if sel \<le> 0 then Inr (s, [])
      else ebind (serve_clients TCP_SERVER_CLIENT_MAX_NUM recvd fdset s) (\<lambda>(fdset, s, served).
           if FD_ISSET (TCPServerFd s) fdset
           then ebind (accept_client new_fd s) (\<lambda>s. Inr (s, served))
           else Inr (s, served)))"

section \<open>Sending\<close>

text \<open>
  \<open>drain n script\<close> is the rest of a script under which \<open>n\<close> bytes are sent, in as many parts as
  the stack likes.
\<close>

fun drain :: "nat \<Rightarrow> tx_step list \<Rightarrow> tx_step list option" where
  "drain n [] = (if n = 0 then Some [] else None)"
| "drain n (st # steps) =
     (if n = 0 then Some (st # steps)
      else if tx_select st = -1 then None
      else if tx_ready st then
        (if tx_sent st < 0 \<or> n < nat (tx_sent st) then None else drain (n - nat (tx_sent st)) steps)
      else drain n steps)"

lemma send_loop_drain:
  "drain (length sendbuf - sent) steps = Some rest \<Longrightarrow> sent \<le> length sendbuf \<Longrightarrow>
   send_loop sendbuf sent steps s =
     Inr (int (length sendbuf), s\<lparr>send_lock := False, net_out := net_out s @ drop sent sendbuf, tx_script := rest\<rparr>)"
proof (induction sendbuf sent steps s rule: send_loop.induct)
  case (1 sendbuf sent s)
  then show ?case by (auto split: if_splits)
next
  case (2 sendbuf sent st steps s)
  show ?case
  proof (cases "sent = length sendbuf")
    case True
    then show ?thesis using "2.prems"(1) by auto
  next
    case False
    then have pos: "length sendbuf - sent \<noteq> 0" using "2.prems" by simp
    show ?thesis
    proof (cases "tx_ready st")
      case True
      let ?n = "nat (tx_sent st)"
      have d: "tx_select st \<noteq> -1" "0 \<le> tx_sent st" "?n \<le> length sendbuf - sent"
        "drain (length sendbuf - (sent + ?n)) steps = Some rest"
        using True pos "2.prems"(1) by (auto split: if_splits)
      have "take ?n (drop sent sendbuf) @ drop (sent + ?n) sendbuf = drop sent sendbuf"
        by (metis append_take_drop_id drop_drop add.commute)
      then show ?thesis using True False d "2.IH"(1) "2.prems"(2) by simp
    next
      case nr: False
      then have "tx_select st \<noteq> -1" "drain (length sendbuf - sent) steps = Some rest"
        using pos "2.prems"(1) by (auto split: if_splits)
      then show ?thesis using nr False "2.IH"(2) "2.prems"(2) by simp
    qed
  qed
qed

lemma SendData_drain:
  assumes "\<not> send_lock s" "drain (length sendbuf) (tx_script s) = Some rest"
  shows "Socket_TCPClientSendData sendbuf s =
    Inr (int (length sendbuf), s\<lparr>send_lock := False, net_out := net_out s @ sendbuf, tx_script := rest\<rparr>)"
  using assms send_loop_drain [where sendbuf = sendbuf and sent = 0 and s = "s\<lparr>send_lock := True\<rparr>"]
  by (simp add: Socket_TCPClientSendData_def)


text \<open>
  When \<open>select\<close> reports an error while the agent waits to send, the call returns -1 with the
  mutex still locked, and no later call of \<open>Socket_TCPClientSendData\<close> returns, whatever the
  stack does: neither commands nor heartbeats nor sensor data are sent any more.
\<close>

theorem send_mutex_leak:
  assumes "\<not> send_lock s" "sendbuf \<noteq> []" "tx_script s = st # steps" "tx_select st = -1"
  shows "\<exists>s'. Socket_TCPClientSendData sendbuf s = Inr (-1, s') \<and>
    (\<forall>later script. Socket_TCPClientSendData later (s'\<lparr>tx_script := script\<rparr>) = Inl Diverges)"
  using assms by (simp add: Socket_TCPClientSendData_def)

theorem send_mutex_leak_witness:
  "\<exists>s'. Socket_TCPClientSendData [1] \<lparr>TCPClientFd = 3, TCPClient_reset_flag = 1, send_lock = False, net_out = [], net_in = [],
       tx_script = [\<lparr>tx_select = -1, tx_ready = False, tx_sent = 0\<rparr>]\<rparr> = Inr (-1, s') \<and>
     (\<forall>later script. Socket_TCPClientSendData later (s'\<lparr>tx_script := script\<rparr>) = Inl Diverges)"
  by (rule send_mutex_leak [where st = "\<lparr>tx_select = -1, tx_ready = False, tx_sent = 0\<rparr>" and steps = "[]"]) simp_all

section \<open>The table of LAN clients\<close>

inductive lan_reachable :: "int \<Rightarrow> lan_state \<Rightarrow> bool" for fd where
  start: "lan_reachable fd (lan_init fd)"
| pass: "lan_reachable fd s \<Longrightarrow> lan_pass sel fdset recvd new_fd s = Inr (s', served) \<Longrightarrow> lan_reachable fd s'"

text \<open>The counter of clients only ever goes down, so that the limit on their number has no effect.\<close>

definition lan_inv :: "int \<Rightarrow> lan_state \<Rightarrow> bool" where
  "lan_inv fd s \<longleftrightarrow> TCPServerFd s = fd \<and> length (lan_client s) = TCP_SERVER_CLIENT_MAX_NUM \<and> client_connect_count s \<le> 0"

lemma serve_clients_inv:
  "serve_clients k recvd fdset s = Inr (fdset', s', served) \<Longrightarrow> lan_inv fd s \<Longrightarrow> lan_inv fd s'"
proof (induction k arbitrary: fdset s served)
  case 0
  then show ?case by simp
next
  case (Suc k)
  let ?i = "TCP_SERVER_CLIENT_MAX_NUM - Suc k"
  let ?drop = "s\<lparr>client_connect_count := client_connect_count s - 1, lan_client := (lan_client s)[?i := -1]\<rparr>"
  have drop: "lan_inv fd ?drop" using Suc.prems(2) by (simp add: lan_inv_def)
  obtain c where c: "load (lan_client s) ?i = Inr c"
    using Suc.prems(1) by (cases "load (lan_client s) ?i") (simp_all add: Let_def)
  consider "serve_clients k recvd (FD_CLR c fdset) ?drop = Inr (fdset', s', served)"
    | served' where "serve_clients k recvd fdset s = Inr (fdset', s', served')"
    using Suc.prems(1) c
    by (cases "FD_ISSET c fdset"; cases "recvd c \<le> 0"; cases "serve_clients k recvd fdset s") (auto simp: Let_def)
  then show ?case
  proof cases
    case 1
    then show ?thesis using drop by (rule Suc.IH)
  next
    case 2
    then show ?thesis using Suc.prems(2) by (rule Suc.IH)
  qed
qed

lemma accept_client_inv: "accept_client new_fd s = Inr s' \<Longrightarrow> lan_inv fd s \<Longrightarrow> lan_inv fd s'"
  by (auto simp: accept_client_def Let_def c_bind store_def lan_inv_def split: if_splits)

lemma lan_reachable_inv: "lan_reachable fd s \<Longrightarrow> lan_inv fd s"
proof (induction rule: lan_reachable.induct)
  case start
  then show ?case by (simp add: lan_inv_def lan_init_def)
next
  case (pass s sel fdset recvd new_fd s' served)
  then show ?case
    by (auto simp: lan_pass_def c_bind split: if_splits dest: serve_clients_inv accept_client_inv)
qed

text \<open>
  C40: In every state the LAN server can reach, whatever clients have come and gone, the check of
  the number of clients passes; when the table is full, the next client that is accepted is
  written behind its end.
\<close>

theorem lan_full_table_overflow:
  assumes "lan_reachable fd s" "-1 \<notin> set (lan_client s)" "0 \<le> new_fd"
  shows "client_connect_count s < int TCP_SERVER_CLIENT_MAX_NUM \<and> accept_client new_fd s = Inl OutOfBounds"
proof -
  have inv: "lan_inv fd s" using assms(1) by (rule lan_reachable_inv)
  have "takeWhile (\<lambda>fd. fd \<noteq> -1) (lan_client s) = lan_client s"
    unfolding takeWhile_eq_all_conv using assms(2) by auto
  then have "free_slot (lan_client s) = length (lan_client s)" unfolding free_slot_def by (rule arg_cong)
  then show ?thesis
    using inv assms(3) by (auto simp: accept_client_def lan_inv_def store_def TCP_SERVER_CLIENT_MAX_NUM_def Let_def)
qed

lemma lan_five_clients:
  "lan_reachable 0 \<lparr>TCPServerFd = 0, lan_client = [1, 2, 3, 4, 5], client_connect_count = 0, max_sock = 6\<rparr>"
proof -
  have step: "lan_reachable 0 s \<Longrightarrow> lan_pass 1 {0} (\<lambda>_. 1) n s = Inr (s', []) \<Longrightarrow> lan_reachable 0 s'" for s n s'
    by (rule lan_reachable.pass)
  have serve: "serve_clients 5 (\<lambda>_. 1) {0} s = Inr ({0}, s, [])" if "length (lan_client s) = 5" "\<forall>c \<in> set (lan_client s). c \<noteq> 0" for s
    using that by (simp add: eval_nat_numeral TCP_SERVER_CLIENT_MAX_NUM_def load_def FD_ISSET_def Let_def)
  note simps = lan_pass_def accept_client_def free_slot_def store_def serve TCP_SERVER_CLIENT_MAX_NUM_def FD_ISSET_def Let_def
  let ?s = "\<lambda>cs m. \<lparr>TCPServerFd = 0, lan_client = cs, client_connect_count = 0, max_sock = m\<rparr>"
  have "lan_reachable 0 (?s [-1, -1, -1, -1, -1] 0)"
    using lan_reachable.start [of 0] by (simp add: lan_init_def TCP_SERVER_CLIENT_MAX_NUM_def eval_nat_numeral)
  then have "lan_reachable 0 (?s [1, -1, -1, -1, -1] 2)" by (rule step [of _ 1]) (simp add: simps)
  then have "lan_reachable 0 (?s [1, 2, -1, -1, -1] 3)" by (rule step [of _ 2]) (simp add: simps)
  then have "lan_reachable 0 (?s [1, 2, 3, -1, -1] 4)" by (rule step [of _ 3]) (simp add: simps)
  then have "lan_reachable 0 (?s [1, 2, 3, 4, -1] 5)" by (rule step [of _ 4]) (simp add: simps)
  then show ?thesis by (rule step [of _ 5]) (simp add: simps)
qed

theorem lan_full_table_overflow_witness:
  "accept_client 6 \<lparr>TCPServerFd = 0, lan_client = [1, 2, 3, 4, 5], client_connect_count = 0, max_sock = 6\<rparr> = Inl OutOfBounds"
  using lan_full_table_overflow [OF lan_five_clients, of 6] by simp

end
