(* ===== verification/Cloud.thy ===== *)
theory Cloud
  imports EdpJson NetAdapter
begin

text \<open>
  The agent's session with the cloud (\<open>User/cloud.c\<close>, \<open>User/sensors.c\<close>), for the EDP modes of
  \<open>onenet_comm.h\<close>: the connect request, the loop that receives bytes and hands the packets in them
  to their handlers, the answers to commands, the heartbeat and the upload of sensor data.  What
  the handlers do with a packet besides that is to log it; \<open>reported\<close> collects what they log.  Payloads
  are logged with \<open>%s\<close> although their blocks have no terminating NUL, so that what is printed depends on
  the memory behind the block.
\<close>

section \<open>State\<close>

datatype conn_stat = SOCK_NONE | SOCK_ERROR | SOCK_DONE | CLOUD_CONN_NONE | CLOUD_CONN_ERROR | CLOUD_CONN_DONE

definition CLOUD_RECV_BUFFER_SIZE :: nat where "CLOUD_RECV_BUFFER_SIZE = 2500"

datatype report =
    ConnectResponse int
  | PingResponse
  | PushData cstring cstring u32
  | SaveJson "cstring option" cstring
  | SaveBin "cstring option" cstring cstring u32
  | SaveString cstring
  | SaveOther
  | SaveError
  | SaveAck cstring
  | CommandDump bytes
  | UnknownPacket

text \<open>
  \<open>reported\<close> lists the log messages with their arguments as printed.  \<open>heap_tail n\<close> is what stands in
  memory behind the block that the \<open>n\<close>-th of them prints.
\<close>

record cloud_state = net_state +
  conn_status :: conn_stat
  SensorTaskFlag :: u8
  reported :: "report list"
  heap_tail :: "nat \<Rightarrow> bytes"

definition log_report :: "report \<Rightarrow> cloud_state \<Rightarrow> cloud_state" where
  "log_report r s = s\<lparr>reported := reported s @ [r]\<rparr>"

text \<open>\<open>%s\<close> on a block without a NUL of its own goes on behind it.\<close>

definition printed :: "bytes \<Rightarrow> cloud_state \<Rightarrow> cstring outcome" where
  "printed block s =
     (let m = block @ heap_tail s (length (reported s)) in if 0 \<in> set m then Inr (cstr m) else Inl OutOfBounds)"

section \<open>The handlers\<close>

text \<open>\<open>free\<close> of what \<open>malloc(n)\<close> has returned; \<open>OS_FreeMem\<close> reads the header in front of address 0.\<close>

definition free_block :: "mallocator \<Rightarrow> u32 \<Rightarrow> unit outcome" where
  "free_block mm n = (if mm n = None then Inl NullPointer else Inr ())"

definition free_string :: "cstring option \<Rightarrow> unit outcome" where
  "free_string p = (if p = None then Inl NullPointer else Inr ())"

text \<open>Sending \<open>pkg->_data\<close> up to \<open>pkg->_write_pos\<close> and deleting the packet.\<close>

definition send_packet :: "edp_buffer \<Rightarrow> cloud_state \<Rightarrow> (int \<times> cloud_state) outcome" where
  "send_packet pkg s =
     ebind (load_n (bdata pkg) 0 (unat (write_pos pkg))) (\<lambda>bs.
     ebind (Socket_TCPClientSendData bs s) (\<lambda>(ret, s).
     ebind (DeleteBuffer (Some pkg)) (\<lambda>_. Inr (ret, s))))"

definition handle_connresp :: "edp_buffer \<Rightarrow> cloud_state \<Rightarrow> cloud_state outcome" where
  "handle_connresp pkg s =
     ebind (UnpackConnectResp pkg) (\<lambda>(r, pkg).
     let rtn = (case r of Inl e \<Rightarrow> e | Inr rtn \<Rightarrow> uint rtn) in
     Inr ((log_report (ConnectResponse rtn) s)\<lparr>SensorTaskFlag := 1, conn_status := CLOUD_CONN_DONE\<rparr>))"

definition handle_pingresp :: "edp_buffer \<Rightarrow> cloud_state \<Rightarrow> cloud_state outcome" where
  "handle_pingresp pkg s = ebind (UnpackPingResp pkg) (\<lambda>_. Inr (log_report PingResponse s))"

text \<open>A failed parse leaves \<open>push_data\<close> without a value; it is logged and freed all the same.\<close>

definition handle_pushdata :: "mallocator \<Rightarrow> edp_buffer \<Rightarrow> cloud_state \<Rightarrow> cloud_state outcome" where
  "handle_pushdata mm pkg s =
     ebind (UnpackPushdata mm pkg) (\<lambda>(r, pkg).
     case r of
       Inl _ \<Rightarrow> Inl UninitRead
     | Inr (src_devid, push_data, push_datalen) \<Rightarrow>
         ebind (printed push_data s) (\<lambda>text.
         ebind (free_string (Some src_devid)) (\<lambda>_.
         ebind (free_block mm push_datalen) (\<lambda>_.
         Inr (log_report (PushData src_devid text push_datalen) s)))))"

text \<open>
  The three JSON types.  When there is no text, \<open>save_json\<close> has no value; when the text cannot be
  parsed it is NULL, \<open>cJSON_Print\<close> returns NULL, and that is freed.
\<close>

definition save_json :: "'d doubles \<Rightarrow> mallocator \<Rightarrow> cstring option \<Rightarrow> edp_buffer \<Rightarrow> cloud_state \<Rightarrow> cloud_state outcome" where
  "save_json D mm src_devid pkg s =
     ebind (UnpackSavedataJson D mm pkg) (\<lambda>(r, pkg).
     case r of
       Inl e \<Rightarrow> Inl (if e = ERR_UNPACK_SAVED_JSON then UninitRead else NullPointer)
     | Inr json \<Rightarrow>
         ebind (cJSON_Print D mm json) (\<lambda>save_json_str.
         case save_json_str of
           None \<Rightarrow> Inl NullPointer
         | Some str \<Rightarrow> Inr (log_report (SaveJson src_devid str) s)))"

definition save_bin :: "'d doubles \<Rightarrow> mallocator \<Rightarrow> cstring option \<Rightarrow> edp_buffer \<Rightarrow> cloud_state \<Rightarrow> cloud_state outcome" where
  "save_bin D mm src_devid pkg s =
     ebind (UnpackSavedataBin D mm pkg) (\<lambda>(r, pkg).
     case r of
       Inl _ \<Rightarrow> Inl UninitRead
     | Inr (desc_json, bin, save_binlen) \<Rightarrow>
         ebind (cJSON_Print D mm desc_json) (\<lambda>desc_json_str.
         case desc_json_str of
           None \<Rightarrow> Inl NullPointer
         | Some str \<Rightarrow>
             ebind (printed bin s) (\<lambda>text.
             ebind (free_block mm save_binlen) (\<lambda>_.
             Inr (log_report (SaveBin src_devid str text save_binlen) s)))))"

text \<open>
  After a failed parse \<open>simple_str\<close> is NULL, or the pointer that an earlier packet of the same
  call has freed; \<open>NullPointer\<close> stands for the use of either.
\<close>

definition save_string :: "mallocator \<Rightarrow> edp_buffer \<Rightarrow> cloud_state \<Rightarrow> cloud_state outcome" where
  "save_string mm pkg s =
     ebind (UnpackSavedataSimpleString mm pkg) (\<lambda>(r, pkg).
     case r of
       Inl _ \<Rightarrow> Inl NullPointer
     | Inr simple_str \<Rightarrow> Inr (log_report (SaveString simple_str) s))"

definition handle_savedata :: "'d doubles \<Rightarrow> mallocator \<Rightarrow> edp_buffer \<Rightarrow> cloud_state \<Rightarrow> cloud_state outcome" where
  "handle_savedata D mm pkg s =
     ebind (UnpackSavedata mm pkg) (\<lambda>(r, pkg).
     case r of
       Inl _ \<Rightarrow> Inr (log_report SaveError s)
     | Inr (src_devid, jsonorbin) \<Rightarrow>
         ebind (if jsonorbin = kTypeFullJson \<or> jsonorbin = kTypeSimpleJsonWithoutTime \<or> jsonorbin = kTypeSimpleJsonWithTime
                then save_json D mm src_devid pkg s
                else if jsonorbin = kTypeBin then save_bin D mm src_devid pkg s
                else if jsonorbin = kTypeString then save_string mm pkg s
                else Inr (log_report SaveOther s)) (\<lambda>s.
         ebind (free_string src_devid) (\<lambda>_. Inr s)))"

definition handle_saveack :: "mallocator \<Rightarrow> edp_buffer \<Rightarrow> cloud_state \<Rightarrow> cloud_state outcome" where
  "handle_saveack mm pkg s =
     ebind (UnpackSavedataAck mm pkg) (\<lambda>(r, pkg).
     case r of
       Inl _ \<Rightarrow> Inl NullPointer
     | Inr json_ack \<Rightarrow>
         ebind (printed json_ack s) (\<lambda>text.
         ebind (free_block mm (word_of_nat (length json_ack))) (\<lambda>_. Inr (log_report (SaveAck text) s))))"

definition cmd_resp :: cstring where "cmd_resp = [0x6f, 0x6b]"

definition handle_cmdreq :: "mallocator \<Rightarrow> edp_buffer \<Rightarrow> cloud_state \<Rightarrow> cloud_state outcome" where
  "handle_cmdreq mm pkg s =
     ebind (load_n (bdata pkg) 0 (unat (write_pos pkg))) (\<lambda>dump.
     let s = log_report (CommandDump dump) s in
     ebind (UnpackCmdReq mm pkg) (\<lambda>(r, pkg).
     case r of
       Inl _ \<Rightarrow> Inr s
     | Inr (cmdid, cmdid_len, cmd_req, cmd_req_len) \<Rightarrow>
         ebind (PacketCmdResp mm cmdid cmdid_len cmd_resp (word_of_nat (length cmd_resp))) (\<lambda>send_pkg.
         ebind (send_packet send_pkg s) (\<lambda>(ret, s).
         ebind (free_block mm (ucast cmdid_len)) (\<lambda>_.
         ebind (free_block mm cmd_req_len) (\<lambda>_. Inr s))))))"

definition handle_packet :: "'d doubles \<Rightarrow> mallocator \<Rightarrow> edp_buffer \<Rightarrow> cloud_state \<Rightarrow> cloud_state outcome" where
  "handle_packet D mm pkg s =
     ebind (EdpPacketType pkg) (\<lambda>(mtype, pkg).
     if mtype = CONNRESP then handle_connresp pkg s
     else if mtype = PINGRESP then handle_pingresp pkg s
     else if mtype = PUSHDATA then handle_pushdata mm pkg s
     else if mtype = SAVEDATA then handle_savedata D mm pkg s
     else if mtype = SAVEACK then handle_saveack mm pkg s
     else if mtype = CMDREQ then handle_cmdreq mm pkg s
     else Inr (log_report UnknownPacket s))"

section \<open>Receiving\<close>

text \<open>Each packet that \<open>GetEdpPacket\<close> delivers makes the receive buffer shorter.\<close>

lemma pkg_len_loop_early:
  "pkg_len_loop data data_len len_len len_val mult = Inr (Inl rc) \<Longrightarrow> rc \<le> 0"
proof (induction data data_len len_len len_val mult rule: pkg_len_loop.induct)
  case (1 data data_len len_len len_val mult)
  show ?case
    using 1(2) [unfolded pkg_len_loop.simps [of _ _ len_len]] 1(1) by (auto simp: c_bind Let_def split: if_splits)
qed

lemma GetEdpPacket_shorter:
  assumes "GetEdpPacket mm buf = Inr (Some pkg, buf')"
  shows "unat (write_pos buf') < unat (write_pos buf)"
proof -
  obtain flag where f: "IsPkgComplete buf = Inr flag" "0 < flag" and wp: "write_pos buf' = write_pos buf - word_of_int flag"
    using assms by (auto simp: GetEdpPacket_def c_bind split: if_splits)
  obtain t where t: "flag = sint t" "t \<le> write_pos buf"
  proof (cases "pkg_len_loop (bdata buf) (write_pos buf) 1 0 1")
    case (Inl e)
    with f show ?thesis by (auto simp: IsPkgComplete_def Let_def split: if_splits)
  next
    case r: (Inr r)
    show ?thesis
    proof (cases r)
      case (Inl rc)
      with f r pkg_len_loop_early [OF r [unfolded Inl]] show ?thesis by (auto simp: IsPkgComplete_def Let_def split: if_splits)
    next
      case (Inr kv)
      with f r that show ?thesis by (cases kv) (auto simp: IsPkgComplete_def Let_def split: if_splits)
    qed
  qed
  have "0 < unat t" using f(2) t(1) by (auto simp: unat_gt_0)
  then show ?thesis
    using t wp by (simp add: unat_sub_no_wrap word_le_nat_alt)
qed

function recv_loop :: "'d doubles \<Rightarrow> mallocator \<Rightarrow> edp_buffer \<Rightarrow> cloud_state \<Rightarrow> cloud_state outcome" where
  "recv_loop D mm recvbuf s =
     ebind (GetEdpPacket mm recvbuf) (\<lambda>(pkg, recvbuf).
     case pkg of
       None \<Rightarrow> Inr s
     | Some pkg \<Rightarrow>
         ebind (handle_packet D mm pkg s) (\<lambda>s.
         ebind (DeleteBuffer (Some pkg)) (\<lambda>_. recv_loop D mm recvbuf s)))"
  by pat_completeness auto
termination
  by (relation "measure (\<lambda>(D, mm, recvbuf, s). unat (write_pos recvbuf))") (auto dest: GetEdpPacket_shorter)

declare recv_loop.simps [simp del]

definition recv_data_process :: "'d doubles \<Rightarrow> mallocator \<Rightarrow> bytes \<Rightarrow> nat \<Rightarrow> cloud_state \<Rightarrow> cloud_state outcome" where
  "recv_data_process D mm buffer len s =
     recv_loop D mm \<lparr>bdata = buffer, write_pos = word_of_nat len, read_pos = 0, capacity = BUFFER_SIZE\<rparr> s"

section \<open>The session\<close>

text \<open>
  The connect request is sent up to four times: \<open>tries\<close> is the number of attempts that are left
  before \<open>failedcnt\<close> exceeds three.  The result tells whether the receive loop is entered.
\<close>

primrec send_connect :: "nat \<Rightarrow> mallocator \<Rightarrow> cstring \<Rightarrow> cstring \<Rightarrow> cloud_state \<Rightarrow> (bool \<times> cloud_state) outcome" where
  "send_connect 0 mm devid key s = Inr (False, Socket_TCPClientClose s)"
| "send_connect (Suc tries) mm devid key s =
     ebind (PacketConnect1 mm devid key) (\<lambda>connect_pkg.
     ebind (send_packet connect_pkg s) (\<lambda>(ret, s).
     if ret < 0 then send_connect tries mm devid key (s\<lparr>conn_status := CLOUD_CONN_ERROR\<rparr>)
     else Inr (True, s)))"

text \<open>
  One round of the receive loop: \<open>True\<close> when it ends the session.  The byte behind the received
  ones is cleared in the buffer of 2500 bytes.
\<close>

definition recv_round :: "'d doubles \<Rightarrow> mallocator \<Rightarrow> rx_step \<Rightarrow> cloud_state \<Rightarrow> (bool \<times> cloud_state) outcome" where
  "recv_round D mm st s =
     (case Socket_TCPClientRecvData st CLOUD_RECV_BUFFER_SIZE s of (ret, recv_buf, s) \<Rightarrow>
      ebind (if ret > 0
             then ebind (store recv_buf (nat ret) 0) (\<lambda>recv_buf. recv_data_process D mm recv_buf (nat ret) s)
             else Inr s) (\<lambda>s.
      if ret < 0 \<or> TCPClient_reset_flag s = 0xa5 then Inr (True, Socket_TCPClientClose s)
      else Inr (False, s)))"

text \<open>The receive loop; when the script ends, it waits for ever.\<close>

fun cloud_loop :: "'d doubles \<Rightarrow> mallocator \<Rightarrow> rx_step list \<Rightarrow> cloud_state \<Rightarrow> (int \<times> cloud_state) outcome" where
  "cloud_loop D mm [] s = Inl Diverges"
| "cloud_loop D mm (st # steps) s =
     ebind (recv_round D mm st s) (\<lambda>(stop, s). if stop then Inr (-1, s) else cloud_loop D mm steps s)"

definition Agent_cloud_process ::
  "'d doubles \<Rightarrow> mallocator \<Rightarrow> cstring \<Rightarrow> cstring \<Rightarrow> rx_step list \<Rightarrow> cloud_state \<Rightarrow> (int \<times> cloud_state) outcome" where
  "Agent_cloud_process D mm devid key steps s =
     ebind (send_connect 4 mm devid key (s\<lparr>conn_status := SOCK_DONE\<rparr>)) (\<lambda>(connected, s).
     if connected then cloud_loop D mm steps s else Inr (-1, s))"

section \<open>Heartbeat and sensor data\<close>

definition cloud_heartbeat_timer_handle :: "mallocator \<Rightarrow> cloud_state \<Rightarrow> cloud_state outcome" where
  "cloud_heartbeat_timer_handle mm s =
     (if conn_status s = CLOUD_CONN_DONE
      then ebind (PacketPing mm) (\<lambda>send_pkg. ebind (send_packet send_pkg s) (\<lambda>(ret, s). Inr s))
      else Inr s)"

text \<open>
  \<open>mk\<close> is the item of the value, as in \<open>PacketSavedataValue\<close>; the three values of \<open>datatype\<close> select
  the instance of the packet macro.
\<close>

definition SensorData_Upload ::
  "'d doubles \<Rightarrow> mallocator \<Rightarrow> cstring \<Rightarrow> cstring \<Rightarrow> cstring \<Rightarrow> 'd cJSON option outcome \<Rightarrow> cstring option \<Rightarrow> cloud_state \<Rightarrow> cloud_state outcome" where
  "SensorData_Upload D mm at src_devid dataPoint mk token s =
     ebind (PacketSavedataValue D mm at kTypeFullJson (Some src_devid) dataPoint mk token) (\<lambda>update_pkg.
     case update_pkg of
       None \<Rightarrow> Inl NullPointer
     | Some pkg \<Rightarrow> ebind (send_packet pkg s) (\<lambda>(ret, s). Inr s))"

definition SensorData_PassThrough :: "mallocator \<Rightarrow> cstring \<Rightarrow> bytes \<Rightarrow> u8 \<Rightarrow> cloud_state \<Rightarrow> cloud_state outcome" where
  "SensorData_PassThrough mm dest data datalen s =
     ebind (PacketPushdata mm dest data (ucast datalen)) (\<lambda>update_pkg.
     ebind (send_packet update_pkg s) (\<lambda>(ret, s). Inr s))"

section \<open>The messages of the server\<close>

text \<open>What the server may send, on the wire, in the log of the agent, and the agent's answer.\<close>

datatype 'd server_msg =
    ConnResp u8 u8
  | PingResp
  | Push cstring bytes
  | SaveText cstring cstring
  | SaveValue cstring u8 "'d cJSON"
  | SaveBinary cstring "'d cJSON" bytes
  | Ack u8 bytes
  | Cmd bytes bytes

fun wire_msg :: "'d server_msg \<Rightarrow> bytes" where
  "wire_msg (ConnResp flag rtn) = frame CONNRESP [flag, rtn]"
| "wire_msg PingResp = frame PINGRESP []"
| "wire_msg (Push devid d) = frame PUSHDATA (wire_str devid @ d)"
| "wire_msg (SaveText devid s) = frame SAVEDATA (wire_address (Some devid) @ kTypeString # wire_str s)"
| "wire_msg (SaveValue devid ty j) = frame SAVEDATA (wire_address (Some devid) @ ty # wire_str (json_text j))"
| "wire_msg (SaveBinary devid j bin) = frame SAVEDATA (wire_address (Some devid) @ kTypeBin #
     wire_str (json_text j) @ be32 (word_of_nat (length bin)) @ bin)"
| "wire_msg (Ack flag t) = frame SAVEACK ([flag] @ be16 (word_of_nat (length t)) @ t)"
| "wire_msg (Cmd cmdid req) = frame CMDREQ (be16 (word_of_nat (length cmdid)) @ cmdid @ be32 (word_of_nat (length req)) @ req)"

text \<open>The log entry of a message, \<open>tail\<close> being the memory behind the block that it prints.\<close>

fun report_of :: "bytes \<Rightarrow> 'd server_msg \<Rightarrow> report" where
  "report_of tail (ConnResp flag rtn) = ConnectResponse (uint rtn)"
| "report_of tail PingResp = PingResponse"
| "report_of tail (Push devid d) = PushData devid (cstr (d @ tail)) (word_of_nat (length d))"
| "report_of tail (SaveText devid s) = SaveString s"
| "report_of tail (SaveValue devid ty j) = SaveJson (Some devid) (json_text j)"
| "report_of tail (SaveBinary devid j bin) = SaveBin (Some devid) (json_text j) (cstr (bin @ tail)) (word_of_nat (length bin))"
| "report_of tail (Ack flag t) = SaveAck (cstr (t @ tail))"
| "report_of tail (Cmd cmdid req) = CommandDump (frame CMDREQ (be16 (word_of_nat (length cmdid)) @ cmdid @ be32 (word_of_nat (length req)) @ req))"

fun reports :: "(nat \<Rightarrow> bytes) \<Rightarrow> nat \<Rightarrow> 'd server_msg list \<Rightarrow> report list" where
  "reports tail n [] = []"
| "reports tail n (m # msgs) = report_of (tail n) m # reports tail (Suc n) msgs"

fun reply :: "'d server_msg \<Rightarrow> bytes" where
  "reply (Cmd cmdid req) = frame CMDRESP (be16 (word_of_nat (length cmdid)) @ cmdid @ be32 2 @ cmd_resp)"
| "reply _ = []"

fun json_item_ok :: "'d doubles \<Rightarrow> nat \<Rightarrow> 'd cJSON \<Rightarrow> bool" where
  "json_item_ok D limit j \<longleftrightarrow> json_ok D j \<and> jstring j = None \<and> 4 * length (json_text j) + 64 \<le> limit"

fun fields_ok :: "'d doubles \<Rightarrow> nat \<Rightarrow> 'd server_msg \<Rightarrow> bool" where
  "fields_ok D limit (Push devid d) \<longleftrightarrow> is_cstring devid"
| "fields_ok D limit (SaveText devid s) \<longleftrightarrow> is_cstring devid \<and> is_cstring s"
| "fields_ok D limit (SaveValue devid ty j) \<longleftrightarrow> is_cstring devid \<and> json_item_ok D limit j \<and>
     ty \<in> {kTypeFullJson, kTypeSimpleJsonWithoutTime, kTypeSimpleJsonWithTime}"
| "fields_ok D limit (SaveBinary devid j bin) \<longleftrightarrow> is_cstring devid \<and> json_item_ok D limit j"
| "fields_ok D limit (Cmd cmdid req) \<longleftrightarrow> fits limit (13 + length cmdid)"
| "fields_ok D limit _ \<longleftrightarrow> True"

definition msg_ok :: "'d doubles \<Rightarrow> nat \<Rightarrow> 'd server_msg \<Rightarrow> bool" where
  "msg_ok D limit m \<longleftrightarrow> fields_ok D limit m \<and> length (wire_msg m) < 2 ^ 16 \<and> fits limit (length (wire_msg m))"

definition is_connresp :: "'d server_msg \<Rightarrow> bool" where
  "is_connresp m \<longleftrightarrow> (case m of ConnResp _ _ \<Rightarrow> True | _ \<Rightarrow> False)"

definition deliver :: "'d server_msg \<Rightarrow> tx_step list \<Rightarrow> cloud_state \<Rightarrow> cloud_state" where
  "deliver m rest s = s\<lparr>send_lock := False, net_out := net_out s @ reply m, tx_script := rest,
     conn_status := if is_connresp m then CLOUD_CONN_DONE else conn_status s,
     SensorTaskFlag := if is_connresp m then 1 else SensorTaskFlag s,
     reported := reported s @ [report_of (heap_tail s (length (reported s))) m]\<rparr>"

abbreviation next_tail :: "cloud_state \<Rightarrow> bytes" where
  "next_tail s \<equiv> heap_tail s (length (reported s))"

lemma printed_ok: "0 \<in> set (next_tail s) \<Longrightarrow> printed block s = Inr (cstr (block @ next_tail s))"
  by (simp add: printed_def Let_def)

lemma deliver_silent:
  assumes "reply m = []" "\<not> send_lock s" "drain (length (reply m)) (tx_script s) = Some rest"
  shows "deliver m rest s = (if is_connresp m then (log_report (report_of (next_tail s) m) s)\<lparr>SensorTaskFlag := 1, conn_status := CLOUD_CONN_DONE\<rparr>
    else log_report (report_of (next_tail s) m) s)"
proof -
  have "rest = tx_script s" using assms by (cases "tx_script s") auto
  then show ?thesis using assms by (cases s) (simp add: deliver_def log_report_def)
qed

lemma frame_body_bound:
  assumes "length (frame t body) < 2 ^ 16"
  shows "length body < 2 ^ 16" "length body < 2 ^ 28"
  using assms by (simp_all add: frame_def)

lemma unat_of_length16: "n < 2 ^ 16 \<Longrightarrow> unat (word_of_nat n :: u16) = n"
  by (rule unat_of_nat_no_wrap) simp

lemma unat_of_length32: "n < 2 ^ 16 \<Longrightarrow> unat (word_of_nat n :: u32) = n"
  by (rule unat_of_nat_no_wrap) simp

lemma frame_head:
  assumes r: "rbuf b (frame t body)" and len: "length body < 2 ^ 28"
  obtains b' where "ReadRemainlen (adv b 1) = Inr (Some (word_of_nat (length body)), b')" "rbuf b' body"
  using ReadRemainlen_ok [OF EdpPacketType_frame(2) [OF r] len] rbuf_adv_rl_enc [OF EdpPacketType_frame(2) [OF r] len] by blast

context byte_malloc
begin

lemma free_block_ok: "unat n \<le> limit \<Longrightarrow> free_block mm n = Inr ()"
  using mm_ok [of n] by (simp add: free_block_def)

lemma rbuf_of: "wbuf pkg \<Longrightarrow> contents pkg = bs \<Longrightarrow> rbuf pkg bs"
  using wbuf_rbuf by blast

lemma handle_ConnResp:
  assumes w: "wbuf pkg" "contents pkg = wire_msg (ConnResp flag rtn)"
  shows "handle_packet D mm pkg s = Inr ((log_report (ConnectResponse (uint rtn)) s)\<lparr>SensorTaskFlag := 1, conn_status := CLOUD_CONN_DONE\<rparr>)"
proof -
  have r: "rbuf pkg (frame CONNRESP [flag, rtn])" using rbuf_of [OF w] by simp
  then obtain b2 where rl: "ReadRemainlen (adv pkg 1) = Inr (Some 2, b2)" and b2: "rbuf b2 [flag, rtn]"
    by (rule frame_head) simp_all
  note b3 = rbuf_adv1 [OF b2]
  note b4 = rbuf_adv1 [OF b3]
  have "UnpackConnectResp (adv pkg 1) = Inr (Inr rtn, adv (adv b2 1) 1)"
    using rl ReadByte_Cons [OF b2] ReadByte_Cons [OF b3] all_read_ok [OF b4] by (simp add: UnpackConnectResp_def)
  then show ?thesis
    using EdpPacketType_frame(1) [OF r] by (simp add: handle_packet_def handle_connresp_def Let_def)
qed

lemma handle_PingResp:
  assumes w: "wbuf pkg" "contents pkg = wire_msg PingResp"
  shows "handle_packet D mm pkg s = Inr (log_report PingResponse s)"
proof -
  have r: "rbuf pkg (frame PINGRESP [])" using rbuf_of [OF w] by simp
  then obtain b2 where rl: "ReadRemainlen (adv pkg 1) = Inr (Some 0, b2)" and b2: "rbuf b2 []"
    by (rule frame_head) simp_all
  have "UnpackPingResp (adv pkg 1) = Inr (Inr (), b2)"
    using rl all_read_ok [OF b2] by (simp add: UnpackPingResp_def)
  then show ?thesis
    using EdpPacketType_frame(1) [OF r] by (simp add: handle_packet_def handle_pingresp_def CONNRESP_def PINGRESP_def)
qed

lemma handle_Push:
  assumes w: "wbuf pkg" "contents pkg = wire_msg (Push devid d)" and ok: "msg_ok D limit (Push devid d)"
    and nul: "0 \<in> set (next_tail s)"
  shows "handle_packet D mm pkg s = Inr (log_report (report_of (next_tail s) (Push devid d)) s)"
proof -
  have r: "rbuf pkg (frame PUSHDATA (wire_str devid @ d))" using rbuf_of [OF w] by simp
  have len: "2 + length devid + length d < 2 ^ 16" "1 + length devid + length d \<le> limit" "is_cstring devid"
    using ok fits_le [OF byte_malloc_axioms, of "length (wire_msg (Push devid d))"] by (auto simp: msg_ok_def frame_def)
  have n: "unat (word_of_nat (length d) :: u32) = length d" using len by (intro unat_of_length32) simp
  obtain b' where "UnpackPushdata mm (adv pkg 1) = Inr (Inr (devid, d, word_of_nat (length d)), b')"
    using UnpackPushdata_frame [OF r len(3) _ n] len by auto
  then show ?thesis
    using EdpPacketType_frame(1) [OF r] free_block_ok [of "word_of_nat (length d)"] n len
    by (simp add: printed_ok [OF nul] handle_packet_def handle_pushdata_def free_string_def PUSHDATA_def CONNRESP_def PINGRESP_def)
qed

lemma handle_savedata_frame:
  assumes w: "wbuf pkg" "contents pkg = frame SAVEDATA (wire_address (Some devid) @ ty # rs)"
    and ok: "is_cstring devid" "fits limit (length (contents pkg))" "length (contents pkg) < 2 ^ 16"
  obtains b' where "rbuf b' rs" "handle_packet D mm pkg s =
    (if ty = kTypeFullJson \<or> ty = kTypeSimpleJsonWithoutTime \<or> ty = kTypeSimpleJsonWithTime then save_json D mm (Some devid) b' s
     else if ty = kTypeBin then save_bin D mm (Some devid) b' s
     else if ty = kTypeString then save_string mm b' s else Inr (log_report SaveOther s))"
proof -
  have r: "rbuf pkg (frame SAVEDATA (wire_address (Some devid) @ ty # rs))" using rbuf_of [OF w] .
  have len: "length devid < 2 ^ 16" "length devid < limit" "length (wire_address (Some devid) @ ty # rs) < 2 ^ 28"
    using ok(2,3) fits_le [OF byte_malloc_axioms ok(2)] unfolding w(2) by (auto simp: frame_def wire_address_def)
  obtain b' where b': "UnpackSavedata mm (adv pkg 1) = Inr (Inr (Some devid, ty), b')" "rbuf b' rs"
    using UnpackSavedata_frame [OF r _ len(3)] ok(1) len by auto
  have f: "ebind m (\<lambda>s. ebind (free_string (Some devid)) (\<lambda>_. Inr s)) = m" for m :: "cloud_state outcome"
    by (cases m) (simp_all add: free_string_def)
  show thesis
    using b' EdpPacketType_frame(1) [OF r]
    by (intro that [of b']) (simp_all add: handle_packet_def handle_savedata_def f CONNRESP_def PINGRESP_def PUSHDATA_def SAVEDATA_def)
qed

lemma handle_SaveText:
  assumes w: "wbuf pkg" "contents pkg = wire_msg (SaveText devid t)" and ok: "msg_ok D limit (SaveText devid t)"
  shows "handle_packet D mm pkg s = Inr (log_report (SaveString t) s)"
proof -
  have len: "fits limit (length (contents pkg))" "length (contents pkg) < 2 ^ 16" "is_cstring devid" "is_cstring t"
    using ok by (simp_all add: w(2) msg_ok_def)
  have t: "length t < 2 ^ 16" "length t < limit"
    using len(2) fits_le [OF byte_malloc_axioms len(1)] by (auto simp: w(2) frame_def)
  obtain b' where b': "rbuf b' (wire_str t @ [])" and h: "handle_packet D mm pkg s = save_string mm b' s"
    using handle_savedata_frame [OF w(1), of devid kTypeString "wire_str t" D s] w(2) len
    by (auto simp: kTypeString_def kTypeFullJson_def kTypeSimpleJsonWithoutTime_def kTypeSimpleJsonWithTime_def kTypeBin_def)
  show ?thesis using h UnpackSavedataSimpleString_wire [OF b' len(4) t] by (auto simp: save_string_def)
qed

lemma handle_SaveValue:
  assumes D: "exact_integers D" and w: "wbuf pkg" "contents pkg = wire_msg (SaveValue devid ty j)" and ok: "msg_ok D limit (SaveValue devid ty j)"
  shows "handle_packet D mm pkg s = Inr (log_report (report_of (next_tail s) (SaveValue devid ty j)) s)"
proof -
  have len: "fits limit (length (contents pkg))" "length (contents pkg) < 2 ^ 16" "is_cstring devid"
    and j: "json_ok D j" "jstring j = None" "4 * length (json_text j) + 64 \<le> limit"
    and ty: "ty = kTypeFullJson \<or> ty = kTypeSimpleJsonWithoutTime \<or> ty = kTypeSimpleJsonWithTime"
    using ok by (simp_all add: w(2) msg_ok_def)
  have t: "length (json_text j) < 2 ^ 16" "length (json_text j) < limit" "length (json_text j) \<le> limit"
    using len(2) j(3) by (auto simp: w(2) frame_def)
  obtain b' where b': "rbuf b' (wire_str (json_text j))" and h: "handle_packet D mm pkg s = save_json D mm (Some devid) b' s"
    using handle_savedata_frame [OF w(1), of devid ty "wire_str (json_text j)" D s] w(2) len ty by auto
  obtain b'' where "UnpackSavedataJson D mm b' = Inr (Inr j, b'')"
    using UnpackSavedataJson_wire [OF byte_malloc_axioms b' json_text_cstring [OF j(1)] t(1,2)
      cJSON_Parse_text [OF byte_malloc_axioms D j(1) t(3) j(2)]] by blast
  then show ?thesis
    using h cJSON_Print_text [OF byte_malloc_axioms D j(1,3)] by (simp add: save_json_def)
qed

lemma handle_SaveBinary:
  assumes D: "exact_integers D" and w: "wbuf pkg" "contents pkg = wire_msg (SaveBinary devid j bin)" and ok: "msg_ok D limit (SaveBinary devid j bin)"
    and nul: "0 \<in> set (next_tail s)"
  shows "handle_packet D mm pkg s = Inr (log_report (report_of (next_tail s) (SaveBinary devid j bin)) s)"
proof -
  let ?t = "json_text j" let ?n = "word_of_nat (length bin) :: u32"
  have len: "fits limit (length (contents pkg))" "length (contents pkg) < 2 ^ 16" "is_cstring devid"
    and j: "json_ok D j" "jstring j = None" "4 * length ?t + 64 \<le> limit"
    using ok by (simp_all add: w(2) msg_ok_def)
  have t: "length ?t < 2 ^ 16" "length ?t < limit" "length ?t \<le> limit" "length bin < 2 ^ 16" "length bin \<le> limit"
    using len(2) j(3) fits_le [OF byte_malloc_axioms len(1)] by (auto simp: w(2) frame_def)
  have n: "unat ?n = length bin" using t(4) by (rule unat_of_length32)
  obtain b' where b': "rbuf b' (wire_str ?t @ be32 ?n @ bin)" and h: "handle_packet D mm pkg s = save_bin D mm (Some devid) b' s"
    using handle_savedata_frame [OF w(1), of devid kTypeBin "wire_str ?t @ be32 ?n @ bin" D s] w(2) len
    by (auto simp: kTypeString_def kTypeFullJson_def kTypeSimpleJsonWithoutTime_def kTypeSimpleJsonWithTime_def kTypeBin_def)
  note str = ReadStr_wire [OF b' json_text_cstring [OF j(1)] t(1,2)]
  note b1 = rbuf_after_str [OF b' t(1)]
  have b2: "rbuf (adv (adv b' (2 + word_of_nat (length ?t))) 4) (bin @ [])"
    using b1 rbuf_adv_append [OF b1, of 4] by simp
  have b3: "rbuf (adv (adv (adv b' (2 + word_of_nat (length ?t))) 4) ?n) []"
    using n by (intro rbuf_adv_append [OF b2]) simp
  show ?thesis
    using h str ReadUint32_ok [OF b1] ReadBytes_wire [OF b2, of ?n] all_read_ok [OF b3, of "(j, bin, ?n)"] n t
      cJSON_Parse_text [OF byte_malloc_axioms D j(1) t(3) j(2)] cJSON_Print_text [OF byte_malloc_axioms D j(1,3)]
      free_block_ok [of ?n]
    by (simp add: printed_ok [OF nul] save_bin_def UnpackSavedataBin_def)
qed

lemma handle_Ack:
  assumes w: "wbuf pkg" "contents pkg = wire_msg (Ack flag t)" and ok: "msg_ok D limit (Ack flag t)"
    and nul: "0 \<in> set (next_tail s)"
  shows "handle_packet D mm pkg s = Inr (log_report (report_of (next_tail s) (Ack flag t)) s)"
proof -
  let ?n = "word_of_nat (length t) :: u16"
  have r: "rbuf pkg (frame SAVEACK ([flag] @ be16 ?n @ t))" using rbuf_of [OF w] by simp
  have len: "length t + 3 < 2 ^ 16" "length t \<le> limit"
    using ok fits_le [OF byte_malloc_axioms, of "length (wire_msg (Ack flag t))"] by (auto simp: msg_ok_def frame_def)
  have n: "unat ?n = length t" using len(1) by (intro unat_of_length16) simp
  have n32: "unat (ucast ?n :: u32) = length t" using n len by (simp add: unsigned_ucast_eq take_bit_nat_eq_self)
  obtain b2 where rl: "ReadRemainlen (adv pkg 1) = Inr (Some (word_of_nat (length ([flag] @ be16 ?n @ t))), b2)"
    and b2: "rbuf b2 ([flag] @ be16 ?n @ t)"
    using r by (rule frame_head) (use len in simp_all)
  have b2': "rbuf b2 (flag # be16 ?n @ t)" using b2 by simp
  note b3 = rbuf_adv1 [OF b2']
  have b4: "rbuf (adv (adv b2 1) 2) (t @ [])" using rbuf_adv_append [OF b3, of 2] by simp
  have "UnpackSavedataAck mm (adv pkg 1) = Inr (Inr t, adv (adv (adv b2 1) 2) (ucast ?n))"
    using rl ReadByte_Cons [OF b2'] ReadUint16_ok [OF b3] ReadBytes_wire [OF b4, of "ucast ?n"] n32 len
    by (simp add: UnpackSavedataAck_def)
  moreover have "free_block mm (word_of_nat (length t)) = Inr ()"
    using len by (intro free_block_ok) (simp add: unat_of_length32)
  ultimately show ?thesis
    using EdpPacketType_frame(1) [OF r]
    by (simp add: printed_ok [OF nul] handle_packet_def handle_saveack_def CONNRESP_def PINGRESP_def PUSHDATA_def SAVEDATA_def SAVEACK_def)
qed

lemma send_packet_drain:
  assumes "wbuf pkg" "contents pkg = bs" "\<not> send_lock s" "drain (length bs) (tx_script s) = Some rest"
  shows "send_packet pkg s = Inr (int (length bs), s\<lparr>send_lock := False, net_out := net_out s @ bs, tx_script := rest\<rparr>)"
proof -
  have "load_n (bdata pkg) 0 (unat (write_pos pkg)) = Inr bs"
    using assms(1,2) by (auto simp: load_n_def wbuf_def contents_def)
  then show ?thesis
    using SendData_drain [where s = s and sendbuf = bs] assms(3,4) by (simp add: send_packet_def DeleteBuffer_def)
qed

lemma handle_Cmd:
  fixes D :: "'d doubles"
  assumes w: "wbuf pkg" "contents pkg = wire_msg (Cmd cmdid req :: 'd server_msg)" and ok: "msg_ok D limit (Cmd cmdid req)"
    and d: "\<not> send_lock s" "drain (length (reply (Cmd cmdid req :: 'd server_msg))) (tx_script s) = Some rest"
  shows "handle_packet D mm pkg s = Inr (deliver (Cmd cmdid req :: 'd server_msg) rest s)"
proof -
  let ?cn = "word_of_nat (length cmdid) :: u16" let ?rn = "word_of_nat (length req) :: u32"
  let ?m = "Cmd cmdid req :: 'd server_msg" let ?s = "log_report (report_of (next_tail s) ?m) s"
  have r: "rbuf pkg (frame CMDREQ (be16 ?cn @ cmdid @ be32 ?rn @ req))" using rbuf_of [OF w] by simp
  have len: "length cmdid + length req + 6 < 2 ^ 16" "length cmdid \<le> limit" "length req \<le> limit" "fits limit (13 + length cmdid)"
    using ok fits_le [OF byte_malloc_axioms, of "length (wire_msg ?m)"] by (auto simp: msg_ok_def frame_def)
  have n: "unat ?cn = length cmdid" "unat ?rn = length req"
    using len(1) unat_of_length16 [of "length cmdid"] unat_of_length32 [of "length req"] by simp_all
  have c32: "unat (ucast ?cn :: u32) = length cmdid" using n(1) len by (simp add: unsigned_ucast_eq take_bit_nat_eq_self)
  obtain b' where b': "UnpackCmdReq mm (adv pkg 1) = Inr (Inr (cmdid, ?cn, req, ?rn), b')"
    using UnpackCmdReq_frame [OF r n] len by auto
  obtain p where p: "PacketCmdResp mm cmdid ?cn cmd_resp 2 = Inr p" "wbuf p" "contents p = reply ?m"
    using PacketCmdResp_frame [of ?cn cmdid 2 cmd_resp] n(1) len(4) by (auto simp: cmd_resp_def)
  have dump: "load_n (bdata (adv pkg 1)) 0 (unat (write_pos (adv pkg 1))) = Inr (contents pkg)"
    using w(1) by (simp add: load_n_def wbuf_def contents_def)
  have "send_packet p ?s = Inr (int (length (reply ?m)), ?s\<lparr>send_lock := False,
      net_out := net_out ?s @ reply ?m, tx_script := rest\<rparr>)"
    using d by (intro send_packet_drain [OF p(2,3)]) (simp_all add: log_report_def)
  then show ?thesis
    using EdpPacketType_frame(1) [OF r] dump b' p(1) free_block_ok [of "ucast ?cn"] free_block_ok [of ?rn] n c32 len w(2)
    by (simp add: handle_packet_def handle_cmdreq_def Let_def cmd_resp_def CONNRESP_def PINGRESP_def PUSHDATA_def SAVEDATA_def SAVEACK_def CMDREQ_def
        deliver_def log_report_def is_connresp_def)
qed

lemma handle_msg:
  assumes "exact_integers D" "wbuf pkg" "contents pkg = wire_msg m" "msg_ok D limit m"
    and "\<not> send_lock s" "drain (length (reply m)) (tx_script s) = Some rest" "0 \<in> set (next_tail s)"
  shows "handle_packet D mm pkg s = Inr (deliver m rest s)"
  using assms
proof (cases m)
  case (ConnResp flag rtn)
  then show ?thesis using assms deliver_silent [of m s rest] handle_ConnResp by (simp add: is_connresp_def)
next
  case PingResp
  then show ?thesis using assms deliver_silent [of m s rest] handle_PingResp by (simp add: is_connresp_def)
next
  case (Push devid d)
  then show ?thesis using assms deliver_silent [of m s rest] handle_Push by (simp add: is_connresp_def)
next
  case (SaveText devid t)
  then show ?thesis using assms deliver_silent [of m s rest] handle_SaveText by (simp add: is_connresp_def)
next
  case (SaveValue devid ty j)
  then show ?thesis using assms deliver_silent [of m s rest] handle_SaveValue by (simp add: is_connresp_def)
next
  case (SaveBinary devid j bin)
  then show ?thesis using assms deliver_silent [of m s rest] handle_SaveBinary by (simp add: is_connresp_def)
next
  case (Ack flag t)
  then show ?thesis using assms deliver_silent [of m s rest] handle_Ack by (simp add: is_connresp_def)
next
  case (Cmd cmdid req)
  then show ?thesis using assms handle_Cmd by metis
qed

end

section \<open>All the messages of a buffer\<close>

text \<open>
  The specification of \<open>recv_data_process\<close>: every message is reported, every command answered, in
  the order of their arrival; \<open>rest\<close> is what the answers leave of the script.
\<close>

fun drains :: "nat list \<Rightarrow> tx_step list \<Rightarrow> tx_step list option" where
  "drains [] steps = Some steps"
| "drains (n # ns) steps = (case drain n steps of None \<Rightarrow> None | Some steps \<Rightarrow> drains ns steps)"

definition deliver_all :: "'d server_msg list \<Rightarrow> tx_step list \<Rightarrow> cloud_state \<Rightarrow> cloud_state" where
  "deliver_all msgs rest s = s\<lparr>send_lock := False, net_out := net_out s @ concat (map reply msgs), tx_script := rest,
     conn_status := if list_ex is_connresp msgs then CLOUD_CONN_DONE else conn_status s,
     SensorTaskFlag := if list_ex is_connresp msgs then 1 else SensorTaskFlag s,
     reported := reported s @ reports (heap_tail s) (length (reported s)) msgs\<rparr>"

lemma deliver_all_Nil: "\<not> send_lock s \<Longrightarrow> deliver_all [] (tx_script s) s = s"
  by (cases s) (simp add: deliver_all_def)

lemma deliver_all_Cons: "deliver_all msgs rest (deliver m rest' s) = deliver_all (m # msgs) rest s"
  by (cases s) (simp add: deliver_all_def deliver_def)

lemma wire_msg_frame: "\<exists>t body. wire_msg m = frame t body"
  by (cases m) auto

context byte_malloc
begin

lemma recv_loop_partial:
  assumes s: "stream b tail" and f: "frame t body = tail @ missing" "missing \<noteq> []" "length body < 2 ^ 28"
  shows "recv_loop D mm b s = Inr s"
  using GetEdpPacket_none [OF s IsPkgComplete_partial [OF s f]] by (simp add: recv_loop.simps)

lemma recv_loop_msgs:
  assumes D: "exact_integers D" and f: "frame t body = tail @ missing" "missing \<noteq> []" "length body < 2 ^ 28"
  shows "stream b (concat (map wire_msg msgs) @ tail) \<Longrightarrow> \<forall>m \<in> set msgs. msg_ok D limit m \<Longrightarrow> \<not> send_lock s \<Longrightarrow> \<forall>n. 0 \<in> set (heap_tail s n) \<Longrightarrow>
    drains (map (\<lambda>m. length (reply m)) msgs) (tx_script s) = Some rest \<Longrightarrow>
    recv_loop D mm b s = Inr (deliver_all msgs rest s)"
proof (induction msgs arbitrary: b s)
  case Nil
  then show ?case by (auto simp: recv_loop_partial [OF _ f] deliver_all_Nil)
next
  case (Cons m msgs)
  obtain t' body' where w: "wire_msg m = frame t' body'" using wire_msg_frame by blast
  have ok: "msg_ok D limit m" using Cons.prems by simp
  have "stream b (frame t' body' @ concat (map wire_msg msgs) @ tail)" using Cons.prems(1) w by simp
  from GetEdpPacket_frame [OF this] obtain pkg b' where
    g: "GetEdpPacket mm b = Inr (Some pkg, b')" "wbuf pkg" "contents pkg = wire_msg m" "stream b' (concat (map wire_msg msgs) @ tail)"
    using ok w by (auto simp: msg_ok_def)
  obtain steps where st: "drain (length (reply m)) (tx_script s) = Some steps" "drains (map (\<lambda>m. length (reply m)) msgs) steps = Some rest"
    using Cons.prems(5) by (auto split: option.splits)
  have h: "handle_packet D mm pkg s = Inr (deliver m steps s)" using handle_msg [OF D g(2,3) ok Cons.prems(3) st(1)] Cons.prems(4) by blast
  have "recv_loop D mm b' (deliver m steps s) = Inr (deliver_all msgs rest (deliver m steps s))"
    using Cons.prems(2,4) st(2) by (intro Cons.IH [OF g(4)]) (simp_all add: deliver_def)
  then show ?case
    using g(1) h by (simp add: recv_loop.simps [of D mm b] DeleteBuffer_def deliver_all_Cons)
qed

end

lemma recv_stream:
  assumes "length bs < 2 ^ 16"
  shows "stream \<lparr>bdata = bs @ unused, write_pos = word_of_nat (length bs), read_pos = 0, capacity = BUFFER_SIZE\<rparr> bs"
  using unat_of_length32 [OF assms] assms by (simp add: stream_def contents_def)

text \<open>
  C2: A buffer with any sequence of connect responses, ping responses, pushed data, saved data that name
  their source (text, JSON with integer numbers, or binary with such a description), acknowledgements and
  commands is processed message by message: all are logged in order with the device id, text, JSON, length
  and code that the server has sent, each command is answered with the response frame that carries its
  identifier, a connect response starts the sensor task, and a message that has not arrived completely at
  the end of the buffer is left alone.  Pushed, binary and acknowledged payloads are printed as strings:
  up to their first NUL, and without one together with the bytes behind their block up to the next NUL,
  which the memory is assumed to hold.  The stack is assumed to accept the answers, in any number of
  parts, and double arithmetic to be exact on integers.
\<close>

theorem cloud_frames_in_order:
  assumes mm: "byte_malloc mm limit" and D: "exact_integers D" and ok: "\<forall>m \<in> set msgs. msg_ok D limit m"
    and tail: "frame t body = tail @ missing" "missing \<noteq> []" "length body < 2 ^ 28"
    and bs: "bs = concat (map wire_msg msgs) @ tail" "length bs < 2 ^ 16"
    and lock: "\<not> send_lock s" and nul: "\<forall>n. 0 \<in> set (heap_tail s n)" and net: "drains (map (\<lambda>m. length (reply m)) msgs) (tx_script s) = Some rest"
  shows "recv_data_process D mm (bs @ unused) (length bs) s = Inr (deliver_all msgs rest s)"
  unfolding recv_data_process_def
  using recv_stream [OF bs(2)] by (intro byte_malloc.recv_loop_msgs [OF mm D tail _ ok lock nul net]) (simp add: bs(1))

definition idle_cloud :: cloud_state where
  "idle_cloud = \<lparr>TCPClientFd = 3, TCPClient_reset_flag = 1, send_lock = False, net_out = [], net_in = [],
     tx_script = [\<lparr>tx_select = 1, tx_ready = True, tx_sent = 5\<rparr>, \<lparr>tx_select = 1, tx_ready = False, tx_sent = 0\<rparr>,
       \<lparr>tx_select = 1, tx_ready = True, tx_sent = 6\<rparr>],
     conn_status = SOCK_DONE, SensorTaskFlag = 0, reported = [], heap_tail = (\<lambda>n. [0])\<rparr>"

theorem cloud_frames_in_order_witness:
  "\<exists>s'. recv_data_process int_doubles (pool_malloc PCB_ADDR fresh_heap)
      ([0x20, 2, 0, 0, 0xA0, 8, 0, 1, 0x61, 0, 0, 0, 1, 0x62, 0xD0] @ [0, 0]) 15 idle_cloud = Inr s' \<and>
    conn_status s' = CLOUD_CONN_DONE \<and> net_out s' = [0xB0, 9, 0, 1, 0x61, 0, 0, 0, 2, 0x6f, 0x6b] \<and>
    reported s' = [ConnectResponse 0, CommandDump [0xA0, 8, 0, 1, 0x61, 0, 0, 0, 1, 0x62]]"
proof -
  let ?msgs = "[ConnResp 0 0, Cmd [0x61] [0x62]] :: int server_msg list"
  have f: "frame CMDREQ (be16 1 @ [0x61] @ be32 1 @ [0x62]) = [0xA0, 8, 0, 1, 0x61, 0, 0, 0, 1, 0x62]"
    "frame CONNRESP [0, 0] = [0x20, 2, 0, 0]" "frame PINGRESP [] = [0xD0] @ [0]"
    "frame CMDRESP (be16 1 @ [0x61] @ be32 2 @ cmd_resp) = [0xB0, 9, 0, 1, 0x61, 0, 0, 0, 2, 0x6f, 0x6b]"
    by (simp_all add: frame_def rl_enc.simps CMDREQ_def CONNRESP_def PINGRESP_def CMDRESP_def be16_def be32_def cmd_resp_def)
  have w: "wire_msg (Cmd [0x61] [0x62] :: int server_msg) = [0xA0, 8, 0, 1, 0x61, 0, 0, 0, 1, 0x62]" "wire_msg (ConnResp 0 0 :: int server_msg) = [0x20, 2, 0, 0]"
    "reply (Cmd [0x61] [0x62] :: int server_msg) = [0xB0, 9, 0, 1, 0x61, 0, 0, 0, 2, 0x6f, 0x6b]"
    using f by simp_all
  have "recv_data_process int_doubles (pool_malloc PCB_ADDR fresh_heap)
      ([0x20, 2, 0, 0, 0xA0, 8, 0, 1, 0x61, 0, 0, 0, 1, 0x62, 0xD0] @ [0, 0])
      (length [0x20, 2, 0, 0, 0xA0, 8, 0, 1, 0x61, 0, 0, 0, 1, 0x62, 0xD0 :: u8]) idle_cloud = Inr (deliver_all ?msgs [] idle_cloud)"
  proof (rule cloud_frames_in_order [OF fresh.byte_malloc_axioms int_doubles_exact _ f(3)])
    show "\<forall>m \<in> set ?msgs. msg_ok int_doubles 20448 m" by (simp add: msg_ok_def w fits_def del: wire_msg.simps)
  qed (simp_all add: w idle_cloud_def del: wire_msg.simps reply.simps(1))
  then have "recv_data_process int_doubles (pool_malloc PCB_ADDR fresh_heap)
      ([0x20, 2, 0, 0, 0xA0, 8, 0, 1, 0x61, 0, 0, 0, 1, 0x62, 0xD0] @ [0, 0]) 15 idle_cloud = Inr (deliver_all ?msgs [] idle_cloud)"
    by (simp add: eval_nat_numeral)
  then show ?thesis
    using w(3) f(1) by (intro exI [of _ "deliver_all ?msgs [] idle_cloud"])
      (simp add: deliver_all_def idle_cloud_def is_connresp_def del: reply.simps(1))
qed

section \<open>What the handlers do not check\<close>

text \<open>
  A pushed payload without a NUL is printed together with the memory behind its block, and where that
  holds no NUL either the read does not stop.  Saved data without a source make the handler free \<open>NULL\<close>.
\<close>

lemma push_prints_behind:
  assumes "UnpackPushdata mm pkg = Inr (Inr (devid, d, n), pkg')" "mm n \<noteq> None" "0 \<notin> set d"
  shows "handle_pushdata mm pkg s = (if 0 \<in> set (next_tail s) then Inr (log_report (PushData devid (d @ cstr (next_tail s)) n) s) else Inl OutOfBounds)"
proof -
  have "cstr (d @ next_tail s) = d @ cstr (next_tail s)" using assms(3) by (induction d) (auto simp: cstr_def)
  then show ?thesis using assms by (auto simp: handle_pushdata_def printed_def free_string_def free_block_def Let_def)
qed

lemma save_without_source_faults:
  assumes "UnpackSavedata mm pkg = Inr (Inr (None, ty), pkg')"
  shows "\<exists>e. handle_savedata D mm pkg s = Inl e"
proof -
  have "\<exists>e. ebind m (\<lambda>s. ebind (free_string None) (\<lambda>_. Inr s)) = Inl e" for m :: "cloud_state outcome"
    by (cases m) (simp_all add: free_string_def)
  then show ?thesis using assms by (simp add: handle_savedata_def)
qed

section \<open>What the receive loop does not handle\<close>

text \<open>
  C39: TCP delivers bytes, not messages.  When a round of the receive loop gets the first part of a
  frame, the part is forgotten: the round changes nothing but what is left to be received, and the
  next one starts in the middle of the frame.
\<close>

theorem cloud_split_frame_lost:
  assumes fr: "frame t body = first @ second" "second \<noteq> []" "first \<noteq> []" "length body < 2 ^ 28" "length first < CLOUD_RECV_BUFFER_SIZE"
    and st: "rx_select st \<noteq> -1" "rx_ready st" "rx_count st = int (length first)"
    and s: "TCPClient_reset_flag s \<noteq> 0xa5" "net_in s = first @ second @ later"
  shows "recv_round D mm st s = Inr (False, s\<lparr>net_in := second @ later\<rparr>)"
proof -
  let ?pad = "replicate (CLOUD_RECV_BUFFER_SIZE - length first) 0 :: bytes" let ?s = "s\<lparr>net_in := second @ later\<rparr>"
  have n: "length first < 2500" using fr(5) by (simp add: CLOUD_RECV_BUFFER_SIZE_def)
  have r: "Socket_TCPClientRecvData st CLOUD_RECV_BUFFER_SIZE s = (int (length first), first @ ?pad, ?s)"
    using st s n by (simp add: Socket_TCPClientRecvData_def CLOUD_RECV_BUFFER_SIZE_def Let_def)
  have z: "store (first @ ?pad) (length first) 0 = Inr (first @ ?pad)"
    using n by (cases "2500 - length first") (simp_all add: store_def CLOUD_RECV_BUFFER_SIZE_def)
  have "stream \<lparr>bdata = first @ ?pad, write_pos = word_of_nat (length first), read_pos = 0, capacity = BUFFER_SIZE\<rparr> first"
    using n by (intro recv_stream) simp
  from GetEdpPacket_none [OF this IsPkgComplete_partial [OF this fr(1,2,4)]]
  have "recv_data_process D mm (first @ ?pad) (length first) ?s = Inr ?s"
    by (simp add: recv_data_process_def recv_loop.simps)
  then show ?thesis using r z s(1) fr(3) by (simp add: recv_round_def)
qed

theorem cloud_split_frame_lost_witness:
  "recv_round int_doubles (pool_malloc PCB_ADDR fresh_heap) \<lparr>rx_select = 1, rx_ready = True, rx_count = 3\<rparr> (idle_cloud\<lparr>net_in := [0x20, 2, 0, 0]\<rparr>) =
   Inr (False, idle_cloud\<lparr>net_in := [0]\<rparr>)"
proof -
  have "frame CONNRESP [0, 0] = [0x20, 2, 0] @ [0]" by (simp add: frame_def rl_enc.simps CONNRESP_def)
  from cloud_split_frame_lost [OF this, where s = "idle_cloud\<lparr>net_in := [0x20, 2, 0, 0]\<rparr>" and later = "[]" and D = int_doubles
      and mm = "pool_malloc PCB_ADDR fresh_heap" and st = "\<lparr>rx_select = 1, rx_ready = True, rx_count = 3\<rparr>"]
  show ?thesis by (simp add: idle_cloud_def CLOUD_RECV_BUFFER_SIZE_def)
qed

text \<open>
  A round that receives as many bytes as the buffer holds writes the terminating NUL behind it.
\<close>

theorem recv_buffer_off_by_one:
  assumes st: "rx_select st \<noteq> -1" "rx_ready st" "rx_count st = 2500" and s: "TCPClient_reset_flag s \<noteq> 0xa5" "2500 \<le> length (net_in s)"
  shows "recv_round D mm st s = Inl OutOfBounds"
  using assms by (simp add: recv_round_def Socket_TCPClientRecvData_def CLOUD_RECV_BUFFER_SIZE_def store_def Let_def min_def)

theorem recv_buffer_off_by_one_witness:
  "recv_round int_doubles (pool_malloc PCB_ADDR fresh_heap) \<lparr>rx_select = 1, rx_ready = True, rx_count = 2500\<rparr>
     (idle_cloud\<lparr>net_in := replicate 3000 0x30\<rparr>) = Inl OutOfBounds"
  by (rule recv_buffer_off_by_one) (simp_all add: idle_cloud_def)

text \<open>
  When the server closes the connection, \<open>recv\<close> returns 0 from then on.  The receive loop takes
  that for nothing received: however many rounds it makes, the session neither ends nor connects again.
\<close>

theorem cloud_peer_close_never_ends:
  assumes st: "rx_select st \<noteq> -1" "rx_ready st" "rx_count st = 0" and s: "TCPClient_reset_flag s \<noteq> 0xa5"
  shows "cloud_loop D mm (replicate n st) s = Inl Diverges"
proof (induction n)
  case (Suc n)
  have "s\<lparr>net_in := net_in s\<rparr> = s" by simp
  then have "recv_round D mm st s = Inr (False, s)"
    using assms by (simp add: recv_round_def Socket_TCPClientRecvData_def Let_def)
  then show ?case using Suc by simp
qed simp

theorem cloud_peer_close_never_ends_witness:
  "cloud_loop int_doubles (pool_malloc PCB_ADDR fresh_heap) (replicate 1000 \<lparr>rx_select = 1, rx_ready = True, rx_count = 0\<rparr>) idle_cloud = Inl Diverges"
  by (rule cloud_peer_close_never_ends) (simp_all add: idle_cloud_def)

end
