(* ===== verification/CloudRun.thy ===== *)
theory CloudRun
  imports Cloud
begin

text \<open>
  The tasks of the agent that share the connection to the cloud: the receive loop, the heartbeat
  and the sensor task take turns, in any order and against any network.  The bytes they put on the
  connection form complete EDP frames as long as no send has failed.
\<close>

section \<open>Runs\<close>

text \<open>
  A step is one round of the receive loop, one heartbeat, one upload, one message to another device,
  or a change of the network: new bytes have arrived, and the stack's answers to the following calls
  are others.  Sending is serialised by the mutex, so that steps that send do not overlap.
\<close>

inductive cloud_run :: "'d doubles \<Rightarrow> mallocator \<Rightarrow> nat \<Rightarrow> cstring \<Rightarrow> cstring \<Rightarrow> cloud_state \<Rightarrow> bool"
  for D mm limit devid key where
  start: "net_out s = [] \<Longrightarrow> cloud_run D mm limit devid key s"
| connect: "cloud_run D mm limit devid key s \<Longrightarrow>
    send_connect 4 mm devid key (s\<lparr>conn_status := SOCK_DONE\<rparr>) = Inr (connected, s') \<Longrightarrow> cloud_run D mm limit devid key s'"
| round: "cloud_run D mm limit devid key s \<Longrightarrow> recv_round D mm st s = Inr (stop, s') \<Longrightarrow> cloud_run D mm limit devid key s'"
| heartbeat: "cloud_run D mm limit devid key s \<Longrightarrow> cloud_heartbeat_timer_handle mm s = Inr s' \<Longrightarrow>
    cloud_run D mm limit devid key s'"
| upload: "cloud_run D mm limit devid key s \<Longrightarrow> json_type1 D mm at dataPoint mk token = Inr (Some j) \<Longrightarrow>
    cJSON_Print D mm j = Inr (Some t) \<Longrightarrow> length t < 2 ^ 16 \<Longrightarrow> fits limit (11 + length devid + length t) \<Longrightarrow>
    SensorData_Upload D mm at devid dataPoint mk token s = Inr s' \<Longrightarrow> cloud_run D mm limit devid key s'"
| pass: "cloud_run D mm limit devid key s \<Longrightarrow> length dest < 2 ^ 16 \<Longrightarrow> length data = unat datalen \<Longrightarrow>
    fits limit (7 + length dest + length data) \<Longrightarrow>
    SensorData_PassThrough mm dest data datalen s = Inr s' \<Longrightarrow> cloud_run D mm limit devid key s'"
| network: "cloud_run D mm limit devid key s \<Longrightarrow> cloud_run D mm limit devid key (s\<lparr>net_in := net_in s @ arrived, tx_script := script\<rparr>)"

section \<open>The invariant of the output\<close>

definition client_frame :: "u8 \<times> bytes \<Rightarrow> bool" where
  "client_frame f \<longleftrightarrow> fst f \<in> {CONNREQ, PUSHDATA, SAVEDATA, CMDRESP, PINGREQ} \<and> length (snd f) < 2 ^ 28"

definition client_frames :: "bytes \<Rightarrow> bool" where
  "client_frames bs \<longleftrightarrow> (\<exists>fs. list_all client_frame fs \<and> bs = concat (map (\<lambda>(t, body). frame t body) fs))"

lemma client_frames_Nil: "client_frames []"
  unfolding client_frames_def by (rule exI [of _ "[]"]) simp

lemma client_frames_append:
  assumes "client_frames bs" "client_frame (t, body)"
  shows "client_frames (bs @ frame t body)"
proof -
  obtain fs where fs: "list_all client_frame fs" "bs = concat (map (\<lambda>(t, body). frame t body) fs)"
    using assms(1) by (auto simp: client_frames_def)
  then show ?thesis unfolding client_frames_def using assms(2) by (intro exI [of _ "fs @ [(t, body)]"]) simp
qed

definition out_ok :: "cloud_state \<Rightarrow> bool" where
  "out_ok s \<longleftrightarrow> (\<not> send_lock s \<and> TCPClient_reset_flag s \<noteq> 0xa5 \<longrightarrow> client_frames (net_out s))"

definition net_same :: "cloud_state \<Rightarrow> cloud_state \<Rightarrow> bool" where
  "net_same s s' \<longleftrightarrow> send_lock s' = send_lock s \<and> TCPClient_reset_flag s' = TCPClient_reset_flag s \<and> net_out s' = net_out s"

lemma net_same_out_ok: "net_same s s' \<Longrightarrow> out_ok s \<Longrightarrow> out_ok s'"
  by (simp add: net_same_def out_ok_def)

lemma net_same_log [simp]: "net_same s (log_report r s)"
  by (simp add: net_same_def log_report_def)

text \<open>A send that returns has sent everything, or left the mutex locked, or asked for a new connection.\<close>

lemma send_loop_result:
  "send_loop sendbuf sent steps s = Inr (ret, s') \<Longrightarrow> send_lock s \<Longrightarrow>
   send_lock s' \<or> TCPClient_reset_flag s' = 0xa5 \<or>
   TCPClient_reset_flag s' = TCPClient_reset_flag s \<and> net_out s' = net_out s @ drop sent sendbuf"
proof (induction sendbuf sent steps s rule: send_loop.induct)
  case (1 sendbuf sent s)
  then show ?case by (auto split: if_splits)
next
  case (2 sendbuf sent st steps s)
  let ?n = "nat (tx_sent st)"
  have "take ?n (drop sent sendbuf) @ drop (sent + ?n) sendbuf = drop sent sendbuf"
    by (metis append_take_drop_id drop_drop add.commute)
  then show ?case
    using 2 by (auto split: if_splits)
qed

lemma SendData_result:
  assumes "Socket_TCPClientSendData bs s = Inr (ret, s')"
  shows "\<not> send_lock s \<and> (send_lock s' \<or> TCPClient_reset_flag s' = 0xa5 \<or>
    TCPClient_reset_flag s' = TCPClient_reset_flag s \<and> net_out s' = net_out s @ bs)"
  using assms send_loop_result [of bs 0 "tx_script s" "s\<lparr>send_lock := True\<rparr>" ret s']
  by (auto simp: Socket_TCPClientSendData_def split: if_splits)

lemma send_packet_out_ok:
  assumes "send_packet pkg s = Inr (ret, s')" "wbuf pkg" "contents pkg = frame t body" "client_frame (t, body)" "out_ok s"
  shows "out_ok s'"
proof -
  have "load_n (bdata pkg) 0 (unat (write_pos pkg)) = Inr (frame t body)"
    using assms(2,3) by (auto simp: load_n_def wbuf_def contents_def)
  then have "Socket_TCPClientSendData (frame t body) s = Inr (ret, s')"
    using assms(1) by (auto simp: send_packet_def c_bind)
  from SendData_result [OF this] assms(5) client_frames_append [OF _ assms(4)] show ?thesis
    by (auto simp: out_ok_def)
qed

section \<open>Every step keeps it\<close>

lemma case_Inr_iff [c_bind]:
  "(case r of Inl e \<Rightarrow> Inl (f e) | Inr x \<Rightarrow> g x) = Inr y \<longleftrightarrow> (\<exists>x. r = Inr x \<and> g x = Inr y)"
  "(case q of None \<Rightarrow> Inl e | Some x \<Rightarrow> h x) = Inr y \<longleftrightarrow> (\<exists>x. q = Some x \<and> h x = Inr y)"
  by (cases r; simp) (cases q; simp)

lemma handlers_net_same:
  "handle_connresp pkg s = Inr s' \<Longrightarrow> net_same s s'"
  "handle_pingresp pkg s = Inr s' \<Longrightarrow> net_same s s'"
  "handle_pushdata mm pkg s = Inr s' \<Longrightarrow> net_same s s'"
  "handle_saveack mm pkg s = Inr s' \<Longrightarrow> net_same s s'"
  "handle_savedata D mm pkg s = Inr s' \<Longrightarrow> net_same s s'"
proof -
  show "handle_connresp pkg s = Inr s' \<Longrightarrow> net_same s s'"
    by (auto simp: handle_connresp_def c_bind net_same_def log_report_def)
  show "handle_pingresp pkg s = Inr s' \<Longrightarrow> net_same s s'"
    by (auto simp: handle_pingresp_def c_bind)
  show "handle_pushdata mm pkg s = Inr s' \<Longrightarrow> net_same s s'"
    by (auto simp: handle_pushdata_def c_bind)
  show "handle_saveack mm pkg s = Inr s' \<Longrightarrow> net_same s s'"
    by (auto simp: handle_saveack_def c_bind)
  have "save_json D mm src pkg s = Inr s' \<Longrightarrow> net_same s s'" "save_bin D mm src pkg s = Inr s' \<Longrightarrow> net_same s s'"
    "save_string mm pkg s = Inr s' \<Longrightarrow> net_same s s'" for src pkg s'
    by (auto simp: save_json_def save_bin_def save_string_def c_bind)
  note saves = this
  assume h: "handle_savedata D mm pkg s = Inr s'"
  then obtain r b where u: "UnpackSavedata mm pkg = Inr (r, b)" by (auto simp: handle_savedata_def c_bind)
  show "net_same s s'"
  proof (cases r)
    case (Inl e)
    then show ?thesis using h u by (auto simp: handle_savedata_def)
  next
    case (Inr fields)
    then show ?thesis using h u saves by (cases fields) (auto simp: handle_savedata_def c_bind split: if_splits)
  qed
qed

text \<open>Whatever has been received, the identifier of a command is as long as its length field says.\<close>

lemma UnpackCmdReq_id:
  assumes b: "rbuf b rs" and u: "UnpackCmdReq mm b = Inr (Inr (cmdid, cn, req, rn), b')"
  shows "length cmdid = unat cn" "unat cn \<le> length rs"
proof -
  obtain rl b1 where r1: "ReadRemainlen b = Inr (Some rl, b1)"
    and u1: "read_or (ReadUint16 b1) (-1) (\<lambda>cmdid_len pkg.
       read_or (ReadBytes mm pkg (ucast cmdid_len)) ERR_UNPACK_CMDREQ (\<lambda>cmdid pkg.
       read_or (ReadUint32 pkg) (-1) (\<lambda>req_len pkg.
       read_or (ReadBytes mm pkg req_len) ERR_UNPACK_CMDREQ (\<lambda>req pkg.
       all_read (cmdid, cmdid_len, req, req_len) pkg)))) = Inr (Inr (cmdid, cn, req, rn), b')"
    using u by (auto simp: UnpackCmdReq_def read_or_def [of "ReadRemainlen b"] c_bind split: option.splits)
  obtain k1 where b1: "rbuf b1 (drop k1 rs)" using ReadRemainlen_within [OF b] r1 by (auto simp: reads_within_def)
  obtain b2 where r2: "ReadUint16 b1 = Inr (Some cn, b2)" and r3: "\<exists>b3. ReadBytes mm b2 (ucast cn) = Inr (Some cmdid, b3)"
    using u1 by (auto simp: read_or_def all_read_def c_bind split: option.splits)
  obtain k2 where b2: "rbuf b2 (drop k2 (drop k1 rs))" using ReadUint16_within [OF b1] r2 by (auto simp: reads_within_def)
  have c: "unat (ucast cn :: u32) = unat cn"
    using unat_u16_less [of cn] by (simp add: unsigned_ucast_eq take_bit_nat_eq_self)
  show "length cmdid = unat cn"
    using r3 c by (auto simp: ReadBytes_def load_n_def c_bind split: if_splits)
  have "\<not> length (drop k2 (drop k1 rs)) < unat cn"
    using r3 rbuf_guard [OF b2, of "ucast cn"] c unat_u16_less [of cn] by (auto simp: ReadBytes_def split: if_splits)
  then show "unat cn \<le> length rs" by simp
qed

context byte_malloc
begin

lemma handle_packet_out_ok:
  assumes h: "handle_packet D mm pkg s = Inr s'" and w: "wbuf pkg" and fit: "fits limit (13 + length (contents pkg))" and ok: "out_ok s"
  shows "out_ok s'"
proof -
  obtain mtype b where ty: "EdpPacketType pkg = Inr (mtype, b)" using h by (auto simp: handle_packet_def c_bind)
  obtain k where b: "rbuf b (drop k (contents pkg))"
    using ReadByte_within [OF wbuf_rbuf [OF w]] ty by (auto simp: EdpPacketType_def reads_within_def)
  show ?thesis
  proof (cases "mtype = CMDREQ")
    case False
    then show ?thesis
      using h ty net_same_out_ok [OF _ ok] handlers_net_same by (fastforce simp: handle_packet_def split: if_splits)
  next
    case True
    then have c: "handle_cmdreq mm b s = Inr s'"
      using h ty by (simp add: handle_packet_def CMDREQ_def CONNRESP_def PINGRESP_def PUSHDATA_def SAVEDATA_def SAVEACK_def)
    then obtain dump r b' where u: "UnpackCmdReq mm b = Inr (r, b')" and d: "load_n (bdata b) 0 (unat (write_pos b)) = Inr dump"
      by (auto simp: handle_cmdreq_def Let_def c_bind)
    let ?s = "log_report (CommandDump dump) s"
    show ?thesis
    proof (cases r)
      case (Inl e)
      then show ?thesis using c u d net_same_out_ok [OF _ ok] by (auto simp: handle_cmdreq_def Let_def)
    next
      case (Inr fields)
      then obtain cmdid cn req rn where f: "r = Inr (cmdid, cn, req, rn)" by (cases fields) auto
      note id = UnpackCmdReq_id [OF b u [unfolded f]]
      have fit': "fits limit (11 + length cmdid + length cmd_resp)"
        using fit id by (auto simp: cmd_resp_def elim!: fits_mono)
      obtain p where p: "PacketCmdResp mm cmdid cn cmd_resp 2 = Inr p" "wbuf p"
        "contents p = frame CMDRESP (be16 cn @ cmdid @ be32 2 @ cmd_resp)"
        using PacketCmdResp_frame [of cn cmdid 2 cmd_resp] id fit' by (auto simp: cmd_resp_def)
      obtain ret where "send_packet p ?s = Inr (ret, s')"
        using c u f d p(1) by (auto simp: handle_cmdreq_def Let_def c_bind cmd_resp_def)
      moreover have "client_frame (CMDRESP, be16 cn @ cmdid @ be32 2 @ cmd_resp)"
        using id(1) unat_u16_less [of cn] by (simp add: client_frame_def cmd_resp_def)
      moreover have "out_ok ?s" using net_same_out_ok [OF net_same_log ok] .
      ultimately show ?thesis using send_packet_out_ok p(2,3) by blast
    qed
  qed
qed

lemma recv_loop_out_ok:
  "recv_loop D mm b s = Inr s' \<Longrightarrow> stream b bs \<Longrightarrow> fits limit (13 + length bs) \<Longrightarrow> out_ok s \<Longrightarrow> out_ok s'"
proof (induction "length bs" arbitrary: b bs s rule: less_induct)
  case less
  have "fits limit (length bs)" using less.prems(3) by (rule fits_mono) simp
  from GetEdpPacket_safe [OF less.prems(2) this] obtain r b' bs' where
    g: "GetEdpPacket mm b = Inr (r, b')" "stream b' bs'"
      "case r of None \<Rightarrow> bs' = bs | Some pkg \<Rightarrow> wbuf pkg \<and> 2 \<le> length (contents pkg) \<and> contents pkg @ bs' = bs" by blast
  show ?case
  proof (cases r)
    case None
    then show ?thesis using less.prems(1,4) g(1) by (simp add: recv_loop.simps)
  next
    case (Some pkg)
    then have w: "wbuf pkg" "2 \<le> length (contents pkg)" "bs = contents pkg @ bs'" using g(3) by auto
    obtain s1 where h: "handle_packet D mm pkg s = Inr s1" and l: "recv_loop D mm b' s1 = Inr s'"
      using less.prems(1) g(1) Some by (auto simp: recv_loop.simps [of D mm b] DeleteBuffer_def c_bind)
    have "fits limit (13 + length (contents pkg))" "fits limit (13 + length bs')"
      using less.prems(3) w(3) by (auto elim!: fits_mono)
    moreover have "length bs' < length bs" using w(2,3) by (cases "contents pkg") simp_all
    ultimately show ?thesis
      using less.hyps [OF _ l g(2)] handle_packet_out_ok [OF h w(1) _ less.prems(4)] by blast
  qed
qed

lemma recv_round_out_ok:
  assumes r: "recv_round D mm st s = Inr (stop, s')" and lim: "5026 \<le> limit" and ok: "out_ok s"
  shows "out_ok s'"
proof -
  obtain ret buf s1 where v: "Socket_TCPClientRecvData st CLOUD_RECV_BUFFER_SIZE s = (ret, buf, s1)" by (metis prod_cases3)
  then have s1: "out_ok s1" and buf: "ret \<le> 2500" "length buf = 2500"
    using ok by (auto simp: Socket_TCPClientRecvData_def Socket_TCPClientClose_def CLOUD_RECV_BUFFER_SIZE_def out_ok_def Let_def split: if_splits)
  obtain s2 where s2: "if ret > 0 then ebind (store buf (nat ret) 0) (\<lambda>b. recv_data_process D mm b (nat ret) s1) = Inr s2 else s2 = s1"
    and s': "net_same s2 s'"
    using r v by (auto simp: recv_round_def c_bind Socket_TCPClientClose_def net_same_def split: if_splits)
  have "out_ok s2"
  proof (cases "ret > 0")
    case True
    then obtain b where b: "store buf (nat ret) 0 = Inr b" "recv_data_process D mm b (nat ret) s1 = Inr s2"
      using s2 by (auto simp: c_bind)
    have len: "length b = 2500" "nat ret \<le> length b" using b(1) buf by (auto simp: store_def split: if_splits)
    have "stream \<lparr>bdata = take (nat ret) b @ drop (nat ret) b, write_pos = word_of_nat (length (take (nat ret) b)), read_pos = 0,
        capacity = BUFFER_SIZE\<rparr> (take (nat ret) b)"
      using len by (intro recv_stream) simp
    then have st: "stream \<lparr>bdata = b, write_pos = word_of_nat (nat ret), read_pos = 0, capacity = BUFFER_SIZE\<rparr> (take (nat ret) b)"
      using len(2) by (simp only: append_take_drop_id length_take min.absorb2)
    have "fits limit (13 + length (take (nat ret) b))" using len lim by (simp add: fits_def)
    then show ?thesis using recv_loop_out_ok [OF b(2) [unfolded recv_data_process_def] st _ s1] by blast
  next
    case False
    then show ?thesis using s2 s1 by simp
  qed
  with s' show ?thesis by (rule net_same_out_ok)
qed

lemma send_connect_out_ok:
  assumes len: "length devid < 2 ^ 16" "length key < 2 ^ 16" "fits limit (18 + length devid + length key)"
  shows "send_connect tries mm devid key s = Inr (connected, s') \<Longrightarrow> out_ok s \<Longrightarrow> out_ok s'"
proof (induction tries arbitrary: s)
  case 0
  then show ?case by (auto simp: Socket_TCPClientClose_def out_ok_def)
next
  case (Suc tries)
  let ?body = "wire_str PROTOCOL_NAME @ [PROTOCOL_VERSION, 0x40] @ be16 0x0080 @ wire_str devid @ wire_str key"
  obtain p where p: "PacketConnect1 mm devid key = Inr p" "wbuf p" "contents p = frame CONNREQ ?body"
    using PacketConnect1_frame [OF len] by blast
  obtain ret s1 where s1: "send_packet p s = Inr (ret, s1)"
    and r: "(if ret < 0 then send_connect tries mm devid key (s1\<lparr>conn_status := CLOUD_CONN_ERROR\<rparr>) else Inr (True, s1)) = Inr (connected, s')"
    using Suc.prems(1) p(1) by (auto simp: c_bind)
  have "client_frame (CONNREQ, ?body)" using len by (simp add: client_frame_def PROTOCOL_NAME_def)
  then have ok: "out_ok s1" using send_packet_out_ok [OF s1 p(2,3) _ Suc.prems(2)] by simp
  then have "out_ok (s1\<lparr>conn_status := CLOUD_CONN_ERROR\<rparr>)" by (simp add: out_ok_def)
  then show ?case using r ok Suc.IH by (auto split: if_splits)
qed

lemma heartbeat_out_ok: "cloud_heartbeat_timer_handle mm s = Inr s' \<Longrightarrow> out_ok s \<Longrightarrow> out_ok s'"
  using PacketPing_frame send_packet_out_ok
  by (fastforce simp: cloud_heartbeat_timer_handle_def client_frame_def c_bind split: if_splits)

lemma upload_out_ok:
  assumes j: "json_type1 D mm at dataPoint mk token = Inr (Some j)" "cJSON_Print D mm j = Inr (Some t)"
    and len: "length t < 2 ^ 16" "length devid < 2 ^ 16" "fits limit (11 + length devid + length t)"
    and u: "SensorData_Upload D mm at devid dataPoint mk token s = Inr s'" and ok: "out_ok s"
  shows "out_ok s'"
proof -
  obtain p where p: "PacketSavedataJson D mm (Some devid) (Some j) kTypeFullJson = Inr p" "wbuf p"
    "contents p = frame SAVEDATA (wire_address (Some devid) @ [kTypeFullJson] @ wire_str t)"
    using PacketSavedataJson_frame [OF byte_malloc_axioms j(2) len(1), of "Some devid"] len(2,3) by (auto simp: wire_address_def add.commute)
  then obtain ret where "send_packet p s = Inr (ret, s')"
    using u j(1) by (auto simp: SensorData_Upload_def PacketSavedataValue_def Let_def c_bind)
  then show ?thesis
    using send_packet_out_ok [OF _ p(2,3) _ ok] len by (simp add: client_frame_def wire_address_def)
qed

lemma pass_out_ok:
  assumes len: "length dest < 2 ^ 16" "length data = unat datalen" "fits limit (7 + length dest + length data)"
    and u: "SensorData_PassThrough mm dest data datalen s = Inr s'" and ok: "out_ok s"
  shows "out_ok s'"
proof -
  have n: "unat (ucast datalen :: u32) = length data" "length data < 2 ^ 8"
    using len(2) unat_u8_less [of datalen] by (simp_all add: unsigned_ucast_eq take_bit_nat_eq_self)
  obtain p where p: "PacketPushdata mm dest data (ucast datalen) = Inr p" "wbuf p" "contents p = frame PUSHDATA (wire_str dest @ data)"
    using PacketPushdata_frame [OF len(1) n(1) _ len(3)] n(2) by auto
  then obtain ret where "send_packet p s = Inr (ret, s')"
    using u by (auto simp: SensorData_PassThrough_def c_bind)
  then show ?thesis
    using send_packet_out_ok [OF _ p(2,3) _ ok] len n by (simp add: client_frame_def)
qed

end

text \<open>
  C3: However the receive loop, the heartbeat and the sensor task take turns, whatever the server
  sends (malformed packets included) and however the stack splits what is sent: as long as no send
  has failed, what the agent has put on the connection is a sequence of complete frames of the
  types a client may send.
\<close>

theorem cloud_output_framed:
  assumes mm: "byte_malloc mm limit" "5026 \<le> limit"
    and id: "length devid < 2 ^ 16" "length key < 2 ^ 16" "fits limit (18 + length devid + length key)"
    and run: "cloud_run D mm limit devid key s" and sound: "\<not> send_lock s" "TCPClient_reset_flag s \<noteq> 0xa5"
  shows "client_frames (net_out s)"
proof -
  from run have "out_ok s"
  proof (induction rule: cloud_run.induct)
    case (start s)
    then show ?case by (simp add: out_ok_def client_frames_Nil)
  next
    case (connect s connected s')
    then have "out_ok (s\<lparr>conn_status := SOCK_DONE\<rparr>)" by (simp add: out_ok_def)
    with connect show ?case using byte_malloc.send_connect_out_ok [OF mm(1) id] by blast
  next
    case (round s st stop s')
    then show ?case using byte_malloc.recv_round_out_ok [OF mm(1) _ mm(2)] by blast
  next
    case (heartbeat s s')
    then show ?case using byte_malloc.heartbeat_out_ok [OF mm(1)] by blast
  next
    case (upload s at dataPoint mk token j t s')
    then show ?case using byte_malloc.upload_out_ok [OF mm(1)] id(1) by blast
  next
    case (pass s dest data datalen s')
    then show ?case using byte_malloc.pass_out_ok [OF mm(1)] by blast
  next
    case (network s arrived script)
    then show ?case by (simp add: out_ok_def)
  qed
  with sound show ?thesis by (simp add: out_ok_def)
qed

lemma heartbeat_sends:
  assumes "byte_malloc mm limit" "conn_status s = CLOUD_CONN_DONE" "\<not> send_lock s" "drain 2 (tx_script s) = Some rest"
  shows "cloud_heartbeat_timer_handle mm s = Inr (s\<lparr>send_lock := False, net_out := net_out s @ [0xC0, 0], tx_script := rest\<rparr>)"
proof -
  have f: "frame PINGREQ [] = [0xC0, 0]" by (simp add: frame_def rl_enc.simps PINGREQ_def)
  obtain p where p: "PacketPing mm = Inr p" "wbuf p" "contents p = [0xC0, 0]"
    using byte_malloc.PacketPing_frame [OF assms(1)] f by auto
  then show ?thesis
    using byte_malloc.send_packet_drain [OF assms(1) p(2,3) assms(3), of rest] assms(2,4)
    by (simp add: cloud_heartbeat_timer_handle_def numeral_2_eq_2)
qed

theorem cloud_output_framed_witness:
  "\<exists>s. cloud_run int_doubles (pool_malloc PCB_ADDR fresh_heap) 20448 [0x31] [0x32] s \<and> net_out s = [0xC0, 0] \<and> client_frames (net_out s)"
proof -
  let ?mm = "pool_malloc PCB_ADDR fresh_heap"
  let ?s = "idle_cloud\<lparr>conn_status := CLOUD_CONN_DONE, tx_script := [\<lparr>tx_select = 1, tx_ready = True, tx_sent = 2\<rparr>]\<rparr>"
  let ?s' = "?s\<lparr>send_lock := False, net_out := net_out ?s @ [0xC0, 0], tx_script := []\<rparr>"
  have "cloud_heartbeat_timer_handle ?mm ?s = Inr ?s'"
    by (rule heartbeat_sends [OF fresh.byte_malloc_axioms]) (simp_all add: idle_cloud_def)
  moreover have "cloud_run int_doubles ?mm 20448 [0x31] [0x32] ?s" by (rule cloud_run.start) (simp add: idle_cloud_def)
  ultimately have run: "cloud_run int_doubles ?mm 20448 [0x31] [0x32] ?s'" using cloud_run.heartbeat by blast
  have "client_frames (net_out ?s')"
    using cloud_output_framed [OF fresh.byte_malloc_axioms _ _ _ _ run] by (simp add: fits_def idle_cloud_def)
  with run show ?thesis by (intro exI [of _ ?s']) (simp add: idle_cloud_def)
qed

end
