(* ===== verification/RingBuffer.thy ===== *)
theory RingBuffer
  imports DynMem
begin

text \<open>
  The ring buffer of the agent (\<open>Lib/ring_buffer.c\<close>): a byte array with unsigned head and tail
  positions, one cell of which stays empty.  \<open>None\<close> is the NULL buffer of a failed allocation.
  The bytes between head and tail are a bounded FIFO queue; the interface \<open>byte_fifo\<close> states
  that contract and RingBuffer interprets it for the UART receiver.
\<close>

section \<open>The ring buffer\<close>

record ring_buffer_t =
  rsize :: u32
  rhead :: u32
  rtail :: u32
  rbuffer :: "bytes option"

definition ring_buf_clear :: "ring_buffer_t \<Rightarrow> ring_buffer_t" where
  "ring_buf_clear ring = ring\<lparr>rtail := 0, rhead := 0\<rparr>"

definition ring_buf_empty :: "ring_buffer_t \<Rightarrow> bool" where
  "ring_buf_empty ring \<longleftrightarrow> rtail ring = rhead ring"

definition ring_buf_full :: "ring_buffer_t \<Rightarrow> bool outcome" where
  "ring_buf_full ring =
     (if rsize ring = 0 then Inl DivByZero
      else Inr ((rtail ring + 1) mod rsize ring = rhead ring))"

text \<open>The counts are computed in unsigned arithmetic and returned as \<open>int\<close>.\<close>

definition ring_buf_cnt :: "ring_buffer_t \<Rightarrow> int" where
  "ring_buf_cnt ring =
     (if rtail ring \<ge> rhead ring then sint (rtail ring - rhead ring)
      else sint (rsize ring + rtail ring - rhead ring))"

definition ring_buf_space :: "ring_buffer_t \<Rightarrow> int" where
  "ring_buf_space ring =
     (if rhead ring > rtail ring then sint (rhead ring - rtail ring - 1)
      else sint (rsize ring - 1 + rhead ring - rtail ring))"

definition ring_buf_cnt_to_end :: "ring_buffer_t \<Rightarrow> int" where
  "ring_buf_cnt_to_end ring =
     (if rtail ring \<ge> rhead ring then sint (rtail ring - rhead ring)
      else sint (rsize ring - rhead ring))"

definition ring_buf_space_to_end :: "ring_buffer_t \<Rightarrow> int" where
  "ring_buf_space_to_end ring =
     (if rhead ring > rtail ring then sint (rhead ring - rtail ring - 1)
      else sint ((rsize ring - 1) - rtail ring + (if rhead ring > 0 then 1 else 0)))"

definition ring_mem :: "ring_buffer_t \<Rightarrow> bytes outcome" where
  "ring_mem cb = (case rbuffer cb of None \<Rightarrow> Inl NullPointer | Some m \<Rightarrow> Inr m)"

text \<open>\<open>pos += c; if (pos >= size) pos -= size;\<close>\<close>

definition ring_wrap :: "u32 \<Rightarrow> u32 \<Rightarrow> u32" where
  "ring_wrap sz pos = (if pos \<ge> sz then pos - sz else pos)"

definition ring_buf_write_char :: "ring_buffer_t \<Rightarrow> u8 \<Rightarrow> (int \<times> ring_buffer_t) outcome" where
  "ring_buf_write_char cb data =
     ebind (ring_buf_full cb) (\<lambda>full.
     if \<not> full
     then ebind (ring_mem cb) (\<lambda>m.
          ebind (store m (unat (rtail cb)) data) (\<lambda>m.
          Inr (1, cb\<lparr>rbuffer := Some m, rtail := ring_wrap (rsize cb) (rtail cb + 1)\<rparr>)))
     else Inr (0, cb))"

text \<open>The loops of \<open>ring_buf_write\<close> and \<open>ring_buf_read\<close>; \<open>off\<close> is how far \<open>buf\<close> has advanced.\<close>

function ring_write_loop ::
  "ring_buffer_t \<Rightarrow> bytes \<Rightarrow> nat \<Rightarrow> int \<Rightarrow> int \<Rightarrow> (int \<times> ring_buffer_t) outcome" where
  "ring_write_loop cb buf off count ret =
     (let c0 = ring_buf_space_to_end cb;
          c = (if count < c0 then count else c0)
      in if c \<le> 0 then Inr (ret, cb)
         else ebind (ring_mem cb) (\<lambda>m.
              ebind (load_n buf off (nat c)) (\<lambda>xs.
              ebind (store_n m (unat (rtail cb)) xs) (\<lambda>m.
              ring_write_loop
                (cb\<lparr>rbuffer := Some m, rtail := ring_wrap (rsize cb) (rtail cb + word_of_int c)\<rparr>)
                buf (off + nat c) (count - c) (ret + c)))))"
  by pat_completeness auto
termination
  by (relation "measure (\<lambda>(cb, buf, off, count, ret). nat count)") (auto split: if_splits)

definition ring_buf_write :: "ring_buffer_t \<Rightarrow> bytes \<Rightarrow> int \<Rightarrow> (int \<times> ring_buffer_t) outcome" where
  "ring_buf_write cb buf count = ring_write_loop cb buf 0 count 0"

function ring_read_loop ::
  "ring_buffer_t \<Rightarrow> bytes \<Rightarrow> nat \<Rightarrow> int \<Rightarrow> int \<Rightarrow> (int \<times> bytes \<times> ring_buffer_t) outcome" where
  "ring_read_loop cb buf off count ret =
     (let c0 = ring_buf_cnt_to_end cb;
          c = (if count < c0 then count else c0)
      in if c \<le> 0 then Inr (ret, buf, cb)
         else ebind (ring_mem cb) (\<lambda>m.
              ebind (load_n m (unat (rhead cb)) (nat c)) (\<lambda>xs.
              ebind (store_n buf off xs) (\<lambda>buf.
              ring_read_loop
                (cb\<lparr>rhead := ring_wrap (rsize cb) (rhead cb + word_of_int c)\<rparr>)
                buf (off + nat c) (count - c) (ret + c)))))"
  by pat_completeness auto
termination
  by (relation "measure (\<lambda>(cb, buf, off, count, ret). nat count)") (auto split: if_splits)

declare ring_write_loop.simps [simp del] ring_read_loop.simps [simp del]

definition ring_buf_read :: "ring_buffer_t \<Rightarrow> bytes \<Rightarrow> int \<Rightarrow> (int \<times> bytes \<times> ring_buffer_t) outcome" where
  "ring_buf_read cb buf count = ring_read_loop cb buf 0 count 0"

definition ring_buf_alloc :: "mallocator \<Rightarrow> u32 \<Rightarrow> int \<times> ring_buffer_t" where
  "ring_buf_alloc mm data_len =
     (0, \<lparr>rsize = data_len, rhead = 0, rtail = 0, rbuffer = mm data_len\<rparr>)"

text \<open>
  \<open>ring_buf_free\<close> releases the address of the struct, not of the buffer.  \<open>ring_addr\<close> is where
  the struct lives; the struct itself is then cleared.
\<close>

definition ring_buf_free :: "u32 \<Rightarrow> ring_buffer_t \<Rightarrow> dm_state \<Rightarrow> (ring_buffer_t \<times> dm_state) outcome" where
  "ring_buf_free ring_addr ring s = ebind (OSMFree ring_addr s) (\<lambda>s. Inr (ring_buf_clear ring, s))"

section \<open>The queue it holds\<close>

definition ring_ok :: "ring_buffer_t \<Rightarrow> bool" where
  "ring_ok r \<longleftrightarrow> (\<exists>m. rbuffer r = Some m \<and> length m = unat (rsize r)) \<and>
     unat (rhead r) < unat (rsize r) \<and> unat (rtail r) < unat (rsize r) \<and> unat (rsize r) < 2 ^ 31"

definition ring_items :: "ring_buffer_t \<Rightarrow> bytes" where
  "ring_items r = (case rbuffer r of None \<Rightarrow> [] | Some m \<Rightarrow>
     if unat (rhead r) \<le> unat (rtail r)
     then drop (unat (rhead r)) (take (unat (rtail r)) m)
     else drop (unat (rhead r)) m @ take (unat (rtail r)) m)"

definition ring_room :: "ring_buffer_t \<Rightarrow> nat" where
  "ring_room r = unat (rsize r) - 1 - length (ring_items r)"

lemma ring_okE:
  assumes "ring_ok r"
  obtains m where "rbuffer r = Some m" and "length m = unat (rsize r)" and "unat (rhead r) < unat (rsize r)"
    and "unat (rtail r) < unat (rsize r)" and "unat (rsize r) < 2 ^ 31"
  using assms by (auto simp: ring_ok_def)

lemma length_ring_items:
  assumes "ring_ok r"
  shows "length (ring_items r) = (if unat (rhead r) \<le> unat (rtail r) then unat (rtail r) - unat (rhead r)
    else unat (rsize r) - unat (rhead r) + unat (rtail r))"
  using assms by (auto simp: ring_ok_def ring_items_def)

lemma ring_items_less: "ring_ok r \<Longrightarrow> length (ring_items r) < unat (rsize r)"
  by (auto simp: length_ring_items ring_ok_def)

lemma ring_unat:
  assumes "ring_ok r"
  shows "rhead r \<le> rtail r \<Longrightarrow> unat (rtail r - rhead r) = unat (rtail r) - unat (rhead r)"
    and "rtail r < rhead r \<Longrightarrow> unat (rsize r + rtail r - rhead r) = unat (rsize r) + unat (rtail r) - unat (rhead r)"
    and "rtail r < rhead r \<Longrightarrow> unat (rhead r - rtail r - 1) = unat (rhead r) - unat (rtail r) - 1"
    and "unat (rsize r - 1 + rhead r - rtail r) = unat (rsize r) - 1 + unat (rhead r) - unat (rtail r)"
    and "unat (rsize r - rhead r) = unat (rsize r) - unat (rhead r)"
    and "unat (rsize r - 1 - rtail r) = unat (rsize r) - 1 - unat (rtail r)"
proof -
  have s: "unat (rsize r - 1) = unat (rsize r) - 1"
    using assms by (subst unat_sub_no_wrap) (auto simp: ring_ok_def)
  have a: "unat (rsize r - 1 + rhead r) = unat (rsize r) - 1 + unat (rhead r)"
    using assms s by (subst unat_add_no_wrap) (auto simp: ring_ok_def)
  have b: "unat (rsize r + rtail r) = unat (rsize r) + unat (rtail r)"
    using assms s by (subst unat_add_no_wrap) (auto simp: ring_ok_def)
  show "rhead r \<le> rtail r \<Longrightarrow> unat (rtail r - rhead r) = unat (rtail r) - unat (rhead r)"
    by (simp add: unat_sub_no_wrap word_le_nat_alt)
  show "rtail r < rhead r \<Longrightarrow> unat (rsize r + rtail r - rhead r) = unat (rsize r) + unat (rtail r) - unat (rhead r)"
    using assms b by (subst unat_sub_no_wrap) (auto simp: ring_ok_def)
  show "rtail r < rhead r \<Longrightarrow> unat (rhead r - rtail r - 1) = unat (rhead r) - unat (rtail r) - 1"
    by (subst unat_sub_no_wrap; subst unat_sub_no_wrap) (auto simp: word_less_nat_alt)
  show "unat (rsize r - 1 + rhead r - rtail r) = unat (rsize r) - 1 + unat (rhead r) - unat (rtail r)"
    using assms a by (subst unat_sub_no_wrap) (auto simp: ring_ok_def)
  show "unat (rsize r - rhead r) = unat (rsize r) - unat (rhead r)"
    using assms by (subst unat_sub_no_wrap) (auto simp: ring_ok_def)
  show "unat (rsize r - 1 - rtail r) = unat (rsize r) - 1 - unat (rtail r)"
    using assms s by (subst unat_sub_no_wrap) (auto simp: ring_ok_def)
qed

lemma ring_cnt_ok:
  assumes ok: "ring_ok r"
  shows "ring_buf_cnt r = int (length (ring_items r))"
proof -
  have "ring_buf_cnt r = sint (if rtail r \<ge> rhead r then rtail r - rhead r else rsize r + rtail r - rhead r)"
    by (simp add: ring_buf_cnt_def)
  also have "\<dots> = int (length (ring_items r))"
    using ok ring_unat(1,2) [OF ok] ring_items_less [OF ok]
    by (intro sint_nat) (auto simp: length_ring_items word_le_nat_alt not_le word_less_nat_alt ring_ok_def)
  finally show ?thesis .
qed

lemma ring_space_ok:
  assumes ok: "ring_ok r"
  shows "ring_buf_space r = int (ring_room r)"
proof -
  have "ring_buf_space r = sint (if rhead r > rtail r then rhead r - rtail r - 1 else rsize r - 1 + rhead r - rtail r)"
    by (simp add: ring_buf_space_def)
  also have "\<dots> = int (ring_room r)"
    using ok ring_unat(3,4) [OF ok]
    by (intro sint_nat) (auto simp: ring_room_def length_ring_items word_less_nat_alt ring_ok_def)
  finally show ?thesis .
qed

text \<open>The contiguous part of the room and of the items.\<close>

definition ring_run_room :: "ring_buffer_t \<Rightarrow> nat" where
  "ring_run_room r = (if unat (rtail r) < unat (rhead r) then unat (rhead r) - unat (rtail r) - 1
     else unat (rsize r) - unat (rtail r) - (if unat (rhead r) = 0 then 1 else 0))"

definition ring_run :: "ring_buffer_t \<Rightarrow> nat" where
  "ring_run r = (if unat (rhead r) \<le> unat (rtail r) then unat (rtail r) - unat (rhead r)
     else unat (rsize r) - unat (rhead r))"

lemma ring_space_to_end_ok:
  assumes ok: "ring_ok r"
  shows "ring_buf_space_to_end r = int (ring_run_room r)"
proof -
  have e: "ring_buf_space_to_end r = sint (if rhead r > rtail r then rhead r - rtail r - 1
      else rsize r - 1 - rtail r + (if rhead r > 0 then 1 else 0))"
    by (simp add: ring_buf_space_to_end_def)
  have "unat (rsize r - 1 - rtail r + 1) = unat (rsize r) - unat (rtail r)"
    using ok ring_unat(6) [OF ok] by (subst unat_add_no_wrap) (auto simp: ring_ok_def)
  then show ?thesis
    unfolding e using ok ring_unat(3,6) [OF ok]
    by (intro sint_nat) (auto simp: ring_run_room_def word_less_nat_alt ring_ok_def)
qed

lemma ring_cnt_to_end_ok:
  assumes ok: "ring_ok r"
  shows "ring_buf_cnt_to_end r = int (ring_run r)"
proof -
  have "ring_buf_cnt_to_end r = sint (if rtail r \<ge> rhead r then rtail r - rhead r else rsize r - rhead r)"
    by (simp add: ring_buf_cnt_to_end_def)
  also have "\<dots> = int (ring_run r)"
    using ok ring_unat(1,5) [OF ok]
    by (intro sint_nat) (auto simp: ring_run_def word_le_nat_alt ring_ok_def)
  finally show ?thesis .
qed

lemma ring_run_le: "ring_ok r \<Longrightarrow> ring_run r \<le> length (ring_items r)"
  and ring_run_0: "ring_ok r \<Longrightarrow> ring_run r = 0 \<longleftrightarrow> ring_items r = []"
  using length_ring_items [of r] by (auto simp: ring_run_def ring_ok_def)

lemma ring_run_room_le: "ring_ok r \<Longrightarrow> ring_run_room r \<le> ring_room r"
  and ring_run_room_0: "ring_ok r \<Longrightarrow> ring_run_room r = 0 \<longleftrightarrow> ring_room r = 0"
  by (auto simp: ring_run_room_def ring_room_def length_ring_items ring_ok_def)

section \<open>Appending and removing a contiguous run\<close>

lemma unat_ring_wrap:
  assumes "unat pos < unat sz" and "unat pos + n \<le> unat sz" and "unat sz < 2 ^ 31"
  shows "unat (ring_wrap sz (pos + word_of_nat n)) = (if unat pos + n = unat sz then 0 else unat pos + n)"
proof -
  have "unat (word_of_nat n :: u32) = n" using assms by (intro unat_of_nat_no_wrap) simp
  then have "unat (pos + word_of_nat n) = unat pos + n" using assms by (subst unat_add_no_wrap) simp_all
  then show ?thesis using assms by (auto simp: ring_wrap_def word_le_nat_alt unat_sub_no_wrap)
qed

lemma ring_append:
  assumes ok: "ring_ok r" and m: "rbuffer r = Some m" and n: "length xs \<le> ring_run_room r"
  defines "t \<equiv> unat (rtail r)"
  defines "r' \<equiv> r\<lparr>rbuffer := Some (take t m @ xs @ drop (t + length xs) m),
    rtail := ring_wrap (rsize r) (rtail r + word_of_nat (length xs))\<rparr>"
  shows "t + length xs \<le> length m" and "ring_ok r'" and "ring_items r' = ring_items r @ xs"
    and "ring_room r' = ring_room r - length xs"
proof -
  have len: "length m = unat (rsize r)" using ok m by (auto simp: ring_ok_def)
  show fit: "t + length xs \<le> length m"
    using n ok len by (auto simp: ring_run_room_def t_def ring_ok_def split: if_splits)
  have w: "unat (rtail r') = (if t + length xs = unat (rsize r) then 0 else t + length xs)"
    using unat_ring_wrap [of "rtail r" "rsize r" "length xs"] fit len ok
    by (auto simp: r'_def t_def ring_ok_def)
  show ok': "ring_ok r'"
    using ok w fit len by (auto simp: r'_def ring_ok_def t_def)
  show it: "ring_items r' = ring_items r @ xs"
  proof (cases "unat (rhead r) \<le> t")
    case True
    with n w fit len m ok show ?thesis
      by (auto simp: ring_items_def r'_def t_def ring_run_room_def ring_ok_def split: if_splits)
  next
    case False
    then have "t + length xs < unat (rhead r)"
      using n by (auto simp: ring_run_room_def t_def split: if_splits)
    with False w fit len m ok show ?thesis
      by (auto simp: ring_items_def r'_def t_def ring_ok_def)
  qed
  show "ring_room r' = ring_room r - length xs" by (simp add: ring_room_def it) (simp add: r'_def)
qed

lemma ring_remove:
  assumes ok: "ring_ok r" and m: "rbuffer r = Some m" and n: "n \<le> ring_run r"
  defines "h \<equiv> unat (rhead r)"
  defines "r' \<equiv> r\<lparr>rhead := ring_wrap (rsize r) (rhead r + word_of_nat n)\<rparr>"
  shows "h + n \<le> length m" and "take n (drop h m) = take n (ring_items r)" and "ring_ok r'"
    and "ring_items r' = drop n (ring_items r)"
proof -
  have len: "length m = unat (rsize r)" using ok m by (auto simp: ring_ok_def)
  show fit: "h + n \<le> length m"
    using n ok len by (auto simp: ring_run_def h_def ring_ok_def split: if_splits)
  have w: "unat (rhead r') = (if h + n = unat (rsize r) then 0 else h + n)"
    using unat_ring_wrap [of "rhead r" "rsize r" n] fit len ok
    by (auto simp: r'_def h_def ring_ok_def)
  show "take n (drop h m) = take n (ring_items r)"
    using n m len by (cases "unat (rhead r) \<le> unat (rtail r)")
      (simp_all add: ring_items_def ring_run_def h_def drop_take min_def)
  show "ring_ok r'" using ok w fit len by (auto simp: r'_def ring_ok_def h_def)
  show "ring_items r' = drop n (ring_items r)"
    using n m w fit len ok
    by (auto simp: ring_items_def r'_def h_def ring_run_def ring_ok_def add.commute split: if_splits)
qed

section \<open>The operations\<close>

lemma ring_full_ok:
  assumes ok: "ring_ok r"
  shows "ring_buf_full r = Inr (ring_room r = 0)"
proof -
  have z: "rsize r \<noteq> 0" using ok by (auto simp: ring_ok_def)
  have t: "unat (rtail r + 1) = Suc (unat (rtail r))"
    using ok by (intro unat_Suc_no_wrap) (auto simp: ring_ok_def)
  have "(rtail r + 1) mod rsize r = rhead r \<longleftrightarrow> Suc (unat (rtail r)) mod unat (rsize r) = unat (rhead r)"
    by (simp add: word_unat_eq_iff unat_mod t)
  also have "\<dots> \<longleftrightarrow> ring_room r = 0"
    using ok by (auto simp: ring_room_def length_ring_items ring_ok_def mod_Suc split: if_splits)
  finally show ?thesis using z by (simp add: ring_buf_full_def)
qed

lemma ring_write_char_ok:
  assumes ok: "ring_ok r"
  shows "if ring_room r = 0 then ring_buf_write_char r x = Inr (0, r)
    else \<exists>r'. ring_buf_write_char r x = Inr (1, r') \<and> ring_ok r' \<and> ring_items r' = ring_items r @ [x] \<and>
      ring_room r' = ring_room r - 1 \<and> rsize r' = rsize r"
proof (cases "ring_room r = 0")
  case True
  then show ?thesis using ring_full_ok [OF ok] by (simp add: ring_buf_write_char_def)
next
  case False
  obtain m where m: "rbuffer r = Some m" using ok by (rule ring_okE)
  from False ring_run_room_0 [OF ok] have "length [x] \<le> ring_run_room r" by simp
  note a = ring_append [OF ok m this]
  have st: "store m (unat (rtail r)) x = Inr (take (unat (rtail r)) m @ [x] @ drop (unat (rtail r) + length [x]) m)"
    using a(1) by (simp add: store_in upd_conv_take_nth_drop)
  show ?thesis
    using False ring_full_ok [OF ok] m st a(2-) by (auto simp: ring_buf_write_char_def ring_mem_def)
qed

lemma ring_write_loop_ok:
  assumes "ring_ok r" and "0 \<le> count" and "off + nat count \<le> length buf"
  shows "\<exists>r'. ring_write_loop r buf off count ret = Inr (ret + min count (int (ring_room r)), r') \<and>
    ring_ok r' \<and> rsize r' = rsize r \<and>
    ring_items r' = ring_items r @ take (min (nat count) (ring_room r)) (drop off buf)"
  using assms
proof (induction r buf off count ret rule: ring_write_loop.induct)
  case (1 r buf off count ret)
  note ok = "1.prems"(1)
  define c where "c = min (nat count) (ring_run_room r)"
  have ci: "(if count < ring_buf_space_to_end r then count else ring_buf_space_to_end r) = int c"
    using "1.prems"(2) by (auto simp: c_def ring_space_to_end_ok [OF ok])
  show ?case
  proof (cases "c = 0")
    case True
    then have "count = 0 \<or> ring_room r = 0"
      using "1.prems"(2) ring_run_room_0 [OF ok] by (auto simp: c_def min_def split: if_splits)
    with True ci ok "1.prems"(2) show ?thesis by (auto simp: ring_write_loop.simps [of r] Let_def)
  next
    case False
    obtain m where m: "rbuffer r = Some m" using ok by (rule ring_okE)
    let ?xs = "take c (drop off buf)"
    have lx: "length ?xs = c" using "1.prems"(2,3) by (auto simp: c_def)
    then have "length ?xs \<le> ring_run_room r" by (simp add: c_def)
    note a = ring_append [OF ok m this, unfolded lx]
    let ?m = "take (unat (rtail r)) m @ ?xs @ drop (unat (rtail r) + c) m"
    let ?r = "r\<lparr>rbuffer := Some ?m, rtail := ring_wrap (rsize r) (rtail r + word_of_nat c)\<rparr>"
    have le: "off + nat (int c) \<le> length buf" "int c \<le> count"
      using "1.prems"(2,3) by (auto simp: c_def)
    have steps: "ring_mem r = Inr m" "load_n buf off (nat (int c)) = Inr ?xs"
      "store_n m (unat (rtail r)) ?xs = Inr ?m"
      using m le a(1) lx by (simp_all add: ring_mem_def load_n_in store_n_in)
    have "ring_write_loop r buf off count ret = ring_write_loop ?r buf (off + c) (count - int c) (ret + int c)"
      using False ci steps by (simp add: ring_write_loop.simps [of r] Let_def)
    moreover have "\<exists>r'. ring_write_loop ?r buf (off + c) (count - int c) (ret + int c) =
        Inr (ret + int c + min (count - int c) (int (ring_room ?r)), r') \<and> ring_ok r' \<and> rsize r' = rsize ?r \<and>
        ring_items r' = ring_items ?r @ take (min (nat (count - int c)) (ring_room ?r)) (drop (off + c) buf)"
      using "1.IH" [OF refl refl _ steps(1), of ?xs ?m] steps(2,3) ci False a(2) le "1.prems"(3) by simp
    moreover have "c \<le> ring_room r" using ring_run_room_le [OF ok] by (simp add: c_def)
    moreover from this have "take c (drop off buf) @ take (min (nat (count - int c)) (ring_room r - c)) (drop (off + c) buf) =
        take (min (nat count) (ring_room r)) (drop off buf)"
      using le(2) by (simp add: take_add [symmetric] add.commute min_def nat_diff_distrib flip: drop_drop)
    ultimately show ?thesis using a(3,4) le(2) by (auto simp: min_def)
  qed
qed

lemma ring_read_loop_ok:
  assumes "ring_ok r" and "0 \<le> count" and "off + min (nat count) (length (ring_items r)) \<le> length buf"
  shows "\<exists>r'. ring_read_loop r buf off count ret =
      Inr (ret + min count (int (length (ring_items r))),
        take off buf @ take (nat count) (ring_items r) @
          drop (off + min (nat count) (length (ring_items r))) buf, r') \<and>
    ring_ok r' \<and> rsize r' = rsize r \<and> ring_items r' = drop (nat count) (ring_items r)"
  using assms
proof (induction r buf off count ret rule: ring_read_loop.induct)
  case (1 r buf off count ret)
  note ok = "1.prems"(1)
  define c where "c = min (nat count) (ring_run r)"
  have ci: "(if count < ring_buf_cnt_to_end r then count else ring_buf_cnt_to_end r) = int c"
    using "1.prems"(2) by (auto simp: c_def ring_cnt_to_end_ok [OF ok])
  show ?case
  proof (cases "c = 0")
    case True
    then have "count = 0 \<or> ring_items r = []"
      using "1.prems"(2) ring_run_0 [OF ok] by (auto simp: c_def min_def split: if_splits)
    with True ci ok "1.prems" show ?thesis by (auto simp: ring_read_loop.simps [of r] Let_def)
  next
    case False
    obtain m where m: "rbuffer r = Some m" using ok by (rule ring_okE)
    have "c \<le> ring_run r" by (simp add: c_def)
    note a = ring_remove [OF ok m this]
    let ?xs = "take c (ring_items r)"
    let ?r = "r\<lparr>rhead := ring_wrap (rsize r) (rhead r + word_of_nat c)\<rparr>"
    have cl: "c \<le> length (ring_items r)" using ring_run_le [OF ok] by (simp add: c_def)
    have cc: "int c \<le> count" using "1.prems"(2) by (simp add: c_def)
    have lx: "length ?xs = c" using cl by simp
    have fit: "off + c \<le> length buf" using "1.prems"(3) cl cc by simp
    let ?buf = "take off buf @ ?xs @ drop (off + c) buf"
    have steps: "ring_mem r = Inr m" "load_n m (unat (rhead r)) (nat (int c)) = Inr ?xs"
      "store_n buf off ?xs = Inr ?buf"
      using m a(1,2) lx fit by (simp_all add: ring_mem_def load_n_in store_n_in)
    have step: "ring_read_loop r buf off count ret = ring_read_loop ?r ?buf (off + c) (count - int c) (ret + int c)"
      using False ci steps by (simp add: ring_read_loop.simps [of r] Let_def)
    have fit': "off + c + min (nat (count - int c)) (length (ring_items ?r)) \<le> length ?buf"
    proof -
      have "length ?buf = length buf" using fit lx by simp
      moreover have "c + min (nat (count - int c)) (length (ring_items ?r)) = min (nat count) (length (ring_items r))"
        using cl cc a(4) by auto
      ultimately show ?thesis using "1.prems"(3) by (simp only: add.assoc)
    qed
    have "\<exists>r'. ring_read_loop ?r ?buf (off + c) (count - int c) (ret + int c) =
        Inr (ret + int c + min (count - int c) (int (length (ring_items ?r))),
          take (off + c) ?buf @ take (nat (count - int c)) (ring_items ?r) @
            drop (off + c + min (nat (count - int c)) (length (ring_items ?r))) ?buf, r') \<and>
        ring_ok r' \<and> rsize r' = rsize ?r \<and> ring_items r' = drop (nat (count - int c)) (ring_items ?r)"
      by (rule "1.IH" [OF refl refl, unfolded ci nat_int of_int_of_nat_eq, OF _ steps [unfolded nat_int]])
        (use False a(3) fit' cc in auto)
    then obtain r' where r': "ring_read_loop r buf off count ret =
        Inr (ret + int c + min (count - int c) (int (length (ring_items ?r))),
          take (off + c) ?buf @ take (nat (count - int c)) (ring_items ?r) @
            drop (off + c + min (nat (count - int c)) (length (ring_items ?r))) ?buf, r')"
        "ring_ok r'" "rsize r' = rsize r" "ring_items r' = drop (nat (count - int c)) (ring_items ?r)"
      unfolding step by auto
    have nc: "nat count = c + nat (count - int c)" using cc by linarith
    have tk: "take off buf @ take (nat count) (ring_items r) =
        take (off + c) ?buf @ take (nat (count - int c)) (ring_items ?r)"
      using a(4) lx fit by (simp add: nc take_add)
    have dr: "drop (off + min (nat count) (length (ring_items r))) buf =
        drop (off + c + min (nat (count - int c)) (length (ring_items ?r))) ?buf"
      using a(4) lx fit cl by (simp add: nc min_def ac_simps)
    have "ret + int c + min (count - int c) (int (length (ring_items ?r))) =
        ret + min count (int (length (ring_items r)))"
      using a(4) cl by (simp add: min_def)
    with r' tk dr a(4) nc show ?thesis by (auto simp: add.commute)
  qed
qed

section \<open>The queue interface\<close>

text \<open>
  What the UART receiver relies on: a bounded queue of bytes.  A byte is accepted where there is
  room and refused, with the queue unchanged, where there is none; a read of everything empties
  the queue and delivers its bytes in order.
\<close>

locale byte_fifo =
  fixes ok :: "'r \<Rightarrow> bool" and items :: "'r \<Rightarrow> bytes" and cap :: "'r \<Rightarrow> nat"
    and put :: "'r \<Rightarrow> u8 \<Rightarrow> (int \<times> 'r) outcome"
    and get :: "'r \<Rightarrow> bytes \<Rightarrow> int \<Rightarrow> (int \<times> bytes \<times> 'r) outcome"
  assumes bounded: "ok r \<Longrightarrow> length (items r) \<le> cap r"
    and put_full: "ok r \<Longrightarrow> length (items r) = cap r \<Longrightarrow> put r x = Inr (0, r)"
    and put_room: "ok r \<Longrightarrow> length (items r) < cap r \<Longrightarrow>
      \<exists>r'. put r x = Inr (1, r') \<and> ok r' \<and> items r' = items r @ [x] \<and> cap r' = cap r"
    and get_all: "ok r \<Longrightarrow> length (items r) \<le> length buf \<Longrightarrow>
      \<exists>r'. get r buf (int (length (items r))) =
          Inr (int (length (items r)), items r @ drop (length (items r)) buf, r') \<and>
        ok r' \<and> items r' = [] \<and> cap r' = cap r"
begin

text \<open>A put always succeeds or drops the byte, and never touches what is queued.\<close>

lemma put_ok:
  assumes "ok r"
  shows "\<exists>rc r'. put r x = Inr (rc, r') \<and> ok r' \<and> cap r' = cap r \<and>
    items r' = (if length (items r) < cap r then items r @ [x] else items r)"
proof (cases "length (items r) < cap r")
  case True
  with put_room [OF assms] show ?thesis by force
next
  case False
  with put_full [OF assms] bounded [OF assms] assms show ?thesis by force
qed

end

interpretation ring: byte_fifo ring_ok ring_items "\<lambda>r. unat (rsize r) - 1" ring_buf_write_char ring_buf_read
proof
  show "length (ring_items r) \<le> unat (rsize r) - 1" if "ring_ok r" for r
    using ring_items_less [OF that] by simp
  show "ring_buf_write_char r x = Inr (0, r)" if "ring_ok r" "length (ring_items r) = unat (rsize r) - 1" for r x
    using ring_write_char_ok [OF that(1)] that(2) by (simp add: ring_room_def)
  show "\<exists>r'. ring_buf_write_char r x = Inr (1, r') \<and> ring_ok r' \<and> ring_items r' = ring_items r @ [x] \<and>
      unat (rsize r') - 1 = unat (rsize r) - 1"
    if "ring_ok r" "length (ring_items r) < unat (rsize r) - 1" for r x
    using ring_write_char_ok [OF that(1), of x] that(2) by (force simp: ring_room_def split: if_splits)
  show "\<exists>r'. ring_buf_read r buf (int (length (ring_items r))) =
        Inr (int (length (ring_items r)), ring_items r @ drop (length (ring_items r)) buf, r') \<and>
      ring_ok r' \<and> ring_items r' = [] \<and> unat (rsize r') - 1 = unat (rsize r) - 1"
    if "ring_ok r" "length (ring_items r) \<le> length buf" for r buf
    using ring_read_loop_ok [OF that(1), of "int (length (ring_items r))" 0 buf 0] that(2)
    by (auto simp: ring_buf_read_def)
qed

section \<open>Properties\<close>

text \<open>
  C11: \<open>ring_buf_write\<close> appends the longest prefix of the data that fits and returns its length;
  \<open>ring_buf_read\<close> removes the oldest bytes, at most \<open>count\<close>, and copies them in order, wherever
  the head and the tail stand in the array.
\<close>

theorem ring_write_read_fifo:
  assumes "ring_ok r" and "0 \<le> count" and "nat count \<le> length buf"
  shows "(\<exists>r'. ring_buf_write r buf count = Inr (min count (int (ring_room r)), r') \<and> ring_ok r' \<and>
      ring_items r' = ring_items r @ take (min (nat count) (ring_room r)) buf) \<and>
    (\<exists>r' out. ring_buf_read r buf count = Inr (min count (int (length (ring_items r))), out, r') \<and> ring_ok r' \<and>
      ring_items r = take (min (nat count) (length (ring_items r))) out @ ring_items r')"
proof (intro conjI)
  show "\<exists>r'. ring_buf_write r buf count = Inr (min count (int (ring_room r)), r') \<and> ring_ok r' \<and>
      ring_items r' = ring_items r @ take (min (nat count) (ring_room r)) buf"
    using ring_write_loop_ok [OF assms(1,2), of 0 buf 0] assms(3) by (auto simp: ring_buf_write_def)
  let ?n = "nat count" let ?k = "min ?n (length (ring_items r))"
  have "min ?n (length (ring_items r)) \<le> length buf" using assms(3) by simp
  with ring_read_loop_ok [OF assms(1,2), of 0 buf 0] obtain r' where
    r': "ring_buf_read r buf count = Inr (min count (int (length (ring_items r))),
        take ?n (ring_items r) @ drop ?k buf, r')" "ring_ok r'" "ring_items r' = drop ?n (ring_items r)"
    by (auto simp: ring_buf_read_def)
  have "take ?k (take ?n (ring_items r) @ drop ?k buf) = take ?n (ring_items r)" by (simp add: min_def)
  with r' show "\<exists>r' out. ring_buf_read r buf count = Inr (min count (int (length (ring_items r))), out, r') \<and>
      ring_ok r' \<and> ring_items r = take ?k out @ ring_items r'" by auto
qed

theorem ring_write_read_fifo_witness:
  "let r = \<lparr>rsize = 4, rhead = 3, rtail = 1, rbuffer = Some [10, 20, 30, 40]\<rparr> in
   ring_items r = [40, 10] \<and> ring_ok r \<and>
   (\<exists>r' out. ring_buf_read r [0, 0, 0] 2 = Inr (2, out, r') \<and> [40, 10] = take 2 out @ ring_items r')"
proof -
  let ?r = "\<lparr>rsize = 4, rhead = 3, rtail = 1, rbuffer = Some [10, 20, 30, 40]\<rparr> :: ring_buffer_t"
  have ok: "ring_ok ?r" by (simp add: ring_ok_def)
  have it: "ring_items ?r = [40, 10]" by (simp add: ring_items_def)
  have "\<exists>r' out. ring_buf_read ?r [0, 0, 0] 2 = Inr (2, out, r') \<and> [40, 10] = take 2 out @ ring_items r'"
    using ring_write_read_fifo [OF ok, of 2 "[0, 0, 0]"] unfolding it by (auto simp: numeral_2_eq_2)
  with ok it show ?thesis by (simp add: Let_def)
qed

end
