(* ===== verification/UartRecv.thy ===== *)
theory UartRecv
  imports RingBuffer
begin

text \<open>
  The UART receiver of the agent (\<open>System/nl6621_uart.c\<close>): the receive interrupt stores bytes in
  the ring buffer, the interrupt (half-full buffer) and a periodic timer post a semaphore, and
  the receive task takes everything that has arrived.  The three run interleaved; the step
  relation \<open>uart_run\<close> covers every interleaving of the handlers.  The semaphore is the counter of
  the kernel, which stops at 65535.
\<close>

section \<open>The receiver\<close>

definition UART_RECV_BUF_SIZE :: u32 where "UART_RECV_BUF_SIZE = 512"

record uart_state =
  uartrxbuf :: ring_buffer_t
  recv_sem :: nat
  recv_data :: bytes

definition OSSemPost :: "nat \<Rightarrow> nat" where
  "OSSemPost cnt = (if cnt < 65535 then cnt + 1 else cnt)"

definition uart_init :: "mallocator \<Rightarrow> uart_state" where
  "uart_init mm =
     \<lparr>uartrxbuf = snd (ring_buf_alloc mm UART_RECV_BUF_SIZE), recv_sem = 0, recv_data = replicate 1024 0\<rparr>"

definition uart_data_recv :: "u8 \<Rightarrow> uart_state \<Rightarrow> uart_state outcome" where
  "uart_data_recv Dummy s =
     ebind (ring_buf_write_char (uartrxbuf s) Dummy) (\<lambda>(rc, r).
     let s = s\<lparr>uartrxbuf := r\<rparr> in
     Inr (if ring_buf_cnt r \<ge> sint (UART_RECV_BUF_SIZE div 2) then s\<lparr>recv_sem := OSSemPost (recv_sem s)\<rparr> else s))"

definition uart_recv_timer_handle :: "uart_state \<Rightarrow> uart_state" where
  "uart_recv_timer_handle s =
     (if ring_buf_cnt (uartrxbuf s) > 0 then s\<lparr>recv_sem := OSSemPost (recv_sem s)\<rparr> else s)"

text \<open>
  One iteration of \<open>UartTaskThread\<close> after \<open>OSSemPend\<close> has returned; the result is what the task
  reports, the first \<open>recv_size\<close> bytes of \<open>recv_data\<close>.
\<close>

definition UartTaskThread_iter :: "uart_state \<Rightarrow> (bytes \<times> uart_state) outcome" where
  "UartTaskThread_iter s =
     (let s = s\<lparr>recv_sem := recv_sem s - 1\<rparr>;
          recv_size = (word_of_int (ring_buf_cnt (uartrxbuf s)) :: u16) in
      if recv_size > 0
      then ebind (store_n (recv_data s) 0 (replicate (unat UART_RECV_BUF_SIZE) 0)) (\<lambda>d.
           ebind (ring_buf_read (uartrxbuf s) d (uint recv_size)) (\<lambda>(n, d, r).
           ebind (load_n d 0 (unat recv_size)) (\<lambda>out.
           Inr (out, s\<lparr>uartrxbuf := r, recv_data := d\<rparr>))))
      else Inr ([], s))"

section \<open>Interleavings\<close>

text \<open>
  \<open>uart_run mm s acc del\<close>: a run has reached \<open>s\<close>; \<open>acc\<close> are the bytes that found room in the
  buffer when they arrived, \<open>del\<close> those the task has reported.
\<close>

inductive uart_run :: "mallocator \<Rightarrow> uart_state \<Rightarrow> bytes \<Rightarrow> bytes \<Rightarrow> bool" for mm where
  init: "uart_run mm (uart_init mm) [] []"
| rx: "uart_run mm s acc del \<Longrightarrow> uart_data_recv x s = Inr s' \<Longrightarrow>
    uart_run mm s' (if ring_buf_space (uartrxbuf s) > 0 then acc @ [x] else acc) del"
| timer: "uart_run mm s acc del \<Longrightarrow> uart_run mm (uart_recv_timer_handle s) acc del"
| task: "uart_run mm s acc del \<Longrightarrow> 0 < recv_sem s \<Longrightarrow> UartTaskThread_iter s = Inr (out, s') \<Longrightarrow>
    uart_run mm s' acc (del @ out)"

definition uart_ok :: "uart_state \<Rightarrow> bool" where
  "uart_ok s \<longleftrightarrow> ring_ok (uartrxbuf s) \<and> rsize (uartrxbuf s) = 512 \<and> length (recv_data s) = 1024"

lemma uart_init_ok:
  assumes "byte_malloc mm limit"
  shows "uart_ok (uart_init mm)" and "ring_items (uartrxbuf (uart_init mm)) = []"
proof -
  have "unat (512 :: u32) \<le> limit" using byte_malloc.limit_ge [OF assms] by simp
  then obtain d where d: "mm 512 = Some d" using byte_malloc.mm_total [OF assms] by blast
  then have "length d = 512" using byte_malloc.mm_length [OF assms d] by simp
  with d show "uart_ok (uart_init mm)" "ring_items (uartrxbuf (uart_init mm)) = []"
    by (simp_all add: uart_ok_def uart_init_def ring_buf_alloc_def UART_RECV_BUF_SIZE_def ring_ok_def ring_items_def)
qed

lemma uart_recv_ok:
  assumes ok: "uart_ok s"
  shows "\<exists>s'. uart_data_recv x s = Inr s' \<and> uart_ok s' \<and>
    ring_items (uartrxbuf s') = (if ring_buf_space (uartrxbuf s) > 0 then ring_items (uartrxbuf s) @ [x]
      else ring_items (uartrxbuf s))"
proof -
  from ok have r: "ring_ok (uartrxbuf s)" "rsize (uartrxbuf s) = 512" "length (recv_data s) = 1024"
    by (auto simp: uart_ok_def)
  from ring_write_char_ok [OF r(1), of x] obtain rc r' where
    w: "ring_buf_write_char (uartrxbuf s) x = Inr (rc, r')" "ring_ok r'" "rsize r' = 512"
    "ring_items r' = (if ring_room (uartrxbuf s) = 0 then ring_items (uartrxbuf s) else ring_items (uartrxbuf s) @ [x])"
    using r by (auto split: if_splits)
  with r show ?thesis by (simp add: uart_data_recv_def Let_def uart_ok_def ring_space_ok)
qed

lemma uart_task_ok:
  assumes ok: "uart_ok s"
  shows "\<exists>s'. UartTaskThread_iter s = Inr (ring_items (uartrxbuf s), s') \<and> uart_ok s' \<and>
    ring_items (uartrxbuf s') = []"
proof -
  let ?r = "uartrxbuf s" let ?n = "length (ring_items ?r)"
  from ok have r: "ring_ok ?r" "rsize ?r = 512" "length (recv_data s) = 1024" by (auto simp: uart_ok_def)
  have n: "?n < 512" using ring_items_less [OF r(1)] r(2) by simp
  have w: "(word_of_int (ring_buf_cnt ?r) :: u16) = word_of_nat ?n" using ring_cnt_ok [OF r(1)] by simp
  have un: "unat (word_of_nat ?n :: u16) = ?n" using n by (intro unat_of_nat_no_wrap) simp
  then have ui: "uint (word_of_nat ?n :: u16) = int ?n" by (metis uint_nat)
  let ?d = "replicate 512 0 @ drop 512 (recv_data s)"
  have st: "store_n (recv_data s) 0 (replicate (unat UART_RECV_BUF_SIZE) 0) = Inr ?d"
    using r(3) by (simp add: store_n_in UART_RECV_BUF_SIZE_def)
  have ld: "length ?d = 1024" using r(3) by (simp only: length_append length_replicate length_drop)
  obtain r' where g: "ring_buf_read ?r ?d (int ?n) = Inr (int ?n, ring_items ?r @ drop ?n ?d, r')"
    "ring_ok r'" "ring_items r' = []" "rsize r' = rsize ?r"
    using ring_read_loop_ok [OF r(1), of "int ?n" 0 ?d 0] ld n by (auto simp: ring_buf_read_def)
  have l: "load_n (ring_items ?r @ drop ?n ?d) 0 ?n = Inr (ring_items ?r)"
    by (simp add: load_n_in)
  show ?thesis
  proof (cases "?n = 0")
    case True
    with ok w un show ?thesis by (simp add: UartTaskThread_iter_def Let_def uart_ok_def)
  next
    case False
    then have "word_of_nat ?n > (0 :: u16)" using un by (simp add: word_less_nat_alt)
    with w un ui st g l ld n r show ?thesis
      by (simp add: UartTaskThread_iter_def Let_def uart_ok_def)
  qed
qed

section \<open>Properties\<close>

lemma uart_run_inv:
  assumes mm: "byte_malloc mm limit"
  shows "uart_run mm s acc del \<Longrightarrow> uart_ok s \<and> del @ ring_items (uartrxbuf s) = acc"
proof (induction rule: uart_run.induct)
  case init
  then show ?case using uart_init_ok [OF mm] by simp
next
  case (rx s acc del x s')
  then show ?case using uart_recv_ok [of s x] by (auto split: if_splits)
next
  case (timer s acc del)
  then show ?case by (simp add: uart_recv_timer_handle_def uart_ok_def)
next
  case (task s acc del out s')
  then show ?case using uart_task_ok [of s] by auto
qed

text \<open>
  C12: In every interleaving of the receive interrupt, the timer and the receive task, the bytes
  the task has reported followed by those still in the ring buffer are exactly the bytes that
  found room when they arrived, in order; the next handler to run does not fault.
\<close>

theorem uart_fifo:
  assumes "byte_malloc mm limit" and "uart_run mm s acc del"
  shows "del @ ring_items (uartrxbuf s) = acc \<and>
    (\<exists>s'. uart_data_recv x s = Inr s') \<and> (\<exists>r. UartTaskThread_iter s = Inr r)"
  using uart_run_inv [OF assms] uart_recv_ok uart_task_ok by blast

theorem uart_fifo_witness:
  "let mm = pool_malloc PCB_ADDR fresh_heap in
   \<exists>s. uart_data_recv 0x41 (uart_init mm) = Inr s \<and> uart_run mm s [0x41] [] \<and> ring_items (uartrxbuf s) = [0x41]"
proof -
  let ?mm = "pool_malloc PCB_ADDR fresh_heap"
  note i = uart_init_ok [OF fresh.byte_malloc_axioms]
  from uart_recv_ok [OF i(1), of "0x41"] obtain s where s: "uart_data_recv 0x41 (uart_init ?mm) = Inr s" by blast
  have "ring_buf_space (uartrxbuf (uart_init ?mm)) > 0"
    using i by (simp add: uart_ok_def ring_space_ok ring_room_def)
  with uart_run.rx [OF uart_run.init s] have run: "uart_run ?mm s [0x41] []" by simp
  from uart_fifo [OF fresh.byte_malloc_axioms run] s run show ?thesis by (auto simp: Let_def)
qed

text \<open>
  C13: No byte waits for ever: after the timer has run with bytes in the buffer the semaphore is
  up, and the task that takes it empties the buffer.
\<close>

theorem uart_wakeup:
  assumes "byte_malloc mm limit" and "uart_run mm s acc del" and "ring_items (uartrxbuf s) \<noteq> []"
  shows "0 < recv_sem (uart_recv_timer_handle s) \<and>
    (\<exists>out s'. UartTaskThread_iter (uart_recv_timer_handle s) = Inr (out, s') \<and> del @ out = acc \<and>
       ring_items (uartrxbuf s') = [])"
proof -
  from uart_run_inv [OF assms(1,2)] have ok: "uart_ok s" and acc: "del @ ring_items (uartrxbuf s) = acc" by auto
  then have "ring_ok (uartrxbuf s)" by (simp add: uart_ok_def)
  then have c: "ring_buf_cnt (uartrxbuf s) > 0" using assms(3) by (simp add: ring_cnt_ok)
  let ?s = "uart_recv_timer_handle s"
  have "uart_ok ?s" "uartrxbuf ?s = uartrxbuf s" using ok by (auto simp: uart_recv_timer_handle_def uart_ok_def)
  with uart_task_ok [of ?s] acc have "\<exists>out s'. UartTaskThread_iter ?s = Inr (out, s') \<and> del @ out = acc \<and>
       ring_items (uartrxbuf s') = []" by auto
  moreover have "0 < recv_sem ?s" using c by (simp add: uart_recv_timer_handle_def OSSemPost_def)
  ultimately show ?thesis by blast
qed

theorem uart_wakeup_witness:
  "\<exists>s out s'. uart_data_recv 0x41 (uart_init (pool_malloc PCB_ADDR fresh_heap)) = Inr s \<and>
     UartTaskThread_iter (uart_recv_timer_handle s) = Inr (out, s') \<and> out = [0x41]"
proof -
  let ?mm = "pool_malloc PCB_ADDR fresh_heap"
  note i = uart_init_ok [OF fresh.byte_malloc_axioms]
  have sp: "ring_buf_space (uartrxbuf (uart_init ?mm)) > 0"
    using i by (simp add: uart_ok_def ring_space_ok ring_room_def)
  from uart_recv_ok [OF i(1), of "0x41"] obtain s where s: "uart_data_recv 0x41 (uart_init ?mm) = Inr s"
    "ring_items (uartrxbuf s) = [0x41]" using sp i(2) by auto
  from uart_run.rx [OF uart_run.init s(1)] sp have run: "uart_run ?mm s [0x41] []" by simp
  from uart_wakeup [OF fresh.byte_malloc_axioms run] s show ?thesis by auto
qed

end
