(* ===== verification/SimuUart.thy ===== *)
theory SimuUart
  imports UartRecv "HOL-Library.Signed_Division"
begin

text \<open>
  The UART in software (\<open>Device/simu_uart.c\<close>), the sending side of \<open>System/nl6621_uart.c\<close>, the interrupt
  numbers of \<open>Device/gpio_int.c\<close> and the formatted output of \<open>Lib/log.c\<close>.  The line is the list of its
  levels, one per bit time of 104 microseconds.  What is sent arrives: the receiver, started by the
  interrupt at a low level and sampling once per bit time, hands exactly the bytes sent to the UART
  receiver.
\<close>

section \<open>Sending\<close>

text \<open>The loop over the data bits, low bit first.\<close>

function send_bits :: "u8 \<Rightarrow> nat \<Rightarrow> bool list" where
  "send_bits Byte i =
     (if i < 8
      then let tmp = drop_bit i Byte AND 0x01 in
           (if tmp = 0 then False else True) # send_bits Byte (i + 1)
      else [])"
  by pat_completeness auto
termination
  by (relation "measure (\<lambda>(Byte, i). 8 - i)") auto

declare send_bits.simps [simp del]

definition SimuSendOneByte :: "u8 \<Rightarrow> bool list" where
  "SimuSendOneByte Byte = [False] @ send_bits Byte 0 @ [True]"

text \<open>
  \<open>uart_data_send\<close>: what goes to the registers of the real UART (\<open>uart_type\<close> 1) and the levels of the
  simulated line.
\<close>

fun uart_data_send :: "bytes \<Rightarrow> u8 \<Rightarrow> bytes \<times> bool list" where
  "uart_data_send [] uart_type = ([], [])"
| "uart_data_send (x # data) uart_type =
     (let (dev, line) = uart_data_send data uart_type in
      if uart_type = 1 then (x # dev, line) else (dev, SimuSendOneByte x @ line))"

section \<open>Receiving\<close>

definition SIMU_UART_RX_PIN :: int where "SIMU_UART_RX_PIN = 3"

definition gpio_num2irq :: "int \<Rightarrow> int" where
  "gpio_num2irq portNum =
     (if portNum > 31 then 0
      else if portNum \<ge> 0 \<and> portNum < 8 then 8 - portNum
      else if portNum \<ge> 8 \<and> portNum < 16 then 33 - portNum
      else 29)"

text \<open>\<open>irqs\<close> are the enabled interrupt lines, \<open>timer1\<close> tells whether timer 1 has been started.\<close>

record simu_uart =
  data_cnt :: nat
  rx_byte :: u8
  recv_stop_flag :: u8
  bytes_cnt :: u32
  irqs :: "int set"
  timer1 :: bool
  uart :: uart_state

definition gpio_int_enable :: "int \<Rightarrow> simu_uart \<Rightarrow> simu_uart" where
  "gpio_int_enable gpio s = s\<lparr>irqs := insert (gpio_num2irq gpio) (irqs s)\<rparr>"

definition gpio_int_disable :: "int \<Rightarrow> simu_uart \<Rightarrow> simu_uart" where
  "gpio_int_disable gpio s = s\<lparr>irqs := irqs s - {gpio_num2irq gpio}\<rparr>"

definition BSP_Timer1Init :: "simu_uart \<Rightarrow> simu_uart" where
  "BSP_Timer1Init s = s\<lparr>timer1 := True\<rparr>"

definition simu_uart_timer_task :: "bool \<Rightarrow> simu_uart \<Rightarrow> (int \<times> simu_uart) outcome" where
  "simu_uart_timer_task gpio_value s =
     (if recv_stop_flag s = 0
      then if data_cnt s = 0
           then if gpio_value
                then Inr (- 1, gpio_int_enable SIMU_UART_RX_PIN (s\<lparr>recv_stop_flag := 1\<rparr>))
                else Inr (0, BSP_Timer1Init (s\<lparr>rx_byte := 0, data_cnt := data_cnt s + 1\<rparr>))
           else if data_cnt s \<ge> 1 \<and> data_cnt s \<le> 8
           then let b = drop_bit 1 (rx_byte s);
                    b = (if gpio_value then b OR 0x80 else b)
                in Inr (0, BSP_Timer1Init (s\<lparr>rx_byte := b, data_cnt := data_cnt s + 1\<rparr>))
           else ebind (if gpio_value then uart_data_recv (rx_byte s) (uart s) else Inr (uart s)) (\<lambda>u.
                let s = s\<lparr>uart := u, data_cnt := 0, bytes_cnt := bytes_cnt s + 1\<rparr> in
                if bytes_cnt s > 8
                then Inr (0, gpio_int_enable SIMU_UART_RX_PIN (s\<lparr>recv_stop_flag := 1\<rparr>))
                else Inr (0, s))
      else Inr (0, s))"

definition gpio_int_func :: "bool \<Rightarrow> simu_uart \<Rightarrow> simu_uart" where
  "gpio_int_func gpio_value s =
     (let s = gpio_int_disable SIMU_UART_RX_PIN s in
      if \<not> gpio_value
      then BSP_Timer1Init (s\<lparr>bytes_cnt := 0, data_cnt := 0, recv_stop_flag := 0\<rparr>)
      else gpio_int_enable SIMU_UART_RX_PIN s)"

definition simu_uart_init :: "uart_state \<Rightarrow> simu_uart" where
  "simu_uart_init u =
     gpio_int_enable SIMU_UART_RX_PIN
       \<lparr>data_cnt = 1, rx_byte = 0, recv_stop_flag = 1, bytes_cnt = 0, irqs = {}, timer1 = False, uart = u\<rparr>"

text \<open>
  One bit time: the interrupt is triggered by a low level; the timer, which is periodic, fires in the
  same bit time (40 microseconds after the interrupt, then every 104).
\<close>

definition bit_time :: "bool \<Rightarrow> simu_uart \<Rightarrow> simu_uart outcome" where
  "bit_time level s =
     (let s = (if gpio_num2irq SIMU_UART_RX_PIN \<in> irqs s \<and> \<not> level then gpio_int_func level s else s) in
      if timer1 s then ebind (simu_uart_timer_task level s) (\<lambda>(rc, s). Inr s) else Inr s)"

fun line_run :: "bool list \<Rightarrow> simu_uart \<Rightarrow> simu_uart outcome" where
  "line_run [] s = Inr s"
| "line_run (level # line) s = ebind (bit_time level s) (line_run line)"

section \<open>Formatted output\<close>

text \<open>The characters sent; the division of C truncates towards 0.\<close>

function printdec :: "int \<Rightarrow> bytes" where
  "printdec dec = (if dec = 0 then [] else printdec (dec sdiv 10) @ [word_of_int (dec smod 10 + 0x30)])"
  by pat_completeness auto
termination
  by (relation "measure (\<lambda>n. nat \<bar>n\<bar>)") (auto simp: signed_divide_int_def abs_mult sgn_if)

function printbin :: "int \<Rightarrow> bytes" where
  "printbin bin = (if bin = 0 then [0x30, 0x62] else printbin (bin sdiv 2) @ [word_of_int (bin smod 2 + 0x30)])"
  by pat_completeness auto
termination
  by (relation "measure (\<lambda>n. nat \<bar>n\<bar>)") (auto simp: signed_divide_int_def abs_mult sgn_if)

function printhex :: "int \<Rightarrow> bytes" where
  "printhex hex =
     (if hex = 0 then [0x30, 0x78]
      else printhex (hex sdiv 16) @
        [if hex < 10 then word_of_int (hex smod 16 + 0x30) else word_of_int (hex smod 16 - 10 + 0x61)])"
  by pat_completeness auto
termination
  by (relation "measure (\<lambda>n. nat \<bar>n\<bar>)") (auto simp: signed_divide_int_def abs_mult sgn_if)

declare printdec.simps [simp del] printbin.simps [simp del] printhex.simps [simp del]

text \<open>
  A \<open>double\<close> argument is given by what the arithmetic of the compiler makes of it: the integer part and
  the first six decimals.
\<close>

datatype log_arg = Int_arg int | Str_arg cstring | Flt_arg int int

definition printflt :: "int \<Rightarrow> int \<Rightarrow> bytes" where
  "printflt whole millionths = printdec whole @ [0x2e] @ printdec millionths"

text \<open>An argument that is missing or of another type is read from whatever the stack holds.\<close>

fun print :: "cstring \<Rightarrow> log_arg list \<Rightarrow> bytes outcome" where
  "print [] args = Inr []"
| "print (c # fmt) args =
     (if c = 0x25
      then case fmt of
             [] \<Rightarrow> Inl OutOfBounds
           | d # fmt \<Rightarrow>
               if d = 0x63
               then (case args of Int_arg n # args \<Rightarrow> ebind (print fmt args) (\<lambda>out. Inr (word_of_int n # out)) | _ \<Rightarrow> Inl UninitRead)
               else if d = 0x64 \<or> d = 0x69
               then (case args of Int_arg n # args \<Rightarrow> ebind (print fmt args) (\<lambda>out. Inr (printdec n @ out)) | _ \<Rightarrow> Inl UninitRead)
               else if d = 0x66
               then (case args of Flt_arg w m # args \<Rightarrow> ebind (print fmt args) (\<lambda>out. Inr (printflt w m @ out)) | _ \<Rightarrow> Inl UninitRead)
               else if d = 0x73
               then (case args of Str_arg str # args \<Rightarrow> ebind (print fmt args) (\<lambda>out. Inr (str @ out)) | _ \<Rightarrow> Inl UninitRead)
               else if d = 0x62 \<or> d = 0x42
               then (case args of Int_arg n # args \<Rightarrow> ebind (print fmt args) (\<lambda>out. Inr (printbin n @ out)) | _ \<Rightarrow> Inl UninitRead)
               else if d = 0x78 \<or> d = 0x58
               then (case args of Int_arg n # args \<Rightarrow> ebind (print fmt args) (\<lambda>out. Inr (printhex n @ out)) | _ \<Rightarrow> Inl UninitRead)
               else if d = 0x25 then ebind (print fmt args) (\<lambda>out. Inr (0x25 # out))
               else print fmt args
      else ebind (print fmt args) (\<lambda>out. Inr (c # out)))"

section \<open>One byte on the line\<close>

lemma send_bits_eq: "i \<le> 8 \<Longrightarrow> send_bits Byte i = map (bit Byte) [i..<8]"
proof (induction "8 - i" arbitrary: i)
  case (Suc n)
  have "drop_bit i Byte AND 1 = 0 \<longleftrightarrow> \<not> bit Byte i"
    by (simp add: and_one_eq bit_iff_odd_drop_bit even_iff_mod_2_eq_zero)
  moreover have "send_bits Byte (i + 1) = map (bit Byte) [i + 1..<8]" using Suc by (intro Suc.hyps(1)) simp_all
  moreover have "i < 8" using Suc.hyps(2) by simp
  ultimately show ?case by (simp add: send_bits.simps [of Byte i] Let_def upt_conv_Cons)
qed (simp add: send_bits.simps)

lemma SimuSendOneByte_eq: "SimuSendOneByte b = False # map (bit b) [0..<8] @ [True]"
  by (simp add: SimuSendOneByte_def send_bits_eq)

text \<open>Eight shifts from the left assemble the byte, whatever was there before.\<close>

definition shift_in :: "bool \<Rightarrow> u8 \<Rightarrow> u8" where
  "shift_in v b = (if v then drop_bit 1 b OR 0x80 else drop_bit 1 b)"

lemma bit_shift_in: "bit (shift_in v b) n \<longleftrightarrow> (if n = 7 then v else n < 7 \<and> bit b (n + 1))"
proof -
  have "bit (push_bit 7 1 :: u8) n \<longleftrightarrow> n = 7" by (simp only: bit_push_bit_iff bit_1_iff) auto
  then have "bit (0x80 :: u8) n \<longleftrightarrow> n = 7" by simp
  moreover have "bit b (Suc n) \<longrightarrow> n < 7" using bit_imp_le_length [of b "Suc n"] by auto
  ultimately show ?thesis by (auto simp: shift_in_def bit_or_iff bit_drop_bit_eq)
qed

lemma shift_in_all: "fold (\<lambda>i. shift_in (bit b i)) [0..<8] x = b"
proof (rule bit_word_eqI)
  fix n
  assume "n < LENGTH(8)"
  then have "n < 8" by simp
  then have "n = 0 \<or> n = 1 \<or> n = 2 \<or> n = 3 \<or> n = 4 \<or> n = 5 \<or> n = 6 \<or> n = 7" by arith
  then show "bit (fold (\<lambda>i. shift_in (bit b i)) [0..<8] x) n = bit b n"
    by (elim disjE) (simp_all add: upt_rec bit_shift_in, simp_all add: numeral_eq_Suc)
qed

text \<open>The receiver waits for a start bit: stopped with the interrupt enabled, or between two bytes.\<close>

definition ready :: "simu_uart \<Rightarrow> bool" where
  "ready s \<longleftrightarrow> (recv_stop_flag s = 1 \<and> 5 \<in> irqs s) \<or>
     (recv_stop_flag s = 0 \<and> data_cnt s = 0 \<and> timer1 s \<and> 5 \<notin> irqs s \<and> bytes_cnt s \<le> 8)"

definition receiving :: "nat \<Rightarrow> simu_uart \<Rightarrow> bool" where
  "receiving n s \<longleftrightarrow> recv_stop_flag s = 0 \<and> data_cnt s = n \<and> timer1 s \<and> 5 \<notin> irqs s \<and> bytes_cnt s \<le> 8"

lemmas simu_defs = gpio_num2irq_def SIMU_UART_RX_PIN_def gpio_int_enable_def gpio_int_disable_def BSP_Timer1Init_def

lemma start_bit:
  assumes "ready s"
  shows "\<exists>t. bit_time False s = Inr t \<and> receiving 1 t \<and> uart t = uart s"
  using assms by (auto simp: ready_def receiving_def bit_time_def gpio_int_func_def simu_uart_timer_task_def Let_def simu_defs)

lemma data_bit:
  assumes "receiving n s" "1 \<le> n" "n \<le> 8"
  shows "\<exists>t. bit_time v s = Inr t \<and> receiving (n + 1) t \<and> uart t = uart s \<and> rx_byte t = shift_in v (rx_byte s)"
  using assms by (auto simp: receiving_def bit_time_def simu_uart_timer_task_def Let_def simu_defs shift_in_def)

lemma stop_bit:
  assumes "receiving 9 s" "uart_data_recv (rx_byte s) (uart s) = Inr u"
  shows "\<exists>t. bit_time True s = Inr t \<and> ready t \<and> uart t = u"
  using assms by (auto simp: receiving_def ready_def bit_time_def simu_uart_timer_task_def Let_def simu_defs not_less)

lemma data_bits:
  "receiving n s \<Longrightarrow> 1 \<le> n \<Longrightarrow> n + length is \<le> 9 \<Longrightarrow>
   \<exists>t. line_run (map f is @ rest) s = line_run rest t \<and> receiving (n + length is) t \<and> uart t = uart s \<and>
     rx_byte t = fold (\<lambda>i. shift_in (f i)) is (rx_byte s)"
proof (induction "is" arbitrary: n s)
  case (Cons i "is")
  obtain u where u: "bit_time (f i) s = Inr u" "receiving (n + 1) u" "uart u = uart s" "rx_byte u = shift_in (f i) (rx_byte s)"
    using data_bit [OF Cons.prems(1,2), of "f i"] Cons.prems(3) by auto
  obtain t where "line_run (map f is @ rest) u = line_run rest t" "receiving (n + 1 + length is) t" "uart t = uart u"
    "rx_byte t = fold (\<lambda>i. shift_in (f i)) is (rx_byte u)"
    using Cons.IH [OF u(2)] Cons.prems(3) by auto
  then show ?case using u by auto
qed auto

lemma byte_received:
  assumes s: "ready s" and u: "uart_data_recv b (uart s) = Inr u"
  shows "\<exists>t. line_run (SimuSendOneByte b @ rest) s = line_run rest t \<and> ready t \<and> uart t = u"
proof -
  obtain s1 where s1: "bit_time False s = Inr s1" "receiving 1 s1" "uart s1 = uart s" using start_bit [OF s] by blast
  obtain s2 where s2: "line_run (map (bit b) [0..<8] @ (True # rest)) s1 = line_run (True # rest) s2"
    "receiving (1 + length [0..<8]) s2" "uart s2 = uart s1" "rx_byte s2 = fold (\<lambda>i. shift_in (bit b i)) [0..<8] (rx_byte s1)"
    using data_bits [OF s1(2), of "[0..<8]" "bit b" "True # rest"] by auto
  have "receiving 9 s2" "rx_byte s2 = b" using s2(2,4) by (simp_all only: shift_in_all length_upt) simp
  then obtain t where t: "bit_time True s2 = Inr t" "ready t" "uart t = u" using stop_bit [of s2 u] u s1(3) s2(3) by auto
  have "line_run (SimuSendOneByte b @ rest) s = line_run (map (bit b) [0..<8] @ (True # rest)) s1"
    using s1(1) by (simp add: SimuSendOneByte_eq)
  then show ?thesis using s2(1) t by auto
qed

section \<open>Properties\<close>

text \<open>
  C24: What \<open>uart_data_send\<close> puts on the simulated line arrives: the bit-banged receiver hands exactly these
  bytes, in order, to the ring buffer of the UART as long as it has room, and is then ready for more.
  This covers the restart by the interrupt that it needs after every ninth byte.
\<close>

theorem simu_uart_delivers:
  assumes "ready s" "uart_ok (uart s)" "length (ring_items (uartrxbuf (uart s))) + length data \<le> 511"
  shows "\<exists>t. line_run (snd (uart_data_send data 0)) s = Inr t \<and> ready t \<and> uart_ok (uart t) \<and>
    ring_items (uartrxbuf (uart t)) = ring_items (uartrxbuf (uart s)) @ data"
  using assms
proof (induction data arbitrary: s)
  case (Cons x data)
  have ring: "ring_ok (uartrxbuf (uart s))" "rsize (uartrxbuf (uart s)) = 512" using Cons.prems(2) by (auto simp: uart_ok_def)
  have "ring_buf_space (uartrxbuf (uart s)) > 0"
    using ring_space_ok [OF ring(1)] ring(2) Cons.prems(3) by (simp add: ring_room_def)
  then obtain u where u: "uart_data_recv x (uart s) = Inr u" "uart_ok u" "ring_items (uartrxbuf u) = ring_items (uartrxbuf (uart s)) @ [x]"
    using uart_recv_ok [OF Cons.prems(2), of x] by auto
  obtain w where w: "line_run (SimuSendOneByte x @ snd (uart_data_send data 0)) s = line_run (snd (uart_data_send data 0)) w"
    "ready w" "uart w = u"
    using byte_received [OF Cons.prems(1) u(1)] by blast
  have "\<exists>t. line_run (snd (uart_data_send data 0)) w = Inr t \<and> ready t \<and> uart_ok (uart t) \<and>
      ring_items (uartrxbuf (uart t)) = ring_items (uartrxbuf (uart w)) @ data"
    using w u Cons.prems(3) by (intro Cons.IH) simp_all
  then show ?case using w u(3) by (simp add: case_prod_beta Let_def)
qed simp

theorem simu_uart_delivers_witness:
  "\<exists>t. line_run (snd (uart_data_send [0x55, 0xAA, 0x00] 0)) (simu_uart_init (uart_init (\<lambda>n. Some (replicate (unat n) 0)))) = Inr t \<and>
     ring_items (uartrxbuf (uart t)) = [0x55, 0xAA, 0x00]"
proof -
  let ?mm = "\<lambda>n. Some (replicate (unat n) 0)" let ?s = "simu_uart_init (uart_init ?mm)"
  have mm: "byte_malloc ?mm 2000" by unfold_locales auto
  have s: "ready ?s" "uart ?s = uart_init ?mm" by (simp_all add: ready_def simu_uart_init_def simu_defs)
  then show ?thesis
    using simu_uart_delivers [of ?s "[0x55, 0xAA, 0x00]"] uart_init_ok [OF mm] by auto
qed

text \<open>The interrupt lines of the first 16 pins are different.\<close>

lemma gpio_num2irq_inj: "inj_on gpio_num2irq {0..<16}"
  by (auto simp: inj_on_def gpio_num2irq_def split: if_splits)

lemma uint_of_int_u8: "0 \<le> k \<Longrightarrow> k < 256 \<Longrightarrow> uint (word_of_int k :: u8) = k"
  by (subst uint_word_of_int) simp

text \<open>\<open>printdec\<close> prints the digits of a positive number, and nothing for 0.\<close>

definition dec_value :: "bytes \<Rightarrow> int" where
  "dec_value ds = foldl (\<lambda>v c. 10 * v + (uint c - 0x30)) 0 ds"

lemma printdec_digits:
  "0 \<le> n \<Longrightarrow> dec_value (printdec n) = n \<and> (\<forall>c \<in> set (printdec n). 0x30 \<le> uint c \<and> uint c \<le> 0x39)"
proof (induction n rule: printdec.induct)
  case (1 n)
  show ?case
  proof (cases "n = 0")
    case False
    have d: "n sdiv 10 = n div 10" "n smod 10 = n mod 10"
      using "1.prems" by (simp_all add: signed_divide_int_def signed_modulo_int_def sgn_if minus_mult_div_eq_mod)
    have m: "0 \<le> n mod 10" "n mod 10 < 10" by simp_all
    then have "uint (word_of_int (n mod 10 + 0x30) :: u8) = n mod 10 + 0x30" by (intro uint_of_int_u8) linarith+
    moreover have "dec_value (printdec (n div 10)) = n div 10 \<and> (\<forall>c \<in> set (printdec (n div 10)). 0x30 \<le> uint c \<and> uint c \<le> 0x39)"
      using "1.IH" [OF False] d "1.prems" by simp
    ultimately show ?thesis using False d m by (simp add: printdec.simps [of n] dec_value_def del: of_int_add)
  qed (simp add: printdec.simps dec_value_def)
qed

text \<open>
  \<open>printhex\<close> compares the whole number with 10 instead of the digit: the last digit of any number above 15
  that ends in a decimal digit comes out as one of the ten characters in front of the letter a.
\<close>

lemma printhex_wrong_digit:
  assumes "16 \<le> n" "n mod 16 < 10"
  shows "last (printhex n) = word_of_int (n mod 16 + 0x57) \<and> 0x57 \<le> uint (last (printhex n)) \<and> uint (last (printhex n)) < 0x61"
proof -
  have "n smod 16 = n mod 16" using assms(1) by (simp add: signed_divide_int_def signed_modulo_int_def sgn_if minus_mult_div_eq_mod)
  then have l: "last (printhex n) = word_of_int (n mod 16 + 0x57)" using assms(1) by (simp add: printhex.simps [of n] add.commute del: of_int_add of_int_diff)
  have "0 \<le> n mod 16" by simp
  then have "uint (word_of_int (n mod 16 + 0x57) :: u8) = n mod 16 + 0x57" using assms(2) by (intro uint_of_int_u8) linarith+
  then show ?thesis using l assms(2) by simp
qed

end
