(* ===== verification/DhcpServer.thy ===== *)
theory DhcpServer
  imports Prelude
begin

text \<open>
  The DHCP server of the soft access point (\<open>App/DhcpServer/dhcp_server.c\<close>): the table of eight
  clients, the option parser, the table lookup with its allocation priorities, the client
  state machine, the replies, the tick and the start of the server.  \<open>DhcpMsg\<close>, the static
  message buffer, is the array of its 548 bytes; addresses are the \<open>u32\<close> values the code
  stores (network byte order in memory, read on a little-endian core).  The network stack is
  represented by the datagrams sent, and by the arguments \<open>pbuf_ok\<close> (\<open>pbuf_alloc\<close> succeeds),
  \<open>udp_ok\<close> (\<open>udp_new\<close> succeeds) and \<open>station\<close> (\<open>APGetStationStatus\<close> of the WLAN library).
\<close>

section \<open>Byte order\<close>

definition htonl :: "u32 \<Rightarrow> u32" where
  "htonl v = push_bit 24 (v AND 0xff) OR push_bit 8 (v AND 0xff00) OR
     (drop_bit 8 v AND 0xff00) OR (drop_bit 24 v AND 0xff)"

abbreviation ntohl :: "u32 \<Rightarrow> u32" where "ntohl \<equiv> htonl"

section \<open>Constants\<close>

definition DHCPS_HISTORY_CLIENT_NUM :: nat where "DHCPS_HISTORY_CLIENT_NUM = 8"
definition DHCP_DEFAULT_LEASE_TIME :: u32 where "DHCP_DEFAULT_LEASE_TIME = 3600*24*365*10"
definition DHCP_DEFFAULT_TIMEOUT :: u32 where "DHCP_DEFFAULT_TIMEOUT = 10"
definition DHCP_MAGIC :: u32 where "DHCP_MAGIC = 0x63825363"
definition DHCP_OP_REQUEST :: u8 where "DHCP_OP_REQUEST = 1"
definition DHCP_OP_REPLY :: u8 where "DHCP_OP_REPLY = 2"
definition DHCP_HWTYPE_ETHERNET :: u8 where "DHCP_HWTYPE_ETHERNET = 1"

definition DHCP_OPTION_ID_PAD :: u8 where "DHCP_OPTION_ID_PAD = 0"
definition DHCP_OPTION_ID_SUBNET_MASK :: u8 where "DHCP_OPTION_ID_SUBNET_MASK = 1"
definition DHCP_OPTION_ID_DEF_GW :: u8 where "DHCP_OPTION_ID_DEF_GW = 3"
definition DHCP_OPTION_ID_DNS_SERVER :: u8 where "DHCP_OPTION_ID_DNS_SERVER = 6"
definition DHCP_OPTION_ID_REQ_IP_ADDR :: u8 where "DHCP_OPTION_ID_REQ_IP_ADDR = 50"
definition DHCP_OPTION_ID_LEASE_TIME :: u8 where "DHCP_OPTION_ID_LEASE_TIME = 51"
definition DHCP_OPTION_ID_MSG_TYPE :: u8 where "DHCP_OPTION_ID_MSG_TYPE = 53"
definition DHCP_OPTION_ID_SERVER_ID :: u8 where "DHCP_OPTION_ID_SERVER_ID = 54"
definition DHCP_OPTION_ID_END :: u8 where "DHCP_OPTION_ID_END = 255"

definition DHCP_MSG_DISCOVER :: u8 where "DHCP_MSG_DISCOVER = 1"
definition DHCP_MSG_OFFER :: u8 where "DHCP_MSG_OFFER = 2"
definition DHCP_MSG_REQUEST :: u8 where "DHCP_MSG_REQUEST = 3"
definition DHCP_MSG_DECLINE :: u8 where "DHCP_MSG_DECLINE = 4"
definition DHCP_MSG_ACK :: u8 where "DHCP_MSG_ACK = 5"
definition DHCP_MSG_NAK :: u8 where "DHCP_MSG_NAK = 6"
definition DHCP_MSG_RELEASE :: u8 where "DHCP_MSG_RELEASE = 7"

definition DHCPS_ERR_SUCCESS :: int where "DHCPS_ERR_SUCCESS = 0"
definition DHCPS_ERR_LINKDOWN :: int where "DHCPS_ERR_LINKDOWN = -1"
definition DHCPS_ERR_PARAM :: int where "DHCPS_ERR_PARAM = -2"
definition DHCPS_ERR_MEM :: int where "DHCPS_ERR_MEM = -3"
definition DHCPS_ERR_NOT_BIND :: int where "DHCPS_ERR_NOT_BIND = -4"
definition DHCPS_ERR_NOT_FOUND :: int where "DHCPS_ERR_NOT_FOUND = -5"
definition DHCPS_ERR_INACTIVE :: int where "DHCPS_ERR_INACTIVE = -6"

text \<open>\<open>sizeof(DHCP_MSG)\<close> and the offset of its \<open>Options\<close>.\<close>

definition sizeof_DHCP_MSG :: nat where "sizeof_DHCP_MSG = 548"
definition DHCP_OPTIONS_OFFSET :: nat where "DHCP_OPTIONS_OFFSET = 240"

section \<open>State\<close>

datatype dhcp_client_state =
  DHCP_CLIENT_STATE_IDLE | DHCP_CLIENT_STATE_SELECT | DHCP_CLIENT_STATE_REQUEST | DHCP_CLIENT_STATE_BIND

record dhcp_client =
  cState :: dhcp_client_state
  cTimeout :: u32
  cIpAddr :: u32
  cMacAddr :: bytes
  cLease :: u32

record dhcp_server =
  Enable :: u8
  Socket :: bool
  ServerIpAddr :: u32
  StartIpAddr :: u32
  SubnetMask :: u32
  GateWay :: u32
  Dns1 :: u32
  Dns2 :: u32
  LeaseTime :: u32
  Clients :: "dhcp_client list"

record dhcp_state =
  DhcpServer :: dhcp_server
  DhcpMsg :: bytes
  udp_sent :: "bytes list"
  tick_armed :: bool

definition mac_zero :: bytes where "mac_zero = replicate 6 0"

definition upd_client :: "nat \<Rightarrow> (dhcp_client \<Rightarrow> dhcp_client) \<Rightarrow> dhcp_client list \<Rightarrow> dhcp_client list" where
  "upd_client i f cs = cs[i := f (cs ! i)]"

section \<open>Tick\<close>

definition tick_client :: "(bytes \<Rightarrow> u8) \<Rightarrow> dhcp_client \<Rightarrow> dhcp_client" where
  "tick_client station c =
     (case cState c of
        DHCP_CLIENT_STATE_REQUEST \<Rightarrow>
          if cTimeout c \<noteq> 0
          then let c = c\<lparr>cTimeout := cTimeout c - 1\<rparr> in
               if cTimeout c = 0 then c\<lparr>cMacAddr := mac_zero, cState := DHCP_CLIENT_STATE_IDLE\<rparr> else c
          else c
      | DHCP_CLIENT_STATE_BIND \<Rightarrow>
          let expired = (cLease c \<noteq> 0 \<and> cLease c - 1 = 0);
              c = (if cLease c \<noteq> 0 then c\<lparr>cLease := cLease c - 1\<rparr> else c) in
          if expired then c\<lparr>cState := DHCP_CLIENT_STATE_IDLE\<rparr>
          else if station (cMacAddr c) = 0 then c\<lparr>cState := DHCP_CLIENT_STATE_IDLE\<rparr>
          else c
      | _ \<Rightarrow> c)"

definition DhcpTickHandle :: "(bytes \<Rightarrow> u8) \<Rightarrow> dhcp_state \<Rightarrow> dhcp_state" where
  "DhcpTickHandle station s =
     (let srv = DhcpServer s; s = s\<lparr>tick_armed := False\<rparr> in
      if Enable srv = 0 then s
      else s\<lparr>DhcpServer := srv\<lparr>Clients := map (tick_client station) (Clients srv)\<rparr>, tick_armed := True\<rparr>)"

section \<open>Options\<close>

record dhcp_options =
  oRet :: u8
  oMsgType :: u8
  oReqIpAddr :: u32
  oServerId :: u32

text \<open>
  The loop of \<open>_ParseDhcpOptions\<close> at the offset \<open>p\<close> into the message.  The condition reads the
  byte at \<open>p\<close> before it compares \<open>p\<close> with the end.
\<close>

function parse_options_loop :: "bytes \<Rightarrow> nat \<Rightarrow> dhcp_options \<Rightarrow> dhcp_options outcome" where
  "parse_options_loop m p r =
     ebind (load m p) (\<lambda>b.
     if b \<noteq> DHCP_OPTION_ID_END \<and> p < sizeof_DHCP_MSG
     then if b = DHCP_OPTION_ID_PAD then parse_options_loop m (p + 1) r
          else ebind (load m (p + 1)) (\<lambda>Len.
               ebind (if b = DHCP_OPTION_ID_MSG_TYPE
                      then ebind (load m (p + 2)) (\<lambda>t. Inr (r\<lparr>oMsgType := t, oRet := oRet r OR 0x01\<rparr>))
                      else if b = DHCP_OPTION_ID_REQ_IP_ADDR
                      then ebind (le32_at m (p + 2)) (\<lambda>a. Inr (r\<lparr>oReqIpAddr := a, oRet := oRet r OR 0x02\<rparr>))
                      else if b = DHCP_OPTION_ID_SERVER_ID
                      then ebind (le32_at m (p + 2)) (\<lambda>a. Inr (r\<lparr>oServerId := a, oRet := oRet r OR 0x04\<rparr>))
                      else Inr r) (\<lambda>r.
               parse_options_loop m (p + 2 + unat Len) r))
     else Inr r)"
  by pat_completeness auto
termination
  by (relation "measure (\<lambda>(m, p, r). sizeof_DHCP_MSG - p)") (auto simp: sizeof_DHCP_MSG_def)

declare parse_options_loop.simps [simp del]

definition ParseDhcpOptions :: "bytes \<Rightarrow> dhcp_options outcome" where
  "ParseDhcpOptions m =
     parse_options_loop m DHCP_OPTIONS_OFFSET \<lparr>oRet = 0, oMsgType = 0xff, oReqIpAddr = 0, oServerId = 0\<rparr>"

section \<open>Table lookup\<close>

record lookup_scan =
  pMyHistoryClient :: "nat option"
  pReqClient :: "nat option"
  pFreeClient :: "nat option"
  pHistoryClient :: "nat option"
  pMyClient :: "nat option"
  IpUnavailable :: bool

text \<open>The state of the scan after the first \<open>n\<close> entries.\<close>

primrec scan_clients :: "dhcp_client list \<Rightarrow> bytes \<Rightarrow> u32 \<Rightarrow> nat \<Rightarrow> lookup_scan" where
  "scan_clients cs mac ip 0 =
     \<lparr>pMyHistoryClient = None, pReqClient = None, pFreeClient = None, pHistoryClient = None,
      pMyClient = None, IpUnavailable = False\<rparr>"
| "scan_clients cs mac ip (Suc i) =
     (let r = scan_clients cs mac ip i; c = cs ! i in
      if cState c = DHCP_CLIENT_STATE_IDLE
      then r\<lparr>pMyHistoryClient := (if pMyHistoryClient r = None \<and> cMacAddr c = mac then Some i else pMyHistoryClient r),
             pReqClient := (if pReqClient r = None \<and> cIpAddr c = ip then Some i else pReqClient r),
             pFreeClient := (if pFreeClient r = None \<and> cMacAddr c = mac_zero then Some i else pFreeClient r),
             pHistoryClient := (if pHistoryClient r = None \<and> cMacAddr c \<noteq> mac_zero then Some i else pHistoryClient r)\<rparr>
      else if cMacAddr c = mac then r\<lparr>pMyClient := Some i\<rparr>
      else if cIpAddr c = ip then r\<lparr>IpUnavailable := True\<rparr>
      else r)"

text \<open>\<open>if (State != BIND) memset(MacAddr, 0, 6); State = IDLE;\<close>\<close>

definition drop_client :: "dhcp_client \<Rightarrow> dhcp_client" where
  "drop_client c =
     (let c = (if cState c \<noteq> DHCP_CLIENT_STATE_BIND then c\<lparr>cMacAddr := mac_zero\<rparr> else c) in
      c\<lparr>cState := DHCP_CLIENT_STATE_IDLE\<rparr>)"

definition lookup_discover :: "lookup_scan \<Rightarrow> dhcp_client list \<Rightarrow> nat option \<times> dhcp_client list" where
  "lookup_discover r cs =
     (case pMyClient r of
        Some my \<Rightarrow>
          let cs = upd_client my (\<lambda>c. c\<lparr>cState := DHCP_CLIENT_STATE_IDLE\<rparr>) cs in
          (case pReqClient r of
             Some q \<Rightarrow>
               (Some q, if cState (cs ! my) \<noteq> DHCP_CLIENT_STATE_BIND
                        then upd_client my (\<lambda>c. c\<lparr>cMacAddr := mac_zero\<rparr>) cs else cs)
           | None \<Rightarrow> (Some my, cs))
      | None \<Rightarrow>
          (case pReqClient r of
             Some q \<Rightarrow> (Some q, cs)
           | None \<Rightarrow>
               (case pMyHistoryClient r of
                  Some h \<Rightarrow> (Some h, cs)
                | None \<Rightarrow>
                    (case pFreeClient r of
                       Some f \<Rightarrow> (Some f, cs)
                     | None \<Rightarrow> (pHistoryClient r, cs)))))"

definition lookup_request ::
  "u32 \<Rightarrow> u32 \<Rightarrow> lookup_scan \<Rightarrow> dhcp_client list \<Rightarrow> nat option \<times> dhcp_client list" where
  "lookup_request server_ip ServerId r cs =
     (let mine = (ServerId = 0 \<or> server_ip = ServerId) in
      case pMyClient r of
        Some my \<Rightarrow>
          if IpUnavailable r then (None, upd_client my drop_client cs)
          else (case pReqClient r of
                  Some q \<Rightarrow> (if mine then Some q else None, upd_client my drop_client cs)
                | None \<Rightarrow> (if mine then Some my else None, cs))
      | None \<Rightarrow>
          if IpUnavailable r then (None, cs)
          else (if mine then pReqClient r else None, cs))"

definition lookup_release :: "lookup_scan \<Rightarrow> dhcp_client list \<Rightarrow> nat option \<times> dhcp_client list" where
  "lookup_release r cs =
     (None, case pMyClient r of Some my \<Rightarrow> upd_client my drop_client cs | None \<Rightarrow> cs)"

definition ClientTableLookup ::
  "u32 \<Rightarrow> bytes \<Rightarrow> u8 \<Rightarrow> u32 \<Rightarrow> u32 \<Rightarrow> dhcp_client list \<Rightarrow> nat option \<times> dhcp_client list" where
  "ClientTableLookup server_ip MacAddr MsgType ReqIpAddr ServerId cs =
     (let r = scan_clients cs MacAddr ReqIpAddr DHCPS_HISTORY_CLIENT_NUM;
          (ret, cs) =
            (if MsgType = DHCP_MSG_DISCOVER then lookup_discover r cs
             else if MsgType = DHCP_MSG_REQUEST then lookup_request server_ip ServerId r cs
             else if MsgType = DHCP_MSG_RELEASE then lookup_release r cs
             else if MsgType = DHCP_MSG_DECLINE then lookup_release r cs
             else (None, cs))
      in case ret of
           Some i \<Rightarrow> (Some i, upd_client i (\<lambda>c. c\<lparr>cMacAddr := MacAddr\<rparr>) cs)
         | None \<Rightarrow> (None, cs))"

section \<open>Replies\<close>

text \<open>The option macros append to the option area and count its length.\<close>

definition option_u32 :: "u8 \<Rightarrow> u32 \<Rightarrow> bytes" where
  "option_u32 opt v = [opt, 4] @ le32 v"

definition option_msg_type :: "u8 \<Rightarrow> bytes" where
  "option_msg_type t = [DHCP_OPTION_ID_MSG_TYPE, 1, t]"

definition option_lease_time :: "u32 \<Rightarrow> bytes" where
  "option_lease_time t = [DHCP_OPTION_ID_LEASE_TIME, 4] @ le32 (htonl t)"

text \<open>The header fields of a reply, up to the magic number; all other fields are zero.\<close>

definition reply_header :: "u32 \<Rightarrow> u32 \<Rightarrow> u32 \<Rightarrow> bytes \<Rightarrow> bytes" where
  "reply_header Xid Yiaddr Siaddr mac =
     [DHCP_OP_REPLY, DHCP_HWTYPE_ETHERNET, 6, 0] @ le32 (htonl Xid) @ replicate 8 0 @
     le32 Yiaddr @ le32 Siaddr @ replicate 4 0 @ mac @ replicate 10 0 @ replicate 64 0 @
     replicate 128 0 @ le32 (htonl DHCP_MAGIC)"

text \<open>
  Sending a reply: without a packet buffer nothing happens; otherwise the static message is
  cleared and filled, and its first \<open>Len\<close> bytes are broadcast.
\<close>

definition send_reply :: "bool \<Rightarrow> bytes \<Rightarrow> bytes \<Rightarrow> dhcp_state \<Rightarrow> dhcp_state" where
  "send_reply pbuf_ok header options s =
     (if \<not> pbuf_ok then s
      else let m = header @ options in
           s\<lparr>DhcpMsg := m @ replicate (sizeof_DHCP_MSG - length m) 0, udp_sent := udp_sent s @ [m]\<rparr>)"

definition DHCPNakGenAndSend :: "bool \<Rightarrow> bytes \<Rightarrow> u32 \<Rightarrow> dhcp_state \<Rightarrow> dhcp_state" where
  "DHCPNakGenAndSend pbuf_ok mac Xid s =
     send_reply pbuf_ok (reply_header Xid 0 (ServerIpAddr (DhcpServer s)) mac)
       (option_msg_type DHCP_MSG_NAK @ [DHCP_OPTION_ID_END]) s"

definition lease_options :: "u8 \<Rightarrow> dhcp_server \<Rightarrow> bytes" where
  "lease_options t srv =
     option_msg_type t @ option_lease_time DHCP_DEFAULT_LEASE_TIME @
     option_u32 DHCP_OPTION_ID_SERVER_ID (ServerIpAddr srv) @
     option_u32 DHCP_OPTION_ID_SUBNET_MASK (SubnetMask srv) @
     option_u32 DHCP_OPTION_ID_DEF_GW (GateWay srv) @
     option_u32 DHCP_OPTION_ID_DNS_SERVER (Dns1 srv) @ [DHCP_OPTION_ID_END]"

definition DHCPAckGenAndSend :: "bool \<Rightarrow> dhcp_client \<Rightarrow> bytes \<Rightarrow> u32 \<Rightarrow> dhcp_state \<Rightarrow> dhcp_state" where
  "DHCPAckGenAndSend pbuf_ok c mac Xid s =
     send_reply pbuf_ok (reply_header Xid (cIpAddr c) 0 mac) (lease_options DHCP_MSG_ACK (DhcpServer s)) s"

definition DHCPOfferGenAndSend :: "bool \<Rightarrow> dhcp_client \<Rightarrow> bytes \<Rightarrow> u32 \<Rightarrow> dhcp_state \<Rightarrow> dhcp_state" where
  "DHCPOfferGenAndSend pbuf_ok c mac Xid s =
     send_reply pbuf_ok (reply_header Xid (cIpAddr c) 0 mac) (lease_options DHCP_MSG_OFFER (DhcpServer s)) s"

section \<open>Client state machine\<close>

definition CleanClientHistory :: "bytes \<Rightarrow> dhcp_client list \<Rightarrow> dhcp_client list" where
  "CleanClientHistory mac cs =
     map (\<lambda>c. if cState c = DHCP_CLIENT_STATE_IDLE \<and> cMacAddr c = mac then c\<lparr>cMacAddr := mac_zero\<rparr> else c) cs"

definition set_clients :: "(dhcp_client list \<Rightarrow> dhcp_client list) \<Rightarrow> dhcp_state \<Rightarrow> dhcp_state" where
  "set_clients f s = s\<lparr>DhcpServer := (DhcpServer s)\<lparr>Clients := f (Clients (DhcpServer s))\<rparr>\<rparr>"

text \<open>Acknowledge and bind: the REQUEST case of IDLE, and the REQUEST and BIND states.\<close>

definition bind_client :: "bool \<Rightarrow> nat \<Rightarrow> u32 \<Rightarrow> dhcp_state \<Rightarrow> dhcp_state" where
  "bind_client pbuf_ok i Xid s =
     (let c = Clients (DhcpServer s) ! i;
          s = DHCPAckGenAndSend pbuf_ok c (cMacAddr c) Xid s;
          s = set_clients (upd_client i (\<lambda>c. c\<lparr>cLease := DHCP_DEFAULT_LEASE_TIME,
                cState := DHCP_CLIENT_STATE_BIND\<rparr>)) s
      in set_clients (CleanClientHistory (cMacAddr c)) s)"

text \<open>Offer and wait: the SELECT state, into which IDLE falls through.\<close>

definition offer_client :: "bool \<Rightarrow> nat \<Rightarrow> u32 \<Rightarrow> dhcp_state \<Rightarrow> dhcp_state" where
  "offer_client pbuf_ok i Xid s =
     (let c = Clients (DhcpServer s) ! i;
          s = DHCPOfferGenAndSend pbuf_ok c (cMacAddr c) Xid s
      in set_clients (upd_client i (\<lambda>c. c\<lparr>cTimeout := DHCP_DEFFAULT_TIMEOUT,
           cState := DHCP_CLIENT_STATE_REQUEST\<rparr>)) s)"

definition DhcpClientSMEHandle :: "bool \<Rightarrow> nat \<Rightarrow> u8 \<Rightarrow> u32 \<Rightarrow> dhcp_state \<Rightarrow> dhcp_state" where
  "DhcpClientSMEHandle pbuf_ok i MsgType Xid s =
     (case cState (Clients (DhcpServer s) ! i) of
        DHCP_CLIENT_STATE_IDLE \<Rightarrow>
          if MsgType = DHCP_MSG_DISCOVER
          then offer_client pbuf_ok i Xid
                 (set_clients (upd_client i (\<lambda>c. c\<lparr>cState := DHCP_CLIENT_STATE_SELECT\<rparr>)) s)
          else if MsgType = DHCP_MSG_REQUEST then bind_client pbuf_ok i Xid s
          else offer_client pbuf_ok i Xid s
      | DHCP_CLIENT_STATE_SELECT \<Rightarrow> offer_client pbuf_ok i Xid s
      | DHCP_CLIENT_STATE_REQUEST \<Rightarrow> bind_client pbuf_ok i Xid s
      | DHCP_CLIENT_STATE_BIND \<Rightarrow> bind_client pbuf_ok i Xid s)"

section \<open>The receive callback\<close>

text \<open>What happens with a message once its fields are known.\<close>

definition dhcp_dispatch :: "bool \<Rightarrow> bytes \<Rightarrow> u8 \<Rightarrow> u32 \<Rightarrow> u32 \<Rightarrow> u32 \<Rightarrow> dhcp_state \<Rightarrow> dhcp_state" where
  "dhcp_dispatch pbuf_ok mac MsgType ReqIpAddr ServerId Xid s =
     (let srv = DhcpServer s;
          (ret, cs) = ClientTableLookup (ServerIpAddr srv) mac MsgType ReqIpAddr ServerId (Clients srv);
          s = s\<lparr>DhcpServer := srv\<lparr>Clients := cs\<rparr>\<rparr>
      in case ret of
           None \<Rightarrow>
             if MsgType \<noteq> DHCP_MSG_RELEASE \<and> MsgType \<noteq> DHCP_MSG_DECLINE
             then DHCPNakGenAndSend pbuf_ok mac Xid s else s
         | Some i \<Rightarrow> DhcpClientSMEHandle pbuf_ok i MsgType Xid s)"

text \<open>
  \<open>pbuf_copy_partial\<close> overwrites the head of the static message with the packet; what a
  shorter packet leaves is the previous content.
\<close>

definition DHCPS_RecvCb :: "bool \<Rightarrow> bytes \<Rightarrow> dhcp_state \<Rightarrow> dhcp_state outcome" where
  "DHCPS_RecvCb pbuf_ok P s =
     (let n = min (length P) sizeof_DHCP_MSG;
          m = take n P @ drop n (DhcpMsg s);
          s = s\<lparr>DhcpMsg := m\<rparr> in
      if n = 0 then Inr s
      else ebind (load m 0) (\<lambda>op. ebind (le32_at m 236) (\<lambda>magic. ebind (load m 1) (\<lambda>htype.
           if op \<noteq> DHCP_OP_REQUEST \<or> ntohl magic \<noteq> DHCP_MAGIC \<or> htype \<noteq> DHCP_HWTYPE_ETHERNET
           then Inr s
           else ebind (ParseDhcpOptions m) (\<lambda>r.
                if oRet r AND 0x01 = 0 then Inr s
                else ebind (le32_at m 4) (\<lambda>x. ebind (load_n m 28 6) (\<lambda>mac.
                     Inr (dhcp_dispatch pbuf_ok mac (oMsgType r) (oReqIpAddr r) (oServerId r)
                            (ntohl x) s))))))))"

section \<open>Management\<close>

fun client_delete_loop :: "bytes \<Rightarrow> dhcp_client list \<Rightarrow> int \<times> dhcp_client list" where
  "client_delete_loop mac [] = (DHCPS_ERR_NOT_FOUND, [])"
| "client_delete_loop mac (c # cs) =
     (if cState c \<noteq> DHCP_CLIENT_STATE_IDLE \<and> cMacAddr c = mac
      then if cState c \<noteq> DHCP_CLIENT_STATE_BIND then (DHCPS_ERR_NOT_BIND, c # cs)
           else (DHCPS_ERR_SUCCESS, c\<lparr>cState := DHCP_CLIENT_STATE_IDLE\<rparr> # cs)
      else let (rc, cs) = client_delete_loop mac cs in (rc, c # cs))"

definition DHCPS_ClientDelete :: "bytes option \<Rightarrow> dhcp_state \<Rightarrow> int \<times> dhcp_state" where
  "DHCPS_ClientDelete MacAddr s =
     (if Enable (DhcpServer s) = 0 then (DHCPS_ERR_INACTIVE, s)
      else case MacAddr of
             None \<Rightarrow> (DHCPS_ERR_PARAM, s)
           | Some mac \<Rightarrow>
               let (rc, cs) = client_delete_loop mac (Clients (DhcpServer s))
               in (rc, set_clients (\<lambda>_. cs) s))"

text \<open>\<open>tmp = (x % ~Mask) ? (x % ~Mask) : 1\<close>\<close>

definition host_part :: "u32 \<Rightarrow> u32 \<Rightarrow> u32 outcome" where
  "host_part Mask x =
     (if NOT Mask = 0 then Inl DivByZero
      else Inr (if x mod (NOT Mask) \<noteq> 0 then x mod (NOT Mask) else 1))"

definition fresh_client :: "u32 \<Rightarrow> dhcp_client" where
  "fresh_client ip = \<lparr>cState = DHCP_CLIENT_STATE_IDLE, cTimeout = 0, cIpAddr = ip,
     cMacAddr = mac_zero, cLease = DHCP_DEFAULT_LEASE_TIME\<rparr>"

fun init_clients :: "u32 \<Rightarrow> u32 \<Rightarrow> u32 \<Rightarrow> nat \<Rightarrow> dhcp_client list outcome" where
  "init_clients start Mask i 0 = Inr []"
| "init_clients start Mask i (Suc n) =
     (let Val = ntohl start in
      ebind (host_part Mask ((Val AND (NOT Mask)) + i)) (\<lambda>tmp.
      ebind (init_clients start Mask (i + 1) n) (\<lambda>cs.
      Inr (fresh_client (htonl ((Val AND Mask) OR tmp)) # cs))))"

definition cleared_server :: dhcp_server where
  "cleared_server =
     \<lparr>Enable = 0, Socket = False, ServerIpAddr = 0, StartIpAddr = 0, SubnetMask = 0, GateWay = 0,
      Dns1 = 0, Dns2 = 0, LeaseTime = 0,
      Clients = replicate DHCPS_HISTORY_CLIENT_NUM ((fresh_client 0)\<lparr>cLease := 0\<rparr>)\<rparr>"

definition DHCPS_Start ::
  "bool \<Rightarrow> bool \<Rightarrow> u32 \<Rightarrow> u32 \<Rightarrow> dhcp_state \<Rightarrow> (int \<times> dhcp_state) outcome" where
  "DHCPS_Start netif_up udp_ok ip netmask s =
     (if \<not> netif_up then Inr (DHCPS_ERR_LINKDOWN, s)
      else let Val = ntohl ip; Mask = ntohl netmask in
           ebind (host_part Mask ((Val AND (NOT Mask)) + 1)) (\<lambda>tmp.
           let start = htonl ((Val AND Mask) OR tmp) in
           ebind (init_clients start Mask 0 DHCPS_HISTORY_CLIENT_NUM) (\<lambda>cs.
           let srv = cleared_server\<lparr>ServerIpAddr := ip, StartIpAddr := start, SubnetMask := netmask,
                       GateWay := ip, Dns1 := ip, LeaseTime := DHCP_DEFAULT_LEASE_TIME, Clients := cs\<rparr> in
           if \<not> udp_ok then Inr (DHCPS_ERR_MEM, s\<lparr>DhcpServer := srv\<rparr>)
           else Inr (DHCPS_ERR_SUCCESS,
                  s\<lparr>DhcpServer := srv\<lparr>Socket := True, Enable := 1\<rparr>, tick_armed := True\<rparr>))))"

definition DHCPS_Stop :: "dhcp_state \<Rightarrow> dhcp_state" where
  "DHCPS_Stop s = s\<lparr>DhcpServer := cleared_server, tick_armed := False\<rparr>"

end
