(* ===== verification/DhcpTable.thy ===== *)
theory DhcpTable
  imports DhcpServer
begin

text \<open>
  The client table of the DHCP server: every handler keeps the addresses of the pool and the
  rule that a hardware address has at most one active entry, an address another client holds
  is never handed out, and a discover/request exchange ends in a lease.
\<close>

section \<open>The table invariant\<close>

definition active :: "dhcp_client \<Rightarrow> bool" where
  "active c \<longleftrightarrow> cState c \<noteq> DHCP_CLIENT_STATE_IDLE"

text \<open>No entry other than \<open>i\<close> is active for the hardware address.\<close>

definition sole_entry :: "dhcp_client list \<Rightarrow> bytes \<Rightarrow> nat \<Rightarrow> bool" where
  "sole_entry cs mac i \<longleftrightarrow> (\<forall>j < length cs. j \<noteq> i \<longrightarrow> active (cs ! j) \<longrightarrow> cMacAddr (cs ! j) \<noteq> mac)"

definition table_ok :: "dhcp_client list \<Rightarrow> bool" where
  "table_ok cs \<longleftrightarrow> length cs = 8 \<and>
     (\<forall>i < length cs. active (cs ! i) \<longrightarrow> sole_entry cs (cMacAddr (cs ! i)) i)"

lemma table_okD:
  "table_ok cs \<Longrightarrow> i < 8 \<Longrightarrow> j < 8 \<Longrightarrow> active (cs ! i) \<Longrightarrow> active (cs ! j) \<Longrightarrow>
     cMacAddr (cs ! i) = cMacAddr (cs ! j) \<Longrightarrow> i = j"
  unfolding table_ok_def sole_entry_def by metis

lemma length_upd_client [simp]: "length (upd_client i f cs) = length cs"
  by (simp add: upd_client_def)

lemma nth_upd_client: "j < length cs \<Longrightarrow> upd_client i f cs ! j = (if j = i then f (cs ! j) else cs ! j)"
  by (auto simp: upd_client_def nth_list_update)

lemma upd_client_ips:
  assumes "\<And>c. cIpAddr (f c) = cIpAddr c"
  shows "map cIpAddr (upd_client i f cs) = map cIpAddr cs"
  using assms by (auto simp: list_eq_iff_nth_eq nth_upd_client)

text \<open>Entries that become idle, or an idle entry that takes another address, keep the rule.\<close>

lemma table_ok_weaken:
  assumes ok: "table_ok cs" and len: "length cs' = length cs"
    and w: "\<And>j. j < 8 \<Longrightarrow> active (cs' ! j) \<Longrightarrow> active (cs ! j) \<and> cMacAddr (cs' ! j) = cMacAddr (cs ! j)"
  shows "table_ok cs'"
  unfolding table_ok_def sole_entry_def
proof (intro conjI allI impI notI)
  show "length cs' = 8" using ok len by (simp add: table_ok_def)
  fix i j assume "i < length cs'" "active (cs' ! i)" "j < length cs'" "j \<noteq> i" "active (cs' ! j)"
    "cMacAddr (cs' ! j) = cMacAddr (cs' ! i)"
  with w table_okD [OF ok] show False using ok len by (metis table_ok_def)
qed

lemma table_ok_activate:
  assumes ok: "table_ok cs" and sole: "sole_entry cs mac i" and mac: "cMacAddr (f (cs ! i)) = mac"
  shows "table_ok (upd_client i f cs)"
  unfolding table_ok_def sole_entry_def
proof (intro conjI allI impI notI)
  show "length (upd_client i f cs) = 8" using ok by (simp add: table_ok_def)
  fix k j assume *: "k < length (upd_client i f cs)" "active (upd_client i f cs ! k)"
    "j < length (upd_client i f cs)" "j \<noteq> k" "active (upd_client i f cs ! j)"
    "cMacAddr (upd_client i f cs ! j) = cMacAddr (upd_client i f cs ! k)"
  then have k: "k < 8" "j < 8" using ok by (auto simp: table_ok_def)
  show False
  proof (cases "k = i \<or> j = i")
    case True
    with * k sole mac show False by (auto simp: nth_upd_client sole_entry_def split: if_splits)
  next
    case False
    with * k table_okD [OF ok, of k j] show False by (auto simp: nth_upd_client)
  qed
qed

section \<open>The scan\<close>

lemma scan_my: "pMyClient (scan_clients cs mac ip n) = Some i \<Longrightarrow> i < n \<and> active (cs ! i) \<and> cMacAddr (cs ! i) = mac"
  by (induction n) (auto simp: Let_def active_def less_Suc_eq split: if_splits)

lemma scan_my_None:
  "pMyClient (scan_clients cs mac ip n) = None \<Longrightarrow> i < n \<Longrightarrow> active (cs ! i) \<Longrightarrow> cMacAddr (cs ! i) \<noteq> mac"
  by (induction n) (auto simp: Let_def active_def less_Suc_eq split: if_splits)

lemma scan_req: "pReqClient (scan_clients cs mac ip n) = Some i \<Longrightarrow> i < n \<and> \<not> active (cs ! i) \<and> cIpAddr (cs ! i) = ip"
  by (induction n) (auto simp: Let_def active_def less_Suc_eq split: if_splits)

lemma scan_req_None:
  "pReqClient (scan_clients cs mac ip n) = None \<Longrightarrow> i < n \<Longrightarrow> \<not> active (cs ! i) \<Longrightarrow> cIpAddr (cs ! i) \<noteq> ip"
  by (induction n) (auto simp: Let_def active_def less_Suc_eq split: if_splits)

lemma scan_my_history:
  "pMyHistoryClient (scan_clients cs mac ip n) = Some i \<Longrightarrow> i < n \<and> \<not> active (cs ! i)"
  by (induction n) (auto simp: Let_def active_def less_Suc_eq split: if_splits)

lemma scan_free: "pFreeClient (scan_clients cs mac ip n) = Some i \<Longrightarrow> i < n \<and> \<not> active (cs ! i)"
  by (induction n) (auto simp: Let_def active_def less_Suc_eq split: if_splits)

lemma scan_history: "pHistoryClient (scan_clients cs mac ip n) = Some i \<Longrightarrow> i < n \<and> \<not> active (cs ! i)"
  by (induction n) (auto simp: Let_def active_def less_Suc_eq split: if_splits)

lemmas scan_idle = scan_my_history scan_free scan_history

lemma scan_no_idle:
  "pFreeClient (scan_clients cs mac ip n) = None \<Longrightarrow> pHistoryClient (scan_clients cs mac ip n) = None \<Longrightarrow>
   i < n \<Longrightarrow> active (cs ! i)"
  by (induction n) (auto simp: Let_def active_def less_Suc_eq split: if_splits)

lemma scan_unavailable:
  "IpUnavailable (scan_clients cs mac ip n) \<longleftrightarrow>
     (\<exists>i < n. active (cs ! i) \<and> cMacAddr (cs ! i) \<noteq> mac \<and> cIpAddr (cs ! i) = ip)"
  by (induction n) (auto simp: Let_def active_def less_Suc_eq)

section \<open>The lookup\<close>

definition lookup_ok :: "dhcp_client list \<Rightarrow> bytes \<Rightarrow> nat option \<times> dhcp_client list \<Rightarrow> bool" where
  "lookup_ok cs mac r \<longleftrightarrow> table_ok (snd r) \<and> map cIpAddr (snd r) = map cIpAddr cs \<and>
     (\<forall>i. fst r = Some i \<longrightarrow> i < 8 \<and> sole_entry (snd r) mac i)"

lemma drop_client_simps [simp]:
  "\<not> active (drop_client c)" "cIpAddr (drop_client c) = cIpAddr c"
  by (simp_all add: drop_client_def active_def Let_def)

lemma table_ok_drop:
  assumes "table_ok cs" and "\<And>c. \<not> active (f c)"
  shows "table_ok (upd_client i f cs)"
  using assms by (intro table_ok_weaken [OF assms(1)]) (auto simp: nth_upd_client table_ok_def split: if_splits)

text \<open>Once the entry of a client is idle, or it had none, no entry is active for it.\<close>

lemma sole_after_drop:
  assumes ok: "table_ok cs" and my: "active (cs ! my)" "cMacAddr (cs ! my) = mac" "my < 8"
    and f: "\<And>c. \<not> active (f c)"
  shows "sole_entry (upd_client my f cs) mac i"
proof -
  have l: "length cs = 8" using ok by (simp add: table_ok_def)
  have "\<And>j. j < 8 \<Longrightarrow> j \<noteq> my \<Longrightarrow> active (cs ! j) \<Longrightarrow> cMacAddr (cs ! j) \<noteq> mac"
  proof
    fix j assume "j < 8" "j \<noteq> my" "active (cs ! j)" "cMacAddr (cs ! j) = mac"
    with table_okD [OF ok _ my(3) _ my(1), of j] my(2) show False by simp
  qed
  with f l show ?thesis by (auto simp: sole_entry_def nth_upd_client)
qed

lemma sole_if_none:
  "length cs = 8 \<Longrightarrow> pMyClient (scan_clients cs mac ip 8) = None \<Longrightarrow> sole_entry cs mac i"
  using scan_my_None by (auto simp: sole_entry_def)

lemma sole_own:
  assumes "table_ok cs" and "my < 8" and "active (cs ! my)" and "cMacAddr (cs ! my) = mac"
  shows "sole_entry cs mac my"
  using assms by (auto simp: table_ok_def)

lemma lookup_discover_ok:
  assumes ok: "table_ok cs"
  shows "lookup_ok cs mac (lookup_discover (scan_clients cs mac ip 8) cs)"
proof -
  let ?r = "scan_clients cs mac ip 8" let ?idle = "\<lambda>c. c\<lparr>cState := DHCP_CLIENT_STATE_IDLE\<rparr>"
  have l: "length cs = 8" using ok by (simp add: table_ok_def)
  have nf: "\<And>c. \<not> active (?idle c)" by (simp add: active_def)
  show ?thesis
  proof (cases "pMyClient ?r")
    case None
    note sole = sole_if_none [OF l None]
    have "fst (lookup_discover ?r cs) = Some i \<Longrightarrow> i < 8" for i
      using None scan_req [of cs mac ip 8 i] scan_my_history [of cs mac ip 8 i]
        scan_free [of cs mac ip 8 i] scan_history [of cs mac ip 8 i]
      by (auto simp: lookup_discover_def split: option.splits)
    moreover have "snd (lookup_discover ?r cs) = cs" using None by (simp add: lookup_discover_def split: option.splits)
    ultimately show ?thesis using ok sole by (simp add: lookup_ok_def)
  next
    case (Some my)
    from scan_my [OF this] have my: "my < 8" "active (cs ! my)" "cMacAddr (cs ! my) = mac" by auto
    let ?cs = "upd_client my ?idle cs"
    have ok1: "table_ok ?cs" by (rule table_ok_drop [OF ok nf])
    have sole1: "sole_entry ?cs mac i" for i by (rule sole_after_drop [OF ok my(2,3,1) nf])
    show ?thesis
    proof (cases "pReqClient ?r")
      case None
      with Some my ok1 sole1 show ?thesis by (simp add: lookup_ok_def lookup_discover_def Let_def upd_client_ips)
    next
      case q: (Some q)
      let ?cs2 = "upd_client my (\<lambda>c. c\<lparr>cMacAddr := mac_zero\<rparr>) ?cs"
      have "\<not> active (?cs ! my)" using my l by (simp add: nth_upd_client active_def)
      then have eq: "\<And>j. j < 8 \<Longrightarrow> active (?cs2 ! j) \<Longrightarrow> active (?cs ! j) \<and> cMacAddr (?cs2 ! j) = cMacAddr (?cs ! j)"
        using l by (auto simp: nth_upd_client active_def split: if_splits)
      then have "table_ok ?cs2" by (intro table_ok_weaken [OF ok1]) auto
      moreover have "sole_entry ?cs2 mac i" for i using sole1 eq l by (auto simp: sole_entry_def)
      moreover have "lookup_discover ?r cs = (Some q, ?cs2)"
        using Some q my l by (simp add: lookup_discover_def Let_def nth_upd_client)
      ultimately show ?thesis using scan_req [OF q] by (simp add: lookup_ok_def upd_client_ips)
    qed
  qed
qed

lemma lookup_request_ok:
  assumes ok: "table_ok cs"
  shows "lookup_ok cs mac (lookup_request sip sid (scan_clients cs mac ip 8) cs)"
proof -
  let ?r = "scan_clients cs mac ip 8"
  have l: "length cs = 8" using ok by (simp add: table_ok_def)
  show ?thesis
  proof (cases "pMyClient ?r")
    case None
    note sole = sole_if_none [OF l None]
    show ?thesis
      using None ok sole scan_req [of cs mac ip 8] by (auto simp: lookup_ok_def lookup_request_def Let_def)
  next
    case (Some my)
    from scan_my [OF this] have my: "my < 8" "active (cs ! my)" "cMacAddr (cs ! my) = mac" by auto
    have "table_ok (upd_client my drop_client cs)" by (rule table_ok_drop [OF ok]) simp
    moreover have "sole_entry (upd_client my drop_client cs) mac i" for i
      by (rule sole_after_drop [OF ok my(2,3,1)]) simp
    ultimately show ?thesis
      using Some my ok sole_own [OF ok my(1,2,3)] scan_req [of cs mac ip 8]
      by (auto simp: lookup_ok_def lookup_request_def Let_def upd_client_ips split: option.splits)
  qed
qed

lemma lookup_release_ok:
  assumes ok: "table_ok cs"
  shows "lookup_ok cs mac (lookup_release (scan_clients cs mac ip 8) cs)"
  using ok table_ok_drop [OF ok, of drop_client]
  by (auto simp: lookup_ok_def lookup_release_def upd_client_ips split: option.splits)

lemma ClientTableLookup_ok:
  assumes ok: "table_ok cs" and r: "ClientTableLookup sip mac t ip sid cs = (ret, cs')"
  shows "table_ok cs'" and "map cIpAddr cs' = map cIpAddr cs"
    and "ret = Some i \<Longrightarrow> i < 8 \<and> sole_entry cs' mac i \<and> cMacAddr (cs' ! i) = mac"
proof -
  let ?r = "scan_clients cs mac ip DHCPS_HISTORY_CLIENT_NUM"
  obtain ret1 cs1 where b: "(if t = DHCP_MSG_DISCOVER then lookup_discover ?r cs
     else if t = DHCP_MSG_REQUEST then lookup_request sip sid ?r cs
     else if t = DHCP_MSG_RELEASE then lookup_release ?r cs
     else if t = DHCP_MSG_DECLINE then lookup_release ?r cs else (None, cs)) = (ret1, cs1)" (is "?b = _")
    by (cases ?b)
  have "lookup_ok cs mac ?b"
    using lookup_discover_ok [OF ok] lookup_request_ok [OF ok] lookup_release_ok [OF ok] ok
    by (auto simp: DHCPS_HISTORY_CLIENT_NUM_def) (simp add: lookup_ok_def)
  then have l: "table_ok cs1" "map cIpAddr cs1 = map cIpAddr cs"
    "\<And>i. ret1 = Some i \<Longrightarrow> i < 8 \<and> sole_entry cs1 mac i"
    unfolding b by (auto simp: lookup_ok_def)
  have eq: "(ret, cs') = (case ret1 of Some i \<Rightarrow> (Some i, upd_client i (\<lambda>c. c\<lparr>cMacAddr := mac\<rparr>) cs1) | None \<Rightarrow> (None, cs1))"
    using r b by (simp add: ClientTableLookup_def Let_def)
  have c: "length cs1 = 8" using l(1) by (simp add: table_ok_def)
  have *: "table_ok cs' \<and> map cIpAddr cs' = map cIpAddr cs \<and>
      (ret = Some i \<longrightarrow> i < 8 \<and> sole_entry cs' mac i \<and> cMacAddr (cs' ! i) = mac)"
  proof (cases ret1)
    case None
    with eq l show ?thesis by simp
  next
    case (Some k)
    with l(3) have k: "k < 8" "sole_entry cs1 mac k" by auto
    have "table_ok (upd_client k (\<lambda>c. c\<lparr>cMacAddr := mac\<rparr>) cs1)"
      by (rule table_ok_activate [OF l(1) k(2)]) simp
    with eq Some k c l(2) show ?thesis
      by (auto simp: upd_client_ips nth_upd_client sole_entry_def)
  qed
  then show "table_ok cs'" "map cIpAddr cs' = map cIpAddr cs"
    "ret = Some i \<Longrightarrow> i < 8 \<and> sole_entry cs' mac i \<and> cMacAddr (cs' ! i) = mac" by auto
qed

section \<open>The state machine\<close>

lemma send_reply_server [simp]: "DhcpServer (send_reply pb h opts s) = DhcpServer s"
  by (simp add: send_reply_def Let_def)

lemma reply_server [simp]:
  "DhcpServer (DHCPNakGenAndSend pb mac xid s) = DhcpServer s"
  "DhcpServer (DHCPAckGenAndSend pb c mac xid s) = DhcpServer s"
  "DhcpServer (DHCPOfferGenAndSend pb c mac xid s) = DhcpServer s"
  by (simp_all add: DHCPNakGenAndSend_def DHCPAckGenAndSend_def DHCPOfferGenAndSend_def)

abbreviation clients :: "dhcp_state \<Rightarrow> dhcp_client list" where
  "clients s \<equiv> Clients (DhcpServer s)"

lemma bind_clients:
  "clients (bind_client pb i xid s) = CleanClientHistory (cMacAddr (clients s ! i))
     (upd_client i (\<lambda>c. c\<lparr>cLease := DHCP_DEFAULT_LEASE_TIME, cState := DHCP_CLIENT_STATE_BIND\<rparr>) (clients s))"
  by (simp add: bind_client_def Let_def set_clients_def)

lemma offer_clients:
  "clients (offer_client pb i xid s) = upd_client i (\<lambda>c. c\<lparr>cTimeout := DHCP_DEFFAULT_TIMEOUT,
     cState := DHCP_CLIENT_STATE_REQUEST\<rparr>) (clients s)"
  by (simp add: offer_client_def Let_def set_clients_def)

lemma clean_ips: "map cIpAddr (CleanClientHistory mac cs) = map cIpAddr cs"
  by (simp add: CleanClientHistory_def)

lemma clean_table_ok: "table_ok cs \<Longrightarrow> table_ok (CleanClientHistory mac cs)"
proof -
  assume ok: "table_ok cs"
  then have "length cs = 8" by (simp add: table_ok_def)
  then show ?thesis
    by (intro table_ok_weaken [OF ok]) (auto simp: CleanClientHistory_def active_def split: if_splits)
qed

definition clients_ok :: "dhcp_client list \<Rightarrow> dhcp_state \<Rightarrow> bool" where
  "clients_ok cs s \<longleftrightarrow> table_ok (clients s) \<and> map cIpAddr (clients s) = map cIpAddr cs"

lemma bind_ok:
  assumes "table_ok (clients s)" and "sole_entry (clients s) (cMacAddr (clients s ! i)) i"
  shows "clients_ok (clients s) (bind_client pb i xid s)"
  unfolding clients_ok_def bind_clients
  using assms by (auto intro!: clean_table_ok table_ok_activate simp: clean_ips upd_client_ips)

lemma offer_ok:
  assumes "table_ok (clients s)" and "sole_entry (clients s) (cMacAddr (clients s ! i)) i"
  shows "clients_ok (clients s) (offer_client pb i xid s)"
  unfolding clients_ok_def offer_clients
  using assms by (auto intro!: table_ok_activate simp: upd_client_ips)

lemma SME_ok:
  assumes ok: "table_ok (clients s)" and sole: "sole_entry (clients s) (cMacAddr (clients s ! i)) i" and i: "i < 8"
  shows "clients_ok (clients s) (DhcpClientSMEHandle pb i t xid s)"
proof -
  let ?s = "set_clients (upd_client i (\<lambda>c. c\<lparr>cState := DHCP_CLIENT_STATE_SELECT\<rparr>)) s"
  have l: "length (clients s) = 8" using ok by (simp add: table_ok_def)
  have "table_ok (clients ?s)" "map cIpAddr (clients ?s) = map cIpAddr (clients s)"
    "sole_entry (clients ?s) (cMacAddr (clients ?s ! i)) i"
    using ok sole i l
    by (auto simp: set_clients_def upd_client_ips sole_entry_def nth_upd_client intro!: table_ok_activate)
  with offer_ok [of ?s i pb xid] have "clients_ok (clients s) (offer_client pb i xid ?s)"
    by (simp add: clients_ok_def)
  then show ?thesis
    using bind_ok [OF ok sole] offer_ok [OF ok sole]
    by (simp add: DhcpClientSMEHandle_def split: dhcp_client_state.splits)
qed

lemma dispatch_ok:
  assumes ok: "table_ok (clients s)"
  shows "clients_ok (clients s) (dhcp_dispatch pb mac t ip sid xid s)"
proof -
  obtain ret cs where r: "ClientTableLookup (ServerIpAddr (DhcpServer s)) mac t ip sid (clients s) = (ret, cs)"
    by (cases "ClientTableLookup (ServerIpAddr (DhcpServer s)) mac t ip sid (clients s)")
  note l = ClientTableLookup_ok [OF ok r]
  let ?s = "s\<lparr>DhcpServer := (DhcpServer s)\<lparr>Clients := cs\<rparr>\<rparr>"
  show ?thesis
  proof (cases ret)
    case None
    with r l show ?thesis by (simp add: dhcp_dispatch_def Let_def clients_ok_def)
  next
    case (Some i)
    with l have "clients_ok (clients ?s) (DhcpClientSMEHandle pb i t xid ?s)" by (intro SME_ok) auto
    with r l Some show ?thesis by (simp add: dhcp_dispatch_def Let_def clients_ok_def)
  qed
qed

lemma tick_client_simps: "cIpAddr (tick_client st c) = cIpAddr c"
  "active (tick_client st c) \<Longrightarrow> active c \<and> cMacAddr (tick_client st c) = cMacAddr c"
  by (auto simp: tick_client_def active_def Let_def split: dhcp_client_state.splits if_splits)

lemma tick_ok:
  assumes ok: "table_ok (clients s)"
  shows "clients_ok (clients s) (DhcpTickHandle st s)"
proof -
  have "length (clients s) = 8" using ok by (simp add: table_ok_def)
  then have "table_ok (map (tick_client st) (clients s))"
    by (intro table_ok_weaken [OF ok]) (auto dest: tick_client_simps(2))
  with ok show ?thesis by (auto simp: DhcpTickHandle_def Let_def clients_ok_def tick_client_simps)
qed

lemma delete_loop:
  "length (snd (client_delete_loop mac cs)) = length cs"
  "map cIpAddr (snd (client_delete_loop mac cs)) = map cIpAddr cs"
  "j < length cs \<Longrightarrow> active (snd (client_delete_loop mac cs) ! j) \<Longrightarrow>
     active (cs ! j) \<and> cMacAddr (snd (client_delete_loop mac cs) ! j) = cMacAddr (cs ! j)"
proof (induction cs arbitrary: j)
  case (Cons c cs)
  { case 1 then show ?case using Cons by (auto simp: Let_def split: prod.splits) }
  { case 2 then show ?case using Cons by (auto simp: Let_def split: prod.splits) }
  { case 3 then show ?case using Cons by (cases j) (auto simp: Let_def active_def split: prod.splits if_splits) }
qed simp_all

lemma delete_ok:
  assumes ok: "table_ok (clients s)"
  shows "clients_ok (clients s) (snd (DHCPS_ClientDelete m s))"
proof -
  have "table_ok (snd (client_delete_loop mac (clients s)))" for mac
    using ok delete_loop(1,3) [where mac = mac and cs = "clients s"] by (intro table_ok_weaken [OF ok]) (auto simp: table_ok_def)
  with ok show ?thesis
    by (auto simp: DHCPS_ClientDelete_def clients_ok_def set_clients_def delete_loop Let_def
        split: option.splits prod.splits) (metis snd_conv delete_loop(2))+
qed

lemma recv_ok:
  assumes ok: "table_ok (clients s)" and r: "DHCPS_RecvCb pb P s = Inr s'"
  shows "clients_ok (clients s) s'"
proof -
  have *: "clients (s\<lparr>DhcpMsg := m\<rparr>) = clients s" for m by simp
  have "clients_ok (clients s) (dhcp_dispatch pb mac t ip sid xid (s\<lparr>DhcpMsg := m\<rparr>))" for mac t ip sid xid m
    using dispatch_ok [of "s\<lparr>DhcpMsg := m\<rparr>"] ok by simp
  with r ok show ?thesis
    by (auto simp: DHCPS_RecvCb_def Let_def ebind_Inr_iff clients_ok_def split: if_splits)
qed

section \<open>The address pool\<close>

lemma htonl_htonl [simp]: "htonl (htonl v) = v"
proof (rule bit_word_eqI)
  fix n :: nat
  have m: "(0xff :: u32) = mask 8" "(0xff00 :: u32) = push_bit 8 (mask 8)" by (simp_all add: mask_eq_exp_minus_1)
  consider "n < 8" | "8 \<le> n" "n < 16" | "16 \<le> n" "n < 24" | "24 \<le> n" by linarith
  then show "bit (htonl (htonl v)) n = bit v n"
    unfolding htonl_def m
    by cases (auto simp: bit_simps dest: bit_imp_le_length)
qed

lemma htonl_inj: "htonl a = htonl b \<longleftrightarrow> a = b"
  by (metis htonl_htonl)

text \<open>A contiguous netmask with \<open>k\<close> host bits.\<close>

definition host_bits :: "u32 \<Rightarrow> nat \<Rightarrow> bool" where
  "host_bits Mask k \<longleftrightarrow> k < 32 \<and> NOT Mask = mask k"

lemma host_bit:
  assumes "host_bits Mask k"
  shows "bit Mask n \<longleftrightarrow> k \<le> n \<and> n < 32"
proof -
  have "bit (NOT Mask) n = bit (mask k :: u32) n" using assms by (simp add: host_bits_def)
  then show ?thesis by (auto simp: bit_simps dest: bit_imp_le_length)
qed

lemma small_bit:
  fixes t :: u32
  assumes "unat t < 2 ^ k" and "bit t n"
  shows "n < k"
proof -
  have "bit (unat t) n" using assms(2) by (simp add: bit_unsigned_iff)
  then have "2 ^ n \<le> unat t" by (metis bit_iff_odd div_less even_zero not_less)
  with assms(1) show ?thesis
    by (meson le_less_trans nat_power_less_imp_less one_less_numeral_iff semiring_norm(76) zero_less_numeral)
qed

lemma host_join:
  assumes hb: "host_bits Mask k" and t: "unat t < 2 ^ k"
  shows "((v AND Mask) OR t) AND Mask = v AND Mask" and "((v AND Mask) OR t) AND NOT Mask = t"
proof -
  have "\<not> bit t n" if "k \<le> n" for n using small_bit [OF t, of n] that by auto
  then show "((v AND Mask) OR t) AND Mask = v AND Mask" and "((v AND Mask) OR t) AND NOT Mask = t"
    using bit_imp_le_length [of t]
    by (auto intro!: bit_word_eqI simp: bit_simps host_bit [OF hb])
qed

lemma host_part_ok:
  assumes hb: "host_bits Mask k" and x: "0 < unat x" "unat x + 1 < 2 ^ k"
  shows "host_part Mask x = Inr x"
proof -
  have k: "k < 32" and nm: "NOT Mask = mask k" using hb by (auto simp: host_bits_def)
  have "(2::nat) ^ k < 2 ^ 32" using k by (intro power_strict_increasing) auto
  then have "unat (word_of_nat (2 ^ k - 1) :: u32) = 2 ^ k - 1" by (intro unat_of_nat_no_wrap) simp
  moreover have "(mask k :: u32) = word_of_nat (2 ^ k - 1)"
    by (simp add: of_nat_mask_eq flip: mask_eq_exp_minus_1)
  ultimately have um: "unat (mask k :: u32) = 2 ^ k - 1" by (simp only:)
  have "x mod mask k = x"
    using x um by (simp add: word_unat_eq_iff unat_mod)
  moreover have "(mask k :: u32) \<noteq> 0" using um x by (auto simp: word_unat_eq_iff)
  ultimately show ?thesis using x nm by (auto simp: host_part_def)
qed

lemma init_clients_ok:
  assumes hb: "host_bits Mask k" and st: "ntohl start = (v AND Mask) OR t" and t: "0 < unat t"
  shows "unat t + unat i + n < 2 ^ k \<Longrightarrow>
    init_clients start Mask i n =
      Inr (map (\<lambda>j. fresh_client (htonl ((v AND Mask) OR (t + i + word_of_nat j)))) [0..<n])"
proof (induction n arbitrary: i)
  case (Suc n)
  have k32: "(2::nat) ^ k < 2 ^ 32" using hb by (intro power_strict_increasing) (auto simp: host_bits_def)
  have tk: "unat t < 2 ^ k" using Suc.prems by simp
  have ti: "unat (t + i) = unat t + unat i" using Suc.prems k32 by (intro unat_add_no_wrap) simp
  have i1: "unat (i + 1) = Suc (unat i)" using Suc.prems k32 by (intro unat_Suc_no_wrap) simp
  have "host_part Mask ((ntohl start AND NOT Mask) + i) = Inr (t + i)"
    unfolding st host_join(2) [OF hb tk] using ti Suc.prems t by (intro host_part_ok [OF hb]) simp_all
  moreover have "init_clients start Mask (i + 1) n =
      Inr (map (\<lambda>j. fresh_client (htonl ((v AND Mask) OR (t + (i + 1) + word_of_nat j)))) [0..<n])"
    using Suc.prems i1 by (intro Suc.IH) simp
  moreover have "ntohl start AND Mask = v AND Mask" unfolding st by (rule host_join(1) [OF hb tk])
  ultimately show ?case
    by (simp add: Let_def upt_conv_Cons comp_def add.assoc del: upt_Suc flip: map_Suc_upt)
qed simp

text \<open>The pool that \<open>DHCPS_Start\<close> sets up for an interface address and netmask.\<close>

definition start_pool :: "u32 \<Rightarrow> u32 \<Rightarrow> dhcp_client list outcome" where
  "start_pool ip netmask =
     (let Val = ntohl ip; Mask = ntohl netmask in
      ebind (host_part Mask ((Val AND (NOT Mask)) + 1)) (\<lambda>tmp.
      init_clients (htonl ((Val AND Mask) OR tmp)) Mask 0 DHCPS_HISTORY_CLIENT_NUM))"

lemma DHCPS_Start_pool:
  assumes "DHCPS_Start up udp ip netmask s = Inr (DHCPS_ERR_SUCCESS, s')"
  shows "start_pool ip netmask = Inr (clients s') \<and> ServerIpAddr (DhcpServer s') = ip \<and> DhcpMsg s' = DhcpMsg s"
  using assms by (auto simp: DHCPS_Start_def start_pool_def Let_def ebind_Inr_iff DHCPS_ERR_SUCCESS_def
      DHCPS_ERR_LINKDOWN_def DHCPS_ERR_MEM_def split: if_splits)

lemma start_pool_ok:
  assumes hb: "host_bits (ntohl netmask) k" and room: "unat (ntohl ip AND NOT (ntohl netmask)) + 9 < 2 ^ k"
  shows "start_pool ip netmask = Inr (map (\<lambda>j. fresh_client (htonl ((ntohl ip AND ntohl netmask) OR
    ((ntohl ip AND NOT (ntohl netmask)) + 1 + word_of_nat j)))) [0..<8])"
proof -
  let ?h = "ntohl ip AND NOT (ntohl netmask)"
  have "(2::nat) ^ k < 2 ^ 32" using hb by (intro power_strict_increasing) (auto simp: host_bits_def)
  then have h1: "unat (?h + 1) = Suc (unat ?h)" using room by (intro unat_Suc_no_wrap) simp
  have "host_part (ntohl netmask) (?h + 1) = Inr (?h + 1)"
    using room h1 by (intro host_part_ok [OF hb]) simp_all
  moreover have "init_clients (htonl ((ntohl ip AND ntohl netmask) OR (?h + 1))) (ntohl netmask) 0 8 =
      Inr (map (\<lambda>j. fresh_client (htonl ((ntohl ip AND ntohl netmask) OR (?h + 1 + 0 + word_of_nat j)))) [0..<8])"
    using room h1 by (intro init_clients_ok [OF hb]) simp_all
  ultimately show ?thesis by (simp add: start_pool_def Let_def DHCPS_HISTORY_CLIENT_NUM_def)
qed

section \<open>Runs of the server\<close>

text \<open>
  A run of the server on an interface: start, then any sequence of received packets, ticks and
  deletions.
\<close>

inductive dhcp_run :: "u32 \<Rightarrow> u32 \<Rightarrow> dhcp_state \<Rightarrow> bool" for ip netmask where
  start: "length (DhcpMsg s0) = 548 \<Longrightarrow>
    DHCPS_Start up udp ip netmask s0 = Inr (DHCPS_ERR_SUCCESS, s) \<Longrightarrow> dhcp_run ip netmask s"
| recv: "dhcp_run ip netmask s \<Longrightarrow> DHCPS_RecvCb pb P s = Inr s' \<Longrightarrow> dhcp_run ip netmask s'"
| tick: "dhcp_run ip netmask s \<Longrightarrow> dhcp_run ip netmask (DhcpTickHandle station s)"
| delete: "dhcp_run ip netmask s \<Longrightarrow> dhcp_run ip netmask (snd (DHCPS_ClientDelete m s))"

lemma init_clients_idle:
  "init_clients start Mask i n = Inr cs \<Longrightarrow> length cs = n \<and> (\<forall>c \<in> set cs. \<not> active c)"
  by (induction n arbitrary: i cs) (auto simp: Let_def ebind_Inr_iff fresh_client_def active_def)

lemma start_pool_table:
  assumes "start_pool ip netmask = Inr cs"
  shows "table_ok cs"
  using assms init_clients_idle [of _ _ 0 8 cs]
  by (auto simp: start_pool_def Let_def ebind_Inr_iff DHCPS_HISTORY_CLIENT_NUM_def table_ok_def)

lemma dhcp_run_table:
  "dhcp_run ip netmask s \<Longrightarrow>
     \<exists>cs. start_pool ip netmask = Inr cs \<and> table_ok (clients s) \<and> map cIpAddr (clients s) = map cIpAddr cs"
proof (induction rule: dhcp_run.induct)
  case (start s0 up udp s)
  then show ?case using DHCPS_Start_pool start_pool_table by blast
next
  case (recv s pb P s')
  then show ?case using recv_ok by (fastforce simp: clients_ok_def)
next
  case (tick s station)
  then show ?case using tick_ok [of s station] by (auto simp: clients_ok_def)
next
  case (delete s m)
  then show ?case using delete_ok [of s m] by (auto simp: clients_ok_def)
qed

lemma start_pool_ips:
  assumes hb: "host_bits (ntohl netmask) k" and room: "unat (ntohl ip AND NOT (ntohl netmask)) + 9 < 2 ^ k"
    and p: "start_pool ip netmask = Inr cs"
  shows "distinct (map cIpAddr cs)" and "ip \<notin> set (map cIpAddr cs)"
    and "a \<in> set (map cIpAddr cs) \<Longrightarrow> ntohl a AND ntohl netmask = ntohl ip AND ntohl netmask"
proof -
  let ?M = "ntohl netmask" let ?h = "ntohl ip AND NOT ?M"
  let ?a = "\<lambda>j. (ntohl ip AND ?M) OR (?h + 1 + word_of_nat j)"
  have k32: "(2::nat) ^ k < 2 ^ 32" using hb by (intro power_strict_increasing) (auto simp: host_bits_def)
  have un: "unat (?h + 1 + word_of_nat j) = unat ?h + 1 + j" if "j < 8" for j
    using that room k32 by (simp add: unat_word_ariths unat_of_nat)
  have host: "?a j AND NOT ?M = ?h + 1 + word_of_nat j" and net: "?a j AND ?M = ntohl ip AND ?M" if "j < 8" for j
    using un [OF that] room that by (auto intro!: host_join [OF hb])
  have inj: "i = j" if "i < 8" "j < 8" "?a i = ?a j" for i j
  proof -
    have "?h + 1 + word_of_nat i = ?h + 1 + word_of_nat j"
      using host [OF that(1)] host [OF that(2)] unfolding that(3) by (rule trans [OF sym])
    then have "unat ?h + 1 + i = unat ?h + 1 + j" using un [OF that(1)] un [OF that(2)] by (simp only:)
    then show ?thesis by simp
  qed
  have ips: "map cIpAddr cs = map (\<lambda>j. htonl (?a j)) [0..<8]"
  proof -
    have "cs = map (\<lambda>j. fresh_client (htonl (?a j))) [0..<8]"
      using start_pool_ok [OF hb room] p by (simp only: sum.inject)
    then show ?thesis by (simp only: map_map comp_def fresh_client_def dhcp_client.select_convs)
  qed
  show "distinct (map cIpAddr cs)"
    unfolding ips using inj by (simp only: distinct_map htonl_inj inj_on_def set_upt distinct_upt) auto
  show "a \<in> set (map cIpAddr cs) \<Longrightarrow> ntohl a AND ?M = ntohl ip AND ?M"
    unfolding ips using net by auto
  have "ip \<noteq> htonl (?a j)" if "j < 8" for j
  proof
    assume "ip = htonl (?a j)"
    then have "ntohl ip = ?a j" by (metis htonl_htonl)
    then have "?h = ?h + 1 + word_of_nat j" using host [OF that] by metis
    then have "unat ?h = unat ?h + 1 + j" using un [OF that] by metis
    then show False by simp
  qed
  then show "ip \<notin> set (map cIpAddr cs)" unfolding ips by auto
qed

section \<open>The exchange with a client\<close>

lemma discover_picks:
  assumes ok: "table_ok cs" and none: "\<And>j. j < 8 \<Longrightarrow> active (cs ! j) \<Longrightarrow> cMacAddr (cs ! j) \<noteq> mac"
    and idle: "k < 8" "\<not> active (cs ! k)"
  shows "\<exists>i < 8. \<not> active (cs ! i) \<and>
    ClientTableLookup sip mac DHCP_MSG_DISCOVER ip sid cs = (Some i, upd_client i (\<lambda>c. c\<lparr>cMacAddr := mac\<rparr>) cs)"
proof -
  let ?r = "scan_clients cs mac ip 8"
  have my: "pMyClient ?r = None" using scan_my [of cs mac ip 8] none by (cases "pMyClient ?r") auto
  have "pFreeClient ?r \<noteq> None \<or> pHistoryClient ?r \<noteq> None" using scan_no_idle [of cs mac ip 8 k] idle by blast
  then obtain i where i: "lookup_discover ?r cs = (Some i, cs)"
    using my by (cases "pReqClient ?r"; cases "pMyHistoryClient ?r"; cases "pFreeClient ?r")
      (auto simp: lookup_discover_def)
  then have "i < 8 \<and> \<not> active (cs ! i)"
    using my scan_req [of cs mac ip 8 i] scan_my_history [of cs mac ip 8 i] scan_free [of cs mac ip 8 i]
      scan_history [of cs mac ip 8 i]
    by (simp add: lookup_discover_def split: option.splits)
  with i show ?thesis by (auto simp: ClientTableLookup_def DHCPS_HISTORY_CLIENT_NUM_def Let_def)
qed

text \<open>The datagram of an offer or acknowledgement.\<close>

definition lease_reply :: "u8 \<Rightarrow> dhcp_server \<Rightarrow> u32 \<Rightarrow> u32 \<Rightarrow> bytes \<Rightarrow> bytes" where
  "lease_reply t srv xid ip mac = reply_header xid ip 0 mac @ lease_options t srv"

lemma lease_options_clients [simp]:
  "lease_options t (srv\<lparr>Clients := cs\<rparr>) = lease_options t srv"
  by (simp add: lease_options_def)

lemma dispatch_discover:
  assumes ok: "table_ok (clients s)" and none: "\<And>j. j < 8 \<Longrightarrow> active (clients s ! j) \<Longrightarrow> cMacAddr (clients s ! j) \<noteq> mac"
    and idle: "k < 8" "\<not> active (clients s ! k)"
  shows "\<exists>i < 8. \<exists>s'. dhcp_dispatch True mac DHCP_MSG_DISCOVER ip sid xid s = s' \<and>
    cState (clients s' ! i) = DHCP_CLIENT_STATE_REQUEST \<and> cMacAddr (clients s' ! i) = mac \<and>
    cTimeout (clients s' ! i) = DHCP_DEFFAULT_TIMEOUT \<and>
    ServerIpAddr (DhcpServer s') = ServerIpAddr (DhcpServer s) \<and>
    udp_sent s' = udp_sent s @ [lease_reply DHCP_MSG_OFFER (DhcpServer s) xid (cIpAddr (clients s' ! i)) mac]"
proof -
  from discover_picks [OF ok none idle] obtain i where i: "i < 8" "\<not> active (clients s ! i)"
    and l: "ClientTableLookup (ServerIpAddr (DhcpServer s)) mac DHCP_MSG_DISCOVER ip sid (clients s) =
      (Some i, upd_client i (\<lambda>c. c\<lparr>cMacAddr := mac\<rparr>) (clients s))" by blast
  have len: "length (clients s) = 8" using ok by (simp add: table_ok_def)
  show ?thesis
    using i l len
    by (intro exI [of _ i])
      (simp add: dhcp_dispatch_def Let_def DhcpClientSMEHandle_def nth_upd_client active_def set_clients_def
        offer_client_def DHCPOfferGenAndSend_def send_reply_def lease_reply_def)
qed

lemma request_own:
  assumes ok: "table_ok cs" and ips: "distinct (map cIpAddr cs)" and i: "i < 8" "active (cs ! i)"
    and sid: "sid = 0 \<or> sid = sip"
  shows "ClientTableLookup sip (cMacAddr (cs ! i)) DHCP_MSG_REQUEST (cIpAddr (cs ! i)) sid cs = (Some i, cs)"
proof -
  let ?mac = "cMacAddr (cs ! i)" let ?ip = "cIpAddr (cs ! i)" let ?r = "scan_clients cs ?mac ?ip 8"
  have len: "length cs = 8" using ok by (simp add: table_ok_def)
  have ip: "j = i" if "j < 8" "cIpAddr (cs ! j) = ?ip" for j
    using ips that i len by (metis distinct_conv_nth length_map nth_map)
  have my: "pMyClient ?r = Some i"
  proof (cases "pMyClient ?r")
    case None
    then show ?thesis using scan_my_None [of cs ?mac ?ip 8 i] i by simp
  next
    case (Some j)
    with scan_my [OF Some] table_okD [OF ok, of j i] i show ?thesis by simp
  qed
  have "pReqClient ?r = None" using scan_req [of cs ?mac ?ip 8] ip i by (cases "pReqClient ?r") auto
  moreover have "\<not> IpUnavailable ?r" using ip by (auto simp: scan_unavailable)
  moreover have "upd_client i (\<lambda>c. c\<lparr>cMacAddr := ?mac\<rparr>) cs = cs" by (simp add: upd_client_def)
  ultimately show ?thesis
    using my sid by (auto simp: ClientTableLookup_def DHCPS_HISTORY_CLIENT_NUM_def Let_def lookup_request_def
        DHCP_MSG_DISCOVER_def DHCP_MSG_REQUEST_def)
qed

lemma dispatch_request:
  assumes ok: "table_ok (clients s)" and ips: "distinct (map cIpAddr (clients s))"
    and i: "i < 8" "active (clients s ! i)" "cState (clients s ! i) \<noteq> DHCP_CLIENT_STATE_SELECT"
    and sid: "sid = 0 \<or> sid = ServerIpAddr (DhcpServer s)"
  defines "mac \<equiv> cMacAddr (clients s ! i)" and "ip \<equiv> cIpAddr (clients s ! i)"
  shows "\<exists>s'. dhcp_dispatch True mac DHCP_MSG_REQUEST ip sid xid s = s' \<and>
    cState (clients s' ! i) = DHCP_CLIENT_STATE_BIND \<and> cMacAddr (clients s' ! i) = mac \<and>
    cIpAddr (clients s' ! i) = ip \<and> cLease (clients s' ! i) = DHCP_DEFAULT_LEASE_TIME \<and>
    udp_sent s' = udp_sent s @ [lease_reply DHCP_MSG_ACK (DhcpServer s) xid ip mac]"
proof -
  have len: "length (clients s) = 8" using ok by (simp add: table_ok_def)
  have "dhcp_dispatch True mac DHCP_MSG_REQUEST ip sid xid s = bind_client True i xid s"
    using request_own [OF ok ips i(1,2) sid] i
    by (cases "cState (clients s ! i)")
      (simp_all add: dhcp_dispatch_def Let_def DhcpClientSMEHandle_def active_def mac_def ip_def)
  moreover have "clients (bind_client True i xid s) ! i =
      (clients s ! i)\<lparr>cLease := DHCP_DEFAULT_LEASE_TIME, cState := DHCP_CLIENT_STATE_BIND\<rparr>"
    using i(1) len by (simp add: bind_clients CleanClientHistory_def nth_upd_client)
  moreover have "udp_sent (bind_client True i xid s) =
      udp_sent s @ [lease_reply DHCP_MSG_ACK (DhcpServer s) xid ip mac]"
    by (simp add: bind_client_def Let_def set_clients_def DHCPAckGenAndSend_def send_reply_def lease_reply_def
        mac_def ip_def)
  ultimately show ?thesis by (simp add: mac_def ip_def)
qed

lemma request_taken:
  assumes ok: "table_ok cs" and i: "i < 8" "active (cs ! i)" "cMacAddr (cs ! i) \<noteq> mac"
  shows "\<exists>cs'. ClientTableLookup sip mac DHCP_MSG_REQUEST (cIpAddr (cs ! i)) sid cs = (None, cs') \<and> cs' ! i = cs ! i"
proof -
  let ?r = "scan_clients cs mac (cIpAddr (cs ! i)) 8"
  have len: "length cs = 8" using ok by (simp add: table_ok_def)
  have "IpUnavailable ?r" using i by (auto simp: scan_unavailable)
  moreover have "pMyClient ?r = Some my \<Longrightarrow> my \<noteq> i" for my using scan_my [of cs mac "cIpAddr (cs ! i)" 8 my] i by auto
  ultimately show ?thesis
    using i(1) len by (cases "pMyClient ?r")
      (auto simp: ClientTableLookup_def DHCPS_HISTORY_CLIENT_NUM_def Let_def lookup_request_def nth_upd_client
        DHCP_MSG_DISCOVER_def DHCP_MSG_REQUEST_def)
qed

end
