(* ===== verification/DhcpMessages.thy ===== *)
theory DhcpMessages
  imports DhcpTable
begin

text \<open>
  The messages of the DHCP server: \<open>_ParseDhcpOptions\<close> recovers the options of any well-formed
  option area and runs past the message when the end mark is missing, and the replies the
  server builds parse back to what they announce.  The properties of the server follow.
\<close>

section \<open>Well-formed options\<close>

datatype dhcp_opt = PadOpt | MsgTypeOpt u8 | ReqIpOpt u32 | ServerIdOpt u32 | OtherOpt u8 bytes

fun enc_opt :: "dhcp_opt \<Rightarrow> bytes" where
  "enc_opt PadOpt = [DHCP_OPTION_ID_PAD]"
| "enc_opt (MsgTypeOpt t) = option_msg_type t"
| "enc_opt (ReqIpOpt a) = option_u32 DHCP_OPTION_ID_REQ_IP_ADDR a"
| "enc_opt (ServerIdOpt a) = option_u32 DHCP_OPTION_ID_SERVER_ID a"
| "enc_opt (OtherOpt i d) = i # word_of_nat (length d) # d"

fun wf_opt :: "dhcp_opt \<Rightarrow> bool" where
  "wf_opt (OtherOpt i d) \<longleftrightarrow> length d < 256 \<and>
     i \<notin> {DHCP_OPTION_ID_PAD, DHCP_OPTION_ID_MSG_TYPE, DHCP_OPTION_ID_REQ_IP_ADDR,
          DHCP_OPTION_ID_SERVER_ID, DHCP_OPTION_ID_END}"
| "wf_opt _ \<longleftrightarrow> True"

fun apply_opt :: "dhcp_options \<Rightarrow> dhcp_opt \<Rightarrow> dhcp_options" where
  "apply_opt r (MsgTypeOpt t) = r\<lparr>oMsgType := t, oRet := oRet r OR 0x01\<rparr>"
| "apply_opt r (ReqIpOpt a) = r\<lparr>oReqIpAddr := a, oRet := oRet r OR 0x02\<rparr>"
| "apply_opt r (ServerIdOpt a) = r\<lparr>oServerId := a, oRet := oRet r OR 0x04\<rparr>"
| "apply_opt r _ = r"

definition enc_opts :: "dhcp_opt list \<Rightarrow> bytes" where
  "enc_opts os = concat (map enc_opt os) @ [DHCP_OPTION_ID_END]"

section \<open>Parsing them\<close>

lemmas dhcp_ids = DHCP_OPTION_ID_PAD_def DHCP_OPTION_ID_MSG_TYPE_def DHCP_OPTION_ID_REQ_IP_ADDR_def
  DHCP_OPTION_ID_SERVER_ID_def DHCP_OPTION_ID_END_def

text \<open>One option: the loop moves to its end and has applied it.\<close>

lemma parse_one:
  assumes d: "drop p m = enc_opt opt @ rest" and wf: "wf_opt opt" and len: "length m = 548" and r: "rest \<noteq> []"
  shows "parse_options_loop m p st = parse_options_loop m (p + length (enc_opt opt)) (apply_opt st opt)"
proof -
  have p: "p < sizeof_DHCP_MSG"
    using d len by (cases opt; cases "p < 548") (auto simp: sizeof_DHCP_MSG_def option_msg_type_def option_u32_def)
  have e4: "p + 4 = Suc (Suc (Suc (Suc p)))" by simp
  show ?thesis
  proof (cases opt)
    case PadOpt
    with d have "load m p = Inr DHCP_OPTION_ID_PAD" by (auto intro: load_drop)
    with p PadOpt show ?thesis by (simp add: parse_options_loop.simps [of m p] dhcp_ids)
  next
    case (MsgTypeOpt t)
    with d have d': "drop p m = DHCP_OPTION_ID_MSG_TYPE # 1 # t # rest" by (simp add: option_msg_type_def)
    note d1 = drop_eq_ConsD(3) [OF d'] note d2 = drop_eq_ConsD(3) [OF d1]
    show ?thesis
      using p MsgTypeOpt load_drop [OF d'] load_drop [OF d1] load_drop [OF d2]
      by (simp add: parse_options_loop.simps [of m p] dhcp_ids option_msg_type_def)
  next
    case (ReqIpOpt a)
    with d have d': "drop p m = DHCP_OPTION_ID_REQ_IP_ADDR # 4 # le32 a @ rest" by (simp add: option_u32_def)
    note d1 = drop_eq_ConsD(3) [OF d'] note d2 = drop_eq_ConsD(3) [OF d1]
    show ?thesis
      using p ReqIpOpt load_drop [OF d'] load_drop [OF d1] le32_at_ok [OF d2]
      by (simp add: parse_options_loop.simps [of m p] dhcp_ids option_u32_def le32_def e4)
  next
    case (ServerIdOpt a)
    with d have d': "drop p m = DHCP_OPTION_ID_SERVER_ID # 4 # le32 a @ rest" by (simp add: option_u32_def)
    note d1 = drop_eq_ConsD(3) [OF d'] note d2 = drop_eq_ConsD(3) [OF d1]
    show ?thesis
      using p ServerIdOpt load_drop [OF d'] load_drop [OF d1] le32_at_ok [OF d2]
      by (simp add: parse_options_loop.simps [of m p] dhcp_ids option_u32_def le32_def e4)
  next
    case (OtherOpt i xs)
    with d have d': "drop p m = i # word_of_nat (length xs) # xs @ rest" by simp
    note d1 = drop_eq_ConsD(3) [OF d']
    have "unat (word_of_nat (length xs) :: u8) = length xs" using wf OtherOpt by (intro unat_of_nat_no_wrap) simp
    then show ?thesis
      using p OtherOpt wf load_drop [OF d'] load_drop [OF d1]
      by (simp add: parse_options_loop.simps [of m p])
  qed
qed

lemma parse_options_ok:
  "drop p m = enc_opts os @ rest \<Longrightarrow> \<forall>opt \<in> set os. wf_opt opt \<Longrightarrow> length m = 548 \<Longrightarrow>
     parse_options_loop m p st = Inr (foldl apply_opt st os)"
proof (induction os arbitrary: p st)
  case Nil
  then have "load m p = Inr DHCP_OPTION_ID_END" by (auto simp: enc_opts_def intro: load_drop)
  then show ?case by (simp add: parse_options_loop.simps [of m p])
next
  case (Cons opt os)
  have d: "drop p m = enc_opt opt @ (enc_opts os @ rest)" using Cons.prems(1) by (simp add: enc_opts_def)
  have "drop (p + length (enc_opt opt)) m = enc_opts os @ rest"
    using arg_cong [OF d, of "drop (length (enc_opt opt))"] by (simp add: add.commute)
  moreover have "parse_options_loop m p st = parse_options_loop m (p + length (enc_opt opt)) (apply_opt st opt)"
    using Cons.prems by (intro parse_one [OF d]) (auto simp: enc_opts_def)
  ultimately show ?case using Cons.IH [of "p + length (enc_opt opt)" "apply_opt st opt"] Cons.prems by simp
qed

text \<open>An option area without an end mark: the loop reads the byte behind the message.\<close>

lemma parse_pads_overrun:
  assumes "length m = 548"
  shows "p \<le> 548 \<Longrightarrow> \<forall>i. p \<le> i \<longrightarrow> i < 548 \<longrightarrow> m ! i = 0 \<Longrightarrow> parse_options_loop m p st = Inl OutOfBounds"
proof (induction "548 - p" arbitrary: p)
  case 0
  then have "p = 548" by simp
  with assms show ?case by (simp add: parse_options_loop.simps [of m] load_def)
next
  case (Suc n)
  then have p: "p < 548" by simp
  then have "parse_options_loop m p st = parse_options_loop m (p + 1) st"
    using Suc.prems assms
    by (simp add: parse_options_loop.simps [of m p] load_in dhcp_ids sizeof_DHCP_MSG_def)
  also have "\<dots> = Inl OutOfBounds" using Suc p by (intro Suc.hyps(1)) auto
  finally show ?case .
qed

section \<open>Replies\<close>

lemma length_reply_header: "length mac = 6 \<Longrightarrow> length (reply_header xid y si mac) = 240"
  by (simp add: reply_header_def le32_def)

lemma lease_options_enc:
  "lease_options t srv = enc_opts [MsgTypeOpt t, OtherOpt DHCP_OPTION_ID_LEASE_TIME (le32 (htonl DHCP_DEFAULT_LEASE_TIME)),
     ServerIdOpt (ServerIpAddr srv), OtherOpt DHCP_OPTION_ID_SUBNET_MASK (le32 (SubnetMask srv)),
     OtherOpt DHCP_OPTION_ID_DEF_GW (le32 (GateWay srv)), OtherOpt DHCP_OPTION_ID_DNS_SERVER (le32 (Dns1 srv))]"
  by (simp add: lease_options_def enc_opts_def option_lease_time_def option_u32_def le32_def)

lemma lease_reply_parse:
  fixes t :: u8 and srv :: dhcp_server and xid ip :: u32
  assumes mac: "length mac = 6"
  defines "m \<equiv> lease_reply t srv xid ip mac"
  shows "ParseDhcpOptions (m @ replicate (548 - length m) 0) =
    Inr \<lparr>oRet = 0x05, oMsgType = t, oReqIpAddr = 0, oServerId = ServerIpAddr srv\<rparr>"
proof -
  have "length (lease_options t srv) = 34"
    by (simp add: lease_options_def option_msg_type_def option_lease_time_def option_u32_def le32_def)
  then have lm: "length m = 274" using length_reply_header [OF mac] by (simp add: m_def lease_reply_def)
  let ?os = "[MsgTypeOpt t, OtherOpt DHCP_OPTION_ID_LEASE_TIME (le32 (htonl DHCP_DEFAULT_LEASE_TIME)),
     ServerIdOpt (ServerIpAddr srv), OtherOpt DHCP_OPTION_ID_SUBNET_MASK (le32 (SubnetMask srv)),
     OtherOpt DHCP_OPTION_ID_DEF_GW (le32 (GateWay srv)), OtherOpt DHCP_OPTION_ID_DNS_SERVER (le32 (Dns1 srv))]"
  let ?m = "m @ replicate (548 - length m) 0"
  have "drop DHCP_OPTIONS_OFFSET ?m = enc_opts ?os @ replicate (548 - length m) 0"
    using length_reply_header [OF mac] by (simp add: m_def lease_reply_def DHCP_OPTIONS_OFFSET_def lease_options_enc)
  moreover have "\<forall>opt \<in> set ?os. wf_opt opt"
    by (simp add: le32_def dhcp_ids DHCP_OPTION_ID_LEASE_TIME_def DHCP_OPTION_ID_SUBNET_MASK_def
        DHCP_OPTION_ID_DEF_GW_def DHCP_OPTION_ID_DNS_SERVER_def)
  moreover have "length ?m = 548" using lm by simp
  ultimately show ?thesis by (simp add: ParseDhcpOptions_def parse_options_ok)
qed

section \<open>Properties\<close>

lemma drop_length_append: "drop (length xs) (xs @ ys) = ys"
  by simp

text \<open>A server on 192.168.1.1/24, right after start.\<close>

definition sample_ip :: u32 where "sample_ip = 0x0101A8C0"
definition sample_mask :: u32 where "sample_mask = 0x00FFFFFF"

definition idle_state :: dhcp_state where
  "idle_state = \<lparr>DhcpServer = cleared_server, DhcpMsg = replicate 548 0, udp_sent = [], tick_armed = False\<rparr>"

lemma sample_host: "host_bits (ntohl sample_mask) 8" "ntohl sample_ip = 0xC0A80101"
  "unat (ntohl sample_ip AND NOT (ntohl sample_mask)) + 9 < 2 ^ 8"
  by (simp_all add: host_bits_def htonl_def sample_mask_def sample_ip_def mask_eq_exp_minus_1)

lemma sample_start:
  obtains s where "DHCPS_Start True True sample_ip sample_mask idle_state = Inr (DHCPS_ERR_SUCCESS, s)"
    and "dhcp_run sample_ip sample_mask s"
proof -
  obtain cs where "start_pool sample_ip sample_mask = Inr cs"
    using start_pool_ok [OF sample_host(1,3)] by blast
  then obtain s where s: "DHCPS_Start True True sample_ip sample_mask idle_state = Inr (DHCPS_ERR_SUCCESS, s)"
    by (auto simp: DHCPS_Start_def start_pool_def Let_def ebind_Inr_iff)
  have "length (DhcpMsg idle_state) = 548" by (simp add: idle_state_def)
  from dhcp_run.start [OF this s] s that show thesis by blast
qed

text \<open>
  C6: Whatever packets, ticks and deletions the server has processed, two active entries never
  have the same hardware address nor the same IP address, and every address of the pool lies in
  the subnet and is not the server's own, provided the netmask is contiguous and the subnet
  has eight host addresses above the server's.
\<close>

theorem dhcp_leases_unique:
  assumes "dhcp_run ip netmask s" and "host_bits (ntohl netmask) k"
    and "unat (ntohl ip AND NOT (ntohl netmask)) + 9 < 2 ^ k"
  shows "length (clients s) = 8 \<and>
    (\<forall>i < 8. \<forall>j < 8. i \<noteq> j \<longrightarrow> active (clients s ! i) \<longrightarrow> active (clients s ! j) \<longrightarrow>
       cMacAddr (clients s ! i) \<noteq> cMacAddr (clients s ! j) \<and> cIpAddr (clients s ! i) \<noteq> cIpAddr (clients s ! j)) \<and>
    (\<forall>c \<in> set (clients s). cIpAddr c \<noteq> ip \<and> ntohl (cIpAddr c) AND ntohl netmask = ntohl ip AND ntohl netmask)"
proof -
  from dhcp_run_table [OF assms(1)] obtain cs where p: "start_pool ip netmask = Inr cs"
    and ok: "table_ok (clients s)" and ips: "map cIpAddr (clients s) = map cIpAddr cs" by blast
  note d = start_pool_ips [OF assms(2,3) p, folded ips]
  have len: "length (clients s) = 8" using ok by (simp add: table_ok_def)
  have "cIpAddr (clients s ! i) \<noteq> cIpAddr (clients s ! j)" if "i < 8" "j < 8" "i \<noteq> j" for i j
    using d(1) that len by (auto simp: distinct_conv_nth)
  moreover have "cIpAddr c \<noteq> ip \<and> ntohl (cIpAddr c) AND ntohl netmask = ntohl ip AND ntohl netmask"
    if "c \<in> set (clients s)" for c
    using d(2) d(3) [of "cIpAddr c"] that by auto
  ultimately show ?thesis using len table_okD [OF ok] by blast
qed

theorem dhcp_leases_unique_witness:
  "\<exists>s. DHCPS_Start True True sample_ip sample_mask idle_state = Inr (DHCPS_ERR_SUCCESS, s) \<and>
     (\<forall>c \<in> set (clients s). cIpAddr c \<noteq> sample_ip)"
proof -
  obtain s where s: "DHCPS_Start True True sample_ip sample_mask idle_state = Inr (DHCPS_ERR_SUCCESS, s)"
    "dhcp_run sample_ip sample_mask s" by (rule sample_start)
  from dhcp_leases_unique [OF s(2) sample_host(1,3)] s(1) show ?thesis by blast
qed

text \<open>
  C14: A client without an active entry that sends DISCOVER while some entry is idle is offered
  an address of the pool, and its following REQUEST for that address, to this server, is
  acknowledged: the entry is bound for the default lease time and both replies carry the
  address, the client's hardware address and its transaction id.  This is stated of the handling behind
  the decoding of the datagram (\<open>dhcp_dispatch\<close>), for a contiguous netmask with eight host addresses above
  the server's.
\<close>

theorem dhcp_exchange:
  assumes run: "dhcp_run ip netmask s" and hb: "host_bits (ntohl netmask) k"
    and room: "unat (ntohl ip AND NOT (ntohl netmask)) + 9 < 2 ^ k"
    and none: "\<And>j. j < 8 \<Longrightarrow> active (clients s ! j) \<Longrightarrow> cMacAddr (clients s ! j) \<noteq> mac"
    and idle: "n < 8" "\<not> active (clients s ! n)"
  shows "\<exists>i < 8. \<exists>s1 s2 addr. addr = cIpAddr (clients s ! i) \<and>
    dhcp_dispatch True mac DHCP_MSG_DISCOVER want sid xid s = s1 \<and>
    dhcp_dispatch True mac DHCP_MSG_REQUEST addr (ServerIpAddr (DhcpServer s)) xid' s1 = s2 \<and>
    cState (clients s2 ! i) = DHCP_CLIENT_STATE_BIND \<and> cMacAddr (clients s2 ! i) = mac \<and>
    cLease (clients s2 ! i) = DHCP_DEFAULT_LEASE_TIME \<and>
    udp_sent s2 = udp_sent s @ [lease_reply DHCP_MSG_OFFER (DhcpServer s) xid addr mac,
                                lease_reply DHCP_MSG_ACK (DhcpServer s1) xid' addr mac]"
proof -
  from dhcp_run_table [OF run] obtain cs where p: "start_pool ip netmask = Inr cs"
    and ok: "table_ok (clients s)" and ips: "map cIpAddr (clients s) = map cIpAddr cs" by blast
  define s1 where "s1 = dhcp_dispatch True mac DHCP_MSG_DISCOVER want sid xid s"
  have ok1: "table_ok (clients s1)" "map cIpAddr (clients s1) = map cIpAddr (clients s)"
    using dispatch_ok [OF ok] by (auto simp: clients_ok_def s1_def)
  have len: "length (clients s) = 8" "length (clients s1) = 8" using ok ok1 by (auto simp: table_ok_def)
  obtain i where i: "i < 8" "cState (clients s1 ! i) = DHCP_CLIENT_STATE_REQUEST" "cMacAddr (clients s1 ! i) = mac"
    "ServerIpAddr (DhcpServer s1) = ServerIpAddr (DhcpServer s)"
    "udp_sent s1 = udp_sent s @ [lease_reply DHCP_MSG_OFFER (DhcpServer s) xid (cIpAddr (clients s1 ! i)) mac]"
    using dispatch_discover [OF ok none idle, of want sid xid] by (auto simp: s1_def)
  have addr: "cIpAddr (clients s1 ! i) = cIpAddr (clients s ! i)"
    using ok1(2) i(1) len by (metis nth_map)
  have "distinct (map cIpAddr (clients s1))" using start_pool_ips(1) [OF hb room p] ips ok1(2) by simp
  moreover have "active (clients s1 ! i)" "cState (clients s1 ! i) \<noteq> DHCP_CLIENT_STATE_SELECT"
    using i(2) by (simp_all add: active_def)
  ultimately obtain s2 where
    "dhcp_dispatch True (cMacAddr (clients s1 ! i)) DHCP_MSG_REQUEST (cIpAddr (clients s1 ! i))
       (ServerIpAddr (DhcpServer s)) xid' s1 = s2"
    "cState (clients s2 ! i) = DHCP_CLIENT_STATE_BIND" "cMacAddr (clients s2 ! i) = cMacAddr (clients s1 ! i)"
    "cLease (clients s2 ! i) = DHCP_DEFAULT_LEASE_TIME"
    "udp_sent s2 = udp_sent s1 @ [lease_reply DHCP_MSG_ACK (DhcpServer s1) xid' (cIpAddr (clients s1 ! i)) (cMacAddr (clients s1 ! i))]"
    using dispatch_request [OF ok1(1) _ i(1), of "ServerIpAddr (DhcpServer s)" xid'] i(4) by auto
  with i addr s1_def show ?thesis by auto
qed

theorem dhcp_exchange_witness:
  "\<exists>s i s2. DHCPS_Start True True sample_ip sample_mask idle_state = Inr (DHCPS_ERR_SUCCESS, s) \<and>
     cState (clients s2 ! i) = DHCP_CLIENT_STATE_BIND \<and> cMacAddr (clients s2 ! i) = [2, 0, 0, 0, 0, 1] \<and>
     length (udp_sent s2) = length (udp_sent s) + 2"
proof -
  obtain s where s: "DHCPS_Start True True sample_ip sample_mask idle_state = Inr (DHCPS_ERR_SUCCESS, s)"
    "dhcp_run sample_ip sample_mask s" by (rule sample_start)
  have "start_pool sample_ip sample_mask = Inr (clients s)" using DHCPS_Start_pool [OF s(1)] by simp
  then have idle: "length (clients s) = 8 \<and> (\<forall>c \<in> set (clients s). \<not> active c)"
    using init_clients_idle [of _ _ 0 8 "clients s"]
    by (auto simp: start_pool_def Let_def ebind_Inr_iff DHCPS_HISTORY_CLIENT_NUM_def)
  then have "\<not> active (clients s ! 0)" and none: "\<And>j. j < 8 \<Longrightarrow> active (clients s ! j) \<Longrightarrow> cMacAddr (clients s ! j) \<noteq> [2, 0, 0, 0, 0, 1]"
    by auto
  from dhcp_exchange [OF s(2) sample_host(1,3) none _ this(1), where want = 0 and sid = 0 and xid = 1 and xid' = 2] s(1)
  show ?thesis by fastforce
qed

text \<open>
  C15: A REQUEST for an address that is active for another client is refused: the lookup returns
  no entry, the holder's entry is not touched, and a NAK is broadcast.  This is stated of the handling
  behind the decoding of the datagram (\<open>dhcp_dispatch\<close>).
\<close>

theorem dhcp_request_taken:
  assumes "table_ok (clients s)" and "i < 8" and "active (clients s ! i)" and "cMacAddr (clients s ! i) \<noteq> mac"
  shows "\<exists>s'. dhcp_dispatch True mac DHCP_MSG_REQUEST (cIpAddr (clients s ! i)) sid xid s = s' \<and>
    clients s' ! i = clients s ! i \<and>
    udp_sent s' = udp_sent s @ [reply_header xid 0 (ServerIpAddr (DhcpServer s)) mac @
      option_msg_type DHCP_MSG_NAK @ [DHCP_OPTION_ID_END]]"
proof -
  from request_taken [OF assms, of "ServerIpAddr (DhcpServer s)" sid] obtain cs' where
    "ClientTableLookup (ServerIpAddr (DhcpServer s)) mac DHCP_MSG_REQUEST (cIpAddr (clients s ! i)) sid (clients s) =
      (None, cs')" "cs' ! i = clients s ! i" by blast
  then show ?thesis
    by (simp add: dhcp_dispatch_def Let_def DHCPNakGenAndSend_def send_reply_def DHCP_MSG_REQUEST_def
        DHCP_MSG_RELEASE_def DHCP_MSG_DECLINE_def)
qed

theorem dhcp_request_taken_witness:
  "let c = (fresh_client 7)\<lparr>cState := DHCP_CLIENT_STATE_BIND, cMacAddr := [1, 1, 1, 1, 1, 1]\<rparr>;
       s = idle_state\<lparr>DhcpServer := cleared_server\<lparr>Clients := c # replicate 7 (fresh_client 9)\<rparr>\<rparr> in
   \<exists>s'. dhcp_dispatch True [2, 2, 2, 2, 2, 2] DHCP_MSG_REQUEST 7 0 1 s = s' \<and> clients s' ! 0 = c"
proof -
  let ?c = "(fresh_client 7)\<lparr>cState := DHCP_CLIENT_STATE_BIND, cMacAddr := [1, 1, 1, 1, 1, 1]\<rparr>"
  let ?s = "idle_state\<lparr>DhcpServer := cleared_server\<lparr>Clients := ?c # replicate 7 (fresh_client 9)\<rparr>\<rparr>"
  have l: "length (clients ?s) = 8" by simp
  have id: "\<not> active (clients ?s ! j)" if "j < 8" "j \<noteq> 0" for j
    using that by (cases j) (simp_all add: active_def fresh_client_def)
  have ok: "table_ok (clients ?s)"
    unfolding table_ok_def sole_entry_def l using id by (metis (full_types))
  have "active (clients ?s ! 0)" "cMacAddr (clients ?s ! 0) \<noteq> [2, 2, 2, 2, 2, 2]" "cIpAddr (clients ?s ! 0) = 7"
    "clients ?s ! 0 = ?c" by (simp_all add: active_def fresh_client_def)
  then show ?thesis
    using dhcp_request_taken [OF ok, of 0 "[2, 2, 2, 2, 2, 2]" 0 1] unfolding Let_def by simp
qed

text \<open>
  Any well-formed option area (pads, options in any order, the end mark) is parsed to the
  last message type, requested address and server id it contains, with the flag of each one
  present.
\<close>

theorem dhcp_options_parsed:
  assumes "length m = 548" and "drop DHCP_OPTIONS_OFFSET m = enc_opts os @ rest" and "\<forall>opt \<in> set os. wf_opt opt"
  shows "ParseDhcpOptions m =
    Inr (foldl apply_opt \<lparr>oRet = 0, oMsgType = 0xff, oReqIpAddr = 0, oServerId = 0\<rparr> os)"
  using parse_options_ok [OF assms(2,3,1)] by (simp add: ParseDhcpOptions_def)

theorem dhcp_options_parsed_witness:
  "ParseDhcpOptions (replicate 240 0 @ enc_opts [PadOpt, MsgTypeOpt 3, ReqIpOpt 0x0201A8C0] @ replicate 297 0) =
     Inr \<lparr>oRet = 3, oMsgType = 3, oReqIpAddr = 0x0201A8C0, oServerId = 0\<rparr>"
proof -
  let ?os = "[PadOpt, MsgTypeOpt 3, ReqIpOpt 0x0201A8C0]"
  have l: "length (enc_opts ?os) = 11"
    by (simp add: enc_opts_def option_msg_type_def option_u32_def le32_def)
  have "ParseDhcpOptions (replicate 240 0 @ enc_opts ?os @ replicate 297 0) =
      Inr (foldl apply_opt \<lparr>oRet = 0, oMsgType = 0xff, oReqIpAddr = 0, oServerId = 0\<rparr> ?os)"
  proof (rule dhcp_options_parsed [where rest = "replicate 297 0"])
    show "length (replicate 240 0 @ enc_opts ?os @ replicate 297 0) = 548"
      unfolding length_append length_replicate l by simp
    show "drop DHCP_OPTIONS_OFFSET (replicate 240 0 @ enc_opts ?os @ replicate 297 0) =
        enc_opts ?os @ replicate 297 0"
      using drop_length_append [of "replicate 240 0" "enc_opts ?os @ replicate 297 0"]
      by (simp only: length_replicate DHCP_OPTIONS_OFFSET_def)
  qed simp
  then show ?thesis by simp
qed

text \<open>
  An option area without an end mark, such as one of pads only, makes the parser read the
  byte behind the message: the loop tests the byte before it tests the end.
\<close>

theorem dhcp_options_overrun:
  assumes "length m = 548" and "\<forall>i. DHCP_OPTIONS_OFFSET \<le> i \<longrightarrow> i < 548 \<longrightarrow> m ! i = DHCP_OPTION_ID_PAD"
  shows "ParseDhcpOptions m = Inl OutOfBounds"
  using parse_pads_overrun [OF assms(1), of DHCP_OPTIONS_OFFSET] assms(2)
  by (simp add: ParseDhcpOptions_def DHCP_OPTIONS_OFFSET_def DHCP_OPTION_ID_PAD_def)

theorem dhcp_options_overrun_witness: "ParseDhcpOptions (replicate 548 0) = Inl OutOfBounds"
proof (rule dhcp_options_overrun)
  show "\<forall>i. DHCP_OPTIONS_OFFSET \<le> i \<longrightarrow> i < 548 \<longrightarrow> replicate 548 0 ! i = DHCP_OPTION_ID_PAD"
    unfolding DHCP_OPTION_ID_PAD_def by (intro allI impI nth_replicate)
qed (rule length_replicate)

text \<open>
  The offers and acknowledgements the server builds are well-formed messages: parsed by the
  option parser they give their message type and this server's address as server id.
\<close>

theorem dhcp_reply_wellformed:
  assumes "length mac = 6"
  shows "ParseDhcpOptions (lease_reply t srv xid ip mac @ replicate (548 - length (lease_reply t srv xid ip mac)) 0) =
    Inr \<lparr>oRet = 0x05, oMsgType = t, oReqIpAddr = 0, oServerId = ServerIpAddr srv\<rparr>"
  using lease_reply_parse [OF assms] .

theorem dhcp_reply_wellformed_witness:
  "let m = lease_reply DHCP_MSG_ACK (cleared_server\<lparr>ServerIpAddr := 0x0101A8C0\<rparr>) 7 0x0201A8C0 [2, 0, 0, 0, 0, 1] in
   ParseDhcpOptions (m @ replicate (548 - length m) 0) =
     Inr \<lparr>oRet = 0x05, oMsgType = DHCP_MSG_ACK, oReqIpAddr = 0, oServerId = 0x0101A8C0\<rparr>"
  unfolding Let_def by (subst dhcp_reply_wellformed) simp_all

lemma host_part_24: "host_part 0xFFFFFF00 x = Inr (if x mod 0xFF \<noteq> 0 then x mod 0xFF else 1)"
proof -
  have "NOT (0xFFFFFF00 :: u32) = 0xFF" by simp
  then show ?thesis by (simp only: host_part_def) simp
qed

text \<open>
  The pool is not always free of duplicates: for the interface 192.168.1.250/24 the pool
  wraps at the top of the subnet and contains 192.168.1.1 twice, so that two clients can be
  bound to the same address.
\<close>

theorem dhcp_pool_duplicates:
  "\<exists>cs. start_pool (htonl 0xC0A801FA) (htonl 0xFFFFFF00) = Inr cs \<and>
     cIpAddr (cs ! 4) = htonl 0xC0A80101 \<and> cIpAddr (cs ! 5) = htonl 0xC0A80101"
proof -
  have n: "DHCPS_HISTORY_CLIENT_NUM = Suc (Suc (Suc (Suc (Suc (Suc (Suc (Suc 0)))))))"
    by (simp add: DHCPS_HISTORY_CLIENT_NUM_def)
  have "NOT (0xFFFFFF00 :: u32) = 0xFF" by simp
  then show ?thesis
    by (simp add: start_pool_def Let_def n host_part_24 fresh_client_def)
qed

end
