(* ===== verification/DnsServer.thy ===== *)
theory DnsServer
  imports DynMem DhcpServer CString
begin

text \<open>
  The DNS server of the soft access point (\<open>App/DnsServer/dns_server.c\<close>), which answers queries
  for the device's own name with its address and every other query with a name error.  The
  query is read from its heap block: an access behind the received bytes is a fault.  The name
  of the device is followed in memory by the host address, which a name of 32 bytes makes part
  of the comparison.  \<open>dns_bound\<close> says whether the protocol control block is registered with the
  stack.  The arguments \<open>mm\<close> and \<open>pbuf_ok\<close> stand for \<open>OSMMalloc\<close> and \<open>pbuf_alloc\<close>.
\<close>

section \<open>Constants and state\<close>

definition DNSS_ERR_SUCCESS :: int where "DNSS_ERR_SUCCESS = 0"
definition DNSS_ERR_LINKDOWN :: int where "DNSS_ERR_LINKDOWN = -1"
definition DNSS_ERR_PARAM :: int where "DNSS_ERR_PARAM = -2"
definition DNSS_ERR_MEM :: int where "DNSS_ERR_MEM = -3"

definition DNS_DEFAULT_TTL :: u32 where "DNS_DEFAULT_TTL = 3600"
definition DNS_RRTYPE_A :: u16 where "DNS_RRTYPE_A = 1"
definition DNS_RRCLASS_IN :: u16 where "DNS_RRCLASS_IN = 1"
definition DNS_FLAG1_RESPONSE :: u8 where "DNS_FLAG1_RESPONSE = 0x80"
definition DNS_FLAG1_OPCODE_STANDARD :: u8 where "DNS_FLAG1_OPCODE_STANDARD = 0x00"
definition DNS_FLAG2_ERR_NONE :: u8 where "DNS_FLAG2_ERR_NONE = 0x00"
definition DNS_FLAG2_ERR_NAME :: u8 where "DNS_FLAG2_ERR_NAME = 0x03"
definition DNS_NAME_OFFSET :: u16 where "DNS_NAME_OFFSET = 0xC000"

definition sizeof_DNS_HEADER :: nat where "sizeof_DNS_HEADER = 12"
definition sizeof_DNS_QUERY :: nat where "sizeof_DNS_QUERY = 4"
definition sizeof_DNS_ANSWER :: nat where "sizeof_DNS_ANSWER = 8"

record dns_server =
  dnsSocket :: bool
  DnsName :: bytes
  HostIp :: u32

record dns_state =
  DnsServer :: dns_server
  dns_bound :: bool
  dns_sent :: "bytes list"

section \<open>Comparing names\<close>

definition Nst_ToUpper :: "u8 \<Rightarrow> u8" where
  "Nst_ToUpper c = (if 0x61 \<le> c \<and> c \<le> 0x7a then c - 0x61 + 0x41 else c)"

text \<open>The inner loop: \<open>n\<close> characters at \<open>d\<close> in the name and at \<open>q\<close> in the query.\<close>

fun compare_label :: "bytes \<Rightarrow> bytes \<Rightarrow> nat \<Rightarrow> nat \<Rightarrow> nat \<Rightarrow> bool outcome" where
  "compare_label my m d q 0 = Inr True"
| "compare_label my m d q (Suc n) =
     ebind (load my d) (\<lambda>a. ebind (load m q) (\<lambda>b.
     if Nst_ToUpper a \<noteq> Nst_ToUpper b then Inr False
     else compare_label my m (d + 1) (q + 1) n))"

text \<open>\<open>return ((*(--MyDns) == 0) ? 0 : 1);\<close>\<close>

definition name_end :: "bytes \<Rightarrow> nat \<Rightarrow> int outcome" where
  "name_end my d =
     (if d = 0 then Inl OutOfBounds
      else ebind (load my (d - 1)) (\<lambda>c. Inr (if c = 0 then 0 else 1)))"

function compare_loop :: "bytes \<Rightarrow> bytes \<Rightarrow> nat \<Rightarrow> nat \<Rightarrow> int outcome" where
  "compare_loop my m d q =
     ebind (load m q) (\<lambda>n.
     if n AND 0xc0 = 0xc0 then name_end my d
     else ebind (compare_label my m d (q + 1) (unat n)) (\<lambda>same.
          if \<not> same then Inr 1
          else let d = d + unat n + 1; q = q + 1 + unat n in
               ebind (load m q) (\<lambda>c. if c \<noteq> 0 then compare_loop my m d q else name_end my d)))"
  by pat_completeness auto
termination
  by (relation "measure (\<lambda>(my, m, d, q). length m - q)") (auto simp: load_def split: if_splits)

declare compare_loop.simps [simp del]

definition DnsCompareName :: "bytes \<Rightarrow> bytes \<Rightarrow> nat \<Rightarrow> int outcome" where
  "DnsCompareName my m q =
     ebind (strlen_at m q) (\<lambda>len.
     if (word_of_nat len :: u32) - 1 > 32 then Inr 1 else compare_loop my m 0 q)"

section \<open>Replies\<close>

definition dns_header :: "bytes \<Rightarrow> u8 \<Rightarrow> u16 \<Rightarrow> bytes" where
  "dns_header tid flag2 answers =
     tid @ [DNS_FLAG1_RESPONSE, flag2] @ be16 1 @ be16 answers @ be16 0 @ be16 0"

definition dns_send :: "mallocator \<Rightarrow> bool \<Rightarrow> nat \<Rightarrow> bytes \<Rightarrow> dns_state \<Rightarrow> dns_state" where
  "dns_send mm pbuf_ok Len reply s =
     (case mm (word_of_nat ((Len + 3) div 4 * 4)) of
        None \<Rightarrow> s
      | Some _ \<Rightarrow> if \<not> pbuf_ok then s else s\<lparr>dns_sent := dns_sent s @ [reply]\<rparr>)"

text \<open>\<open>name\<close> is the query name with its terminating NUL, \<open>query\<close> the type and class of the query.\<close>

definition DNSNameErrGenAndSend ::
  "mallocator \<Rightarrow> bool \<Rightarrow> bytes \<Rightarrow> bytes \<Rightarrow> bytes \<Rightarrow> dns_state \<Rightarrow> dns_state" where
  "DNSNameErrGenAndSend mm pbuf_ok query name tid s =
     dns_send mm pbuf_ok (sizeof_DNS_HEADER + length name + sizeof_DNS_QUERY)
       (dns_header tid DNS_FLAG2_ERR_NAME 0 @ name @ query) s"

definition DNSAnswerGenAndSend ::
  "mallocator \<Rightarrow> bool \<Rightarrow> bytes \<Rightarrow> bytes \<Rightarrow> bytes \<Rightarrow> dns_state \<Rightarrow> dns_state" where
  "DNSAnswerGenAndSend mm pbuf_ok query name tid s =
     dns_send mm pbuf_ok
       (sizeof_DNS_HEADER + length name + sizeof_DNS_QUERY + 2 + sizeof_DNS_ANSWER + 2 + 4)
       (dns_header tid DNS_FLAG2_ERR_NONE 1 @ name @ query @
        be16 (DNS_NAME_OFFSET OR word_of_nat sizeof_DNS_HEADER) @
        be16 DNS_RRTYPE_A @ be16 DNS_RRCLASS_IN @ be32 DNS_DEFAULT_TTL @ be16 4 @
        le32 (HostIp (DnsServer s))) s"

section \<open>The receive callback\<close>

definition name_memory :: "dns_server \<Rightarrow> bytes" where
  "name_memory srv = DnsName srv @ le32 (HostIp srv)"

definition DNSS_RecvCb :: "mallocator \<Rightarrow> bool \<Rightarrow> bytes \<Rightarrow> dns_state \<Rightarrow> dns_state outcome" where
  "DNSS_RecvCb mm pbuf_ok P s =
     (case mm (word_of_nat (length P)) of
        None \<Rightarrow> Inr s
      | Some _ \<Rightarrow>
          ebind (load P 2) (\<lambda>flag1.
          if flag1 AND DNS_FLAG1_RESPONSE \<noteq> 0 \<or> flag1 AND 0x78 \<noteq> DNS_FLAG1_OPCODE_STANDARD then Inr s
          else ebind (strlen_at P 12) (\<lambda>n.
               ebind (load_n P (12 + n + 1) 4) (\<lambda>query.
               if drop 2 query \<noteq> be16 DNS_RRCLASS_IN \<and> take 2 query \<noteq> be16 DNS_RRTYPE_A then Inr s
               else ebind (DnsCompareName (name_memory (DnsServer s)) P 12) (\<lambda>r.
                    ebind (load_n P 12 (n + 1)) (\<lambda>name.
                    ebind (load_n P 0 2) (\<lambda>tid.
                    Inr (if r \<noteq> 0 then DNSNameErrGenAndSend mm pbuf_ok query name tid s
                         else DNSAnswerGenAndSend mm pbuf_ok query name tid s))))))))"

section \<open>Management\<close>

definition DNSS_Config :: "cstring option \<Rightarrow> dns_state \<Rightarrow> int \<times> dns_state" where
  "DNSS_Config name s =
     (case name of
        None \<Rightarrow> (DNSS_ERR_PARAM, s)
      | Some nm \<Rightarrow>
          if length nm > 32 then (DNSS_ERR_PARAM, s)
          else (DNSS_ERR_SUCCESS,
                s\<lparr>DnsServer := (DnsServer s)\<lparr>DnsName := nm @ replicate (32 - length nm) 0\<rparr>\<rparr>))"

definition DNSS_Start ::
  "bool \<Rightarrow> (bool \<times> u32) option \<Rightarrow> cstring \<Rightarrow> dns_state \<Rightarrow> int \<times> dns_state" where
  "DNSS_Start udp_ok netif nm s =
     (case netif of
        None \<Rightarrow> (DNSS_ERR_PARAM, s)
      | Some (up, ip) \<Rightarrow>
          if length nm > 32 then (DNSS_ERR_PARAM, s)
          else if \<not> up then (DNSS_ERR_LINKDOWN, s)
          else let srv = \<lparr>dnsSocket = False, DnsName = nm @ replicate (32 - length nm) 0, HostIp = ip\<rparr> in
               if \<not> udp_ok then (DNSS_ERR_MEM, s\<lparr>DnsServer := srv\<rparr>)
               else (DNSS_ERR_SUCCESS, s\<lparr>DnsServer := srv\<lparr>dnsSocket := True\<rparr>, dns_bound := True\<rparr>))"

definition DNSS_Stop :: "dns_state \<Rightarrow> dns_state" where
  "DNSS_Stop s = (if dnsSocket (DnsServer s) then s\<lparr>dns_bound := False\<rparr> else s)"

section \<open>Names on the wire\<close>

text \<open>A name is its labels; the device stores it with dots, the query with length bytes.\<close>

fun dotted :: "bytes list \<Rightarrow> bytes" where
  "dotted [] = []"
| "dotted [l] = l"
| "dotted (l # ls) = l @ [0x2e] @ dotted ls"

definition wire_name :: "bytes list \<Rightarrow> bytes" where
  "wire_name ls = concat (map (\<lambda>l. word_of_nat (length l) # l) ls) @ [0]"

definition label_ok :: "bytes \<Rightarrow> bool" where
  "label_ok l \<longleftrightarrow> 0 < length l \<and> length l < 64 \<and> 0 \<notin> set l"

abbreviation upper :: "bytes \<Rightarrow> bytes" where
  "upper l \<equiv> map Nst_ToUpper l"

lemma compare_label_ok:
  "drop d my = l @ ys \<Longrightarrow> drop q m = l' @ zs \<Longrightarrow> upper l = upper l' \<Longrightarrow>
     compare_label my m d q (length l) = Inr True"
proof (induction l arbitrary: d q l')
  case (Cons a l)
  then obtain b l'' where l': "l' = b # l''" by (cases l') auto
  have d: "drop d my = a # (l @ ys)" and q: "drop q m = b # (l'' @ zs)" using Cons.prems l' by auto
  show ?case
    using drop_eq_ConsD [OF d] drop_eq_ConsD [OF q] Cons.IH [of "d + 1" "q + 1" l''] Cons.prems(3) l'
    by (simp add: load_in)
qed simp

lemma label_len:
  assumes "length (l :: bytes) < 64"
  shows "unat (word_of_nat (length l) :: u8) = length l" and "(word_of_nat (length l) :: u8) AND 0xc0 \<noteq> 0xc0"
proof -
  show u: "unat (word_of_nat (length l) :: u8) = length l" using assms by (intro unat_of_nat_no_wrap) simp
  have "\<not> bit (unat (word_of_nat (length l) :: u8)) 6"
    unfolding u using assms by (simp add: bit_iff_odd)
  then have "\<not> bit (word_of_nat (length l) :: u8) 6" by (simp add: bit_unsigned_iff)
  then have "\<not> bit ((word_of_nat (length l) :: u8) AND 0xc0) 6" by (simp add: bit_and_iff)
  moreover have "bit (0xc0 :: u8) 6" by simp
  ultimately show "(word_of_nat (length l) :: u8) AND 0xc0 \<noteq> 0xc0" by metis
qed

lemma compare_loop_match:
  "ls \<noteq> [] \<Longrightarrow> drop d my = dotted ls @ 0 # ys \<Longrightarrow>
   drop q m = concat (map (\<lambda>l. word_of_nat (length l) # l) ls') @ 0 # zs \<Longrightarrow>
   map upper ls = map upper ls' \<Longrightarrow> \<forall>l \<in> set ls. label_ok l \<Longrightarrow> compare_loop my m d q = Inr 0"
proof (induction ls arbitrary: d q ls')
  case (Cons l ls)
  then obtain l' ls'' where ls': "ls' = l' # ls''" and up: "upper l = upper l'" "map upper ls = map upper ls''"
    by (cases ls') auto
  have len: "length l' = length l" using up(1) by (metis length_map)
  have ok: "length l < 64" "0 < length l" using Cons.prems(5) by (auto simp: label_ok_def)
  note ll = label_len [OF ok(1)]
  have q: "drop q m = word_of_nat (length l) # l' @ concat (map (\<lambda>l. word_of_nat (length l) # l) ls'') @ 0 # zs"
    using Cons.prems(3) by (simp add: ls' len)
  note q1 = drop_eq_ConsD [OF q]
  obtain c ys' where d: "drop d my = l @ c # ys'" and c: "ls = [] \<Longrightarrow> c = 0"
    and dl: "ls \<noteq> [] \<Longrightarrow> ys' = dotted ls @ 0 # ys"
    using Cons.prems(2) by (cases ls) auto
  have cl: "compare_label my m d (q + 1) (length l) = Inr True"
    using compare_label_ok [OF d _ up(1)] q1(3) by simp
  have q2: "drop (Suc (q + length l)) m = concat (map (\<lambda>l. word_of_nat (length l) # l) ls'') @ 0 # zs"
    using arg_cong [OF q1(3), of "drop (length l')"] by (simp add: len add.commute)
  have d2: "drop (d + length l) my = c # ys'"
    using arg_cong [OF d, of "drop (length l)"] by (simp add: add.commute)
  note d3 = drop_eq_ConsD [OF d2]
  have step: "compare_loop my m d q = ebind (load m (Suc (q + length l)))
      (\<lambda>c. if c \<noteq> 0 then compare_loop my m (Suc (d + length l)) (Suc (q + length l)) else name_end my (Suc (d + length l)))"
    using q1 ll cl by (simp add: compare_loop.simps [of my m d q] load_in)
  show ?case
  proof (cases ls)
    case Nil
    then have "ls'' = []" using up(2) by simp
    then have "load m (Suc (q + length l)) = Inr 0"
      using q2 drop_eq_ConsD [of "Suc (q + length l)" m 0 zs] by (simp add: load_in)
    then show ?thesis using step d3 c Nil by (simp add: name_end_def load_in)
  next
    case l2: (Cons k ks)
    then obtain k' ks' where ks': "ls'' = k' # ks'" "upper k = upper k'" using up(2) by (cases ls'') auto
    have "length k' = length k" using ks'(2) by (metis length_map)
    moreover have "0 < length k" "length k < 64" using Cons.prems(5) l2 by (auto simp: label_ok_def)
    moreover have "load m (Suc (q + length l)) = Inr (word_of_nat (length k'))"
      using q2 ks' drop_eq_ConsD [of "Suc (q + length l)" m "word_of_nat (length k')"] by (simp add: load_in)
    moreover have "compare_loop my m (Suc (d + length l)) (Suc (q + length l)) = Inr 0"
      using d3(3) dl l2 q2 up(2) Cons.prems(5) by (intro Cons.IH) auto
    ultimately show ?thesis
      using step label_len(1) [of k] by (auto simp: word_unat_eq_iff)
  qed
qed simp

lemma wire_labels_nz:
  "\<forall>l \<in> set ls. label_ok l \<Longrightarrow> 0 \<notin> set (concat (map (\<lambda>l. word_of_nat (length l) # l) ls) :: bytes)"
proof (induction ls)
  case (Cons l ls)
  then have "unat (word_of_nat (length l) :: u8) = length l" "0 < length l" "0 \<notin> set l"
    using label_len(1) [of l] by (auto simp: label_ok_def)
  then have "(word_of_nat (length l) :: u8) \<noteq> 0" by (metis unsigned_0 less_irrefl)
  with Cons \<open>0 \<notin> set l\<close> show ?case by auto
qed simp

lemma length_wire_labels:
  "ls \<noteq> [] \<Longrightarrow> length (concat (map (\<lambda>l. word_of_nat (length l) # l) ls) :: bytes) = Suc (length (dotted ls))"
  by (induction ls rule: dotted.induct) auto

lemma strlen_at_wire:
  assumes "drop i m = wire_name ls @ rest" and "\<forall>l \<in> set ls. label_ok l"
  shows "strlen_at m i = Inr (length (wire_name ls) - 1)"
  using strlen_at_ok [of i m "concat (map (\<lambda>l. word_of_nat (length l) # l) ls)" rest] assms wire_labels_nz [of ls]
  by (simp add: wire_name_def)

text \<open>A query for one name: header with the transaction id, name, type A, class IN.\<close>

definition dns_query :: "bytes \<Rightarrow> bytes \<Rightarrow> bytes list \<Rightarrow> bytes" where
  "dns_query tid flags_counts ls = tid @ flags_counts @ wire_name ls @ be16 DNS_RRTYPE_A @ be16 DNS_RRCLASS_IN"

lemma RecvCb_query:
  assumes tid: "length tid = 2" and fl: "length fc = 10" "fc ! 0 AND 0xF8 = 0"
    and ls: "\<forall>l \<in> set ls. label_ok l" and mm: "mm (word_of_nat (length (dns_query tid fc ls))) \<noteq> None"
    and r: "DnsCompareName (name_memory (DnsServer s)) (dns_query tid fc ls) 12 = Inr r"
  shows "DNSS_RecvCb mm pb (dns_query tid fc ls) s =
    Inr (if r \<noteq> 0 then DNSNameErrGenAndSend mm pb (be16 1 @ be16 1) (wire_name ls) tid s
         else DNSAnswerGenAndSend mm pb (be16 1 @ be16 1) (wire_name ls) tid s)"
proof -
  let ?P = "dns_query tid fc ls" let ?n = "length (wire_name ls) - 1"
  have d12: "drop 12 ?P = wire_name ls @ be16 1 @ be16 1"
    using tid fl by (simp add: dns_query_def DNS_RRTYPE_A_def DNS_RRCLASS_IN_def)
  have w: "0 < length (wire_name ls)" by (simp add: wire_name_def)
  have lP: "length ?P = 12 + length (wire_name ls) + 4" using tid fl by (simp add: dns_query_def)
  have l2: "load ?P 2 = Inr (fc ! 0)" using tid fl by (simp add: load_def dns_query_def nth_append)
  have fz: "fc ! 0 AND DNS_FLAG1_RESPONSE = 0" "fc ! 0 AND 0x78 = DNS_FLAG1_OPCODE_STANDARD"
  proof -
    have "fc ! 0 AND (0xF8 AND 0x80) = 0" "fc ! 0 AND (0xF8 AND 0x78) = 0"
      using fl(2) by (simp_all only: and.assoc [symmetric]) simp_all
    then show "fc ! 0 AND DNS_FLAG1_RESPONSE = 0" "fc ! 0 AND 0x78 = DNS_FLAG1_OPCODE_STANDARD"
      by (simp_all add: DNS_FLAG1_RESPONSE_def DNS_FLAG1_OPCODE_STANDARD_def)
  qed
  have sl: "strlen_at ?P 12 = Inr ?n" using strlen_at_wire [OF d12 ls] .
  have "12 + ?n + 1 = length (wire_name ls) + 12" using w by simp
  then have "drop (12 + ?n + 1) ?P = drop (length (wire_name ls)) (drop 12 ?P)" by (simp only: drop_drop)
  then have "drop (12 + ?n + 1) ?P = be16 1 @ be16 1" unfolding d12 by simp
  then have q: "load_n ?P (12 + ?n + 1) 4 = Inr (be16 1 @ be16 1)"
    using w lP by (simp only: load_n_def) (auto simp: be16_def)
  have nm: "load_n ?P 12 (?n + 1) = Inr (wire_name ls)"
    using w lP d12 by (simp add: load_n_def)
  have t: "load_n ?P 0 2 = Inr tid" using tid lP by (simp add: load_n_def) (simp add: dns_query_def)
  obtain blk where "mm (word_of_nat (length ?P)) = Some blk" using mm by auto
  then show ?thesis
    unfolding DNSS_RecvCb_def
    using l2 fz sl q r nm t by (simp add: DNS_RRCLASS_IN_def)
qed

section \<open>Properties\<close>

lemma length_dotted:
  "map length ls = map length ls' \<Longrightarrow> length (dotted ls) = length (dotted ls')"
proof (induction ls arbitrary: ls' rule: dotted.induct)
  case (2 l)
  then show ?case by (cases ls') auto
next
  case (3 l k ks)
  then obtain l' k' ks' where eq: "ls' = l' # k' # ks'" by (cases ls'; cases "tl ls'") auto
  have "length (dotted (k # ks)) = length (dotted (k' # ks'))" using 3(2) by (intro 3(1)) (simp add: eq)
  then show ?case using 3(2) by (simp add: eq)
qed simp

lemma length_wire_upper:
  assumes "map upper ls = map upper ls'" and "ls \<noteq> []"
  shows "length (wire_name ls') = length (dotted ls) + 2" and "ls' \<noteq> []"
proof -
  show ne: "ls' \<noteq> []" using assms by auto
  have "map length ls = map length ls'" using arg_cong [OF assms(1), of "map length"] by (simp add: comp_def)
  then have "length (dotted ls') = length (dotted ls)" by (rule length_dotted [symmetric])
  then show "length (wire_name ls') = length (dotted ls) + 2"
    unfolding wire_name_def length_append length_wire_labels [OF ne] by simp
qed

lemma compare_own_name:
  assumes ls: "ls \<noteq> []" "\<forall>l \<in> set ls. label_ok l" and len: "length (dotted ls) < 32"
    and ls': "map upper ls = map upper ls'" "\<forall>l \<in> set ls'. label_ok l"
    and my: "my = dotted ls @ replicate (32 - length (dotted ls)) 0 @ rest"
    and q: "drop q m = wire_name ls' @ rest'"
  shows "DnsCompareName my m q = Inr 0"
proof -
  obtain k where k: "32 - length (dotted ls) = Suc k" using len by (cases "32 - length (dotted ls)") auto
  have "length (wire_name ls') - 1 = Suc (length (dotted ls))"
    unfolding length_wire_upper(1) [OF ls'(1) ls(1)] by simp
  with strlen_at_wire [OF q ls'(2)] have sl: "strlen_at m q = Inr (Suc (length (dotted ls)))" by simp
  have "(word_of_nat (Suc (length (dotted ls))) :: u32) - 1 = word_of_nat (length (dotted ls))" by simp
  moreover have "unat (word_of_nat (length (dotted ls)) :: u32) = length (dotted ls)"
    using len by (intro unat_of_nat_no_wrap) simp
  ultimately have g: "\<not> (word_of_nat (Suc (length (dotted ls))) :: u32) - 1 > 32"
    using len by (simp add: word_less_nat_alt)
  have "compare_loop my m 0 q = Inr 0"
    using compare_loop_match [OF ls(1), of 0 my "replicate k 0 @ rest" q m ls' rest'] ls ls' my q k
    by (simp add: wire_name_def)
  with sl g show ?thesis by (simp add: DnsCompareName_def)
qed

text \<open>
  C19: A query for the device's configured name (any number of labels, fewer than 32 characters,
  upper or lower case) is answered with the device's own address: the reply repeats the
  transaction id and the question and carries one A record that points back to the name.
\<close>

theorem dns_answers_own_name:
  assumes "ls \<noteq> []" and "\<forall>l \<in> set ls. label_ok l" and "length (dotted ls) < 32"
    and "map upper ls = map upper ls'" and "\<forall>l \<in> set ls'. label_ok l"
    and "DnsName (DnsServer s) = dotted ls @ replicate (32 - length (dotted ls)) 0"
    and "length tid = 2" and "length fc = 10" and "fc ! 0 AND 0xF8 = 0" and mm: "\<And>k. unat k \<le> 1024 \<Longrightarrow> mm k \<noteq> None"
  shows "\<exists>s'. DNSS_RecvCb mm True (dns_query tid fc ls') s = Inr s' \<and>
    dns_sent s' = dns_sent s @ [dns_header tid DNS_FLAG2_ERR_NONE 1 @ wire_name ls' @ be16 1 @ be16 1 @
      be16 0xC00C @ be16 1 @ be16 1 @ be32 3600 @ be16 4 @ le32 (HostIp (DnsServer s))]"
proof -
  let ?P = "dns_query tid fc ls'"
  have d12: "drop 12 ?P = wire_name ls' @ be16 1 @ be16 1"
    using assms(7,8) by (simp add: dns_query_def DNS_RRTYPE_A_def DNS_RRCLASS_IN_def)
  have cmp: "DnsCompareName (name_memory (DnsServer s)) ?P 12 = Inr 0"
    using compare_own_name [OF assms(1-5) _ d12] assms(6) by (simp add: name_memory_def)
  have wl: "length (wire_name ls') < 40"
    unfolding length_wire_upper(1) [OF assms(4,1)] using assms(3) by simp
  have small: "k \<le> 1024 \<Longrightarrow> mm (word_of_nat k) \<noteq> None" for k
    by (rule mm, subst unat_of_nat_no_wrap) auto
  have l: "length ?P = 16 + length (wire_name ls')" using assms(7,8) by (simp add: dns_query_def)
  have m1: "mm (word_of_nat (length ?P)) \<noteq> None" by (rule small) (use wl l in linarith)
  have m2: "mm (word_of_nat ((sizeof_DNS_HEADER + length (wire_name ls') + sizeof_DNS_QUERY + 2 +
      sizeof_DNS_ANSWER + 2 + 4 + 3) div 4 * 4)) \<noteq> None"
    unfolding sizeof_DNS_HEADER_def sizeof_DNS_QUERY_def sizeof_DNS_ANSWER_def
    by (rule small) (use wl in linarith)
  have off: "DNS_NAME_OFFSET OR word_of_nat sizeof_DNS_HEADER = (0xC00C :: u16)"
    by (simp add: DNS_NAME_OFFSET_def sizeof_DNS_HEADER_def)
  have send: "dns_send mm True (sizeof_DNS_HEADER + length (wire_name ls') + sizeof_DNS_QUERY + 2 +
      sizeof_DNS_ANSWER + 2 + 4) x s = s\<lparr>dns_sent := dns_sent s @ [x]\<rparr>" for x
    using m2 by (auto simp: dns_send_def)
  show ?thesis
    unfolding RecvCb_query [of tid fc ls' mm s 0, OF assms(7-9,5) m1 cmp]
    unfolding DNSAnswerGenAndSend_def send
    by (simp add: off DNS_RRTYPE_A_def DNS_RRCLASS_IN_def DNS_DEFAULT_TTL_def)
qed

definition boot_dns :: dns_state where
  "boot_dns = \<lparr>DnsServer = \<lparr>dnsSocket = False, DnsName = [], HostIp = 0\<rparr>, dns_bound = False, dns_sent = []\<rparr>"

text \<open>The device is called \<open>ap.nu\<close> and has the address 192.168.10.1; the query asks for \<open>AP.nu\<close>.\<close>

lemma dns_answers_own_name_witness:
  "\<exists>s'. DNSS_RecvCb (\<lambda>k. Some (replicate (unat k) 0)) True
      (dns_query [0x12, 0x34] [1, 0, 0, 1, 0, 0, 0, 0, 0, 0] [[0x41, 0x50], [0x6e, 0x75]])
      (snd (DNSS_Start True (Some (True, 0x010AA8C0)) [0x61, 0x70, 0x2e, 0x6e, 0x75] boot_dns)) = Inr s' \<and>
    dns_sent s' = [dns_header [0x12, 0x34] DNS_FLAG2_ERR_NONE 1 @ wire_name [[0x41, 0x50], [0x6e, 0x75]] @
      be16 1 @ be16 1 @ be16 0xC00C @ be16 1 @ be16 1 @ be32 3600 @ be16 4 @ [192, 168, 10, 1]]"
proof -
  let ?s = "snd (DNSS_Start True (Some (True, 0x010AA8C0)) [0x61, 0x70, 0x2e, 0x6e, 0x75] boot_dns)"
  have s: "DnsName (DnsServer ?s) = [0x61, 0x70, 0x2e, 0x6e, 0x75] @ replicate 27 0"
    "HostIp (DnsServer ?s) = 0x010AA8C0" "dns_sent ?s = []"
    by (simp_all add: DNSS_Start_def boot_dns_def)
  have ip: "le32 0x010AA8C0 = [192, 168, 10, 1]" by (simp add: le32_def)
  show ?thesis
    using dns_answers_own_name [of "[[0x61, 0x70], [0x6e, 0x75]]" "[[0x41, 0x50], [0x6e, 0x75]]" ?s
        "[0x12, 0x34]" "[1, 0, 0, 1, 0, 0, 0, 0, 0, 0]" "\<lambda>k. Some (replicate (unat k) 0)"]
    by (simp add: s ip label_ok_def Nst_ToUpper_def)
qed

text \<open>
  The comparison skips the separators: the device called \<open>ab.c\<close> also answers a query whose
  labels are \<open>ab\<close> and \<open>c\<close>, as intended, and one whose labels are \<open>a\<close> and \<open>.c\<close>, which is a
  different name.
\<close>

theorem dns_compare_skips_separators:
  "DnsCompareName ([0x61, 0x62, 0x2e, 0x63] @ replicate 32 0) (wire_name [[0x61, 0x62], [0x63]]) 0 = Inr 0 \<and>
   DnsCompareName ([0x61, 0x62, 0x2e, 0x63] @ replicate 32 0) (wire_name [[0x61], [0x2e, 0x63]]) 0 = Inr 0 \<and>
   DnsCompareName ([0x61, 0x62, 0x2e, 0x63] @ replicate 32 0) (wire_name [[0x61], [0x63]]) 0 = Inr 1"
  by code_simp

end
