(* ===== verification/Checksum.thy ===== *)
theory Checksum
  imports Prelude
begin

text \<open>
  The two checksums of \<open>Sys/util.c\<close>.  \<open>NST_GetCrc8\<close> looks every byte up in a table of 256 entries;
  \<open>NST_GetCrc32\<close> computes the 32 bits of the next remainder from arrays of single bits, with the
  equations of an unrolled shift register, and reflects and complements the result.  Both are
  proved equal to the textbook definition that shifts one bit at a time.
\<close>

section \<open>CRC-8\<close>

definition crc8_tbl :: bytes where
  "crc8_tbl = [
    0, 145, 227, 114, 7, 150, 228, 117, 14, 159, 237, 124, 9, 152, 234, 123,
    28, 141, 255, 110, 27, 138, 248, 105, 18, 131, 241, 96, 21, 132, 246, 103,
    56, 169, 219, 74, 63, 174, 220, 77, 54, 167, 213, 68, 49, 160, 210, 67,
    36, 181, 199, 86, 35, 178, 192, 81, 42, 187, 201, 88, 45, 188, 206, 95,
    112, 225, 147, 2, 119, 230, 148, 5, 126, 239, 157, 12, 121, 232, 154, 11,
    108, 253, 143, 30, 107, 250, 136, 25, 98, 243, 129, 16, 101, 244, 134, 23,
    72, 217, 171, 58, 79, 222, 172, 61, 70, 215, 165, 52, 65, 208, 162, 51,
    84, 197, 183, 38, 83, 194, 176, 33, 90, 203, 185, 40, 93, 204, 190, 47,
    224, 113, 3, 146, 231, 118, 4, 149, 238, 127, 13, 156, 233, 120, 10, 155,
    252, 109, 31, 142, 251, 106, 24, 137, 242, 99, 17, 128, 245, 100, 22, 135,
    216, 73, 59, 170, 223, 78, 60, 173, 214, 71, 53, 164, 209, 64, 50, 163,
    196, 85, 39, 182, 195, 82, 32, 177, 202, 91, 41, 184, 205, 92, 46, 191,
    144, 1, 115, 226, 151, 6, 116, 229, 158, 15, 125, 236, 153, 8, 122, 235,
    140, 29, 111, 254, 139, 26, 104, 249, 130, 19, 97, 240, 133, 20, 102, 247,
    168, 57, 75, 218, 175, 62, 76, 221, 166, 55, 69, 212, 161, 48, 66, 211,
    180, 37, 87, 198, 179, 34, 80, 193, 186, 43, 89, 200, 189, 44, 94, 207]"

text \<open>\<open>while (len-- != 0)\<close>: the remaining length is the last argument.\<close>

fun crc8_loop :: "bytes \<Rightarrow> nat \<Rightarrow> u8 \<Rightarrow> nat \<Rightarrow> u8 outcome" where
  "crc8_loop m p crc8 0 = Inr crc8"
| "crc8_loop m p crc8 (Suc len) =
     ebind (load m p) (\<lambda>data.
     ebind (load crc8_tbl (unat (crc8 XOR data))) (\<lambda>crc8.
     crc8_loop m (p + 1) crc8 len))"

definition NST_GetCrc8 :: "bytes \<Rightarrow> u32 \<Rightarrow> u8 outcome" where
  "NST_GetCrc8 m len = crc8_loop m 0 0 (unat len)"

section \<open>CRC-32\<close>

text \<open>The arrays \<open>in_data_buf\<close> and \<open>crc_buf\<close>; \<open>INT32\<close> is signed, so that its shift is arithmetic.\<close>

definition in_data_buf :: "u8 \<Rightarrow> bytes" where
  "in_data_buf data = map (\<lambda>i. drop_bit i data AND 1) [0..<8]"

definition crc_buf :: "u32 \<Rightarrow> bytes" where
  "crc_buf crc = map (\<lambda>i. ucast (signed_drop_bit i crc) AND 1) [0..<32]"

definition crc_out :: "bytes \<Rightarrow> bytes \<Rightarrow> bytes" where
  "crc_out d c = [
    d ! 1 XOR d ! 7 XOR c ! 30 XOR c ! 24,
    d ! 0 XOR d ! 1 XOR d ! 6 XOR d ! 7 XOR c ! 31 XOR c ! 30 XOR c ! 25 XOR c ! 24,
    d ! 0 XOR d ! 1 XOR d ! 5 XOR d ! 6 XOR d ! 7 XOR c ! 31 XOR c ! 30 XOR c ! 26 XOR c ! 25 XOR c ! 24,
    d ! 0 XOR d ! 4 XOR d ! 5 XOR d ! 6 XOR c ! 31 XOR c ! 27 XOR c ! 26 XOR c ! 25,
    d ! 1 XOR d ! 3 XOR d ! 4 XOR d ! 5 XOR d ! 7 XOR c ! 30 XOR c ! 28 XOR c ! 27 XOR c ! 26 XOR c ! 24,
    d ! 0 XOR d ! 1 XOR d ! 2 XOR d ! 3 XOR d ! 4 XOR d ! 6 XOR d ! 7 XOR c ! 31 XOR c ! 30 XOR c ! 29 XOR c ! 28 XOR c ! 27 XOR c ! 25 XOR c ! 24,
    d ! 0 XOR d ! 1 XOR d ! 2 XOR d ! 3 XOR d ! 5 XOR d ! 6 XOR c ! 31 XOR c ! 30 XOR c ! 29 XOR c ! 28 XOR c ! 26 XOR c ! 25,
    d ! 0 XOR d ! 2 XOR d ! 4 XOR d ! 5 XOR d ! 7 XOR c ! 31 XOR c ! 29 XOR c ! 27 XOR c ! 26 XOR c ! 24,
    d ! 3 XOR d ! 4 XOR d ! 6 XOR d ! 7 XOR c ! 28 XOR c ! 27 XOR c ! 25 XOR c ! 24 XOR c ! 0,
    d ! 2 XOR d ! 3 XOR d ! 5 XOR d ! 6 XOR c ! 29 XOR c ! 28 XOR c ! 26 XOR c ! 25 XOR c ! 1,
    d ! 2 XOR d ! 4 XOR d ! 5 XOR d ! 7 XOR c ! 29 XOR c ! 27 XOR c ! 26 XOR c ! 24 XOR c ! 2,
    d ! 3 XOR d ! 4 XOR d ! 6 XOR d ! 7 XOR c ! 28 XOR c ! 27 XOR c ! 25 XOR c ! 24 XOR c ! 3,
    d ! 1 XOR d ! 2 XOR d ! 3 XOR d ! 5 XOR d ! 6 XOR d ! 7 XOR c ! 30 XOR c ! 29 XOR c ! 28 XOR c ! 26 XOR c ! 25 XOR c ! 24 XOR c ! 4,
    d ! 0 XOR d ! 1 XOR d ! 2 XOR d ! 4 XOR d ! 5 XOR d ! 6 XOR c ! 31 XOR c ! 30 XOR c ! 29 XOR c ! 27 XOR c ! 26 XOR c ! 25 XOR c ! 5,
    d ! 0 XOR d ! 1 XOR d ! 3 XOR d ! 4 XOR d ! 5 XOR c ! 31 XOR c ! 30 XOR c ! 28 XOR c ! 27 XOR c ! 26 XOR c ! 6,
    d ! 0 XOR d ! 2 XOR d ! 3 XOR d ! 4 XOR c ! 31 XOR c ! 29 XOR c ! 28 XOR c ! 27 XOR c ! 7,
    d ! 2 XOR d ! 3 XOR d ! 7 XOR c ! 29 XOR c ! 28 XOR c ! 24 XOR c ! 8,
    d ! 1 XOR d ! 2 XOR d ! 6 XOR c ! 30 XOR c ! 29 XOR c ! 25 XOR c ! 9,
    d ! 0 XOR d ! 1 XOR d ! 5 XOR c ! 31 XOR c ! 30 XOR c ! 26 XOR c ! 10,
    d ! 0 XOR d ! 4 XOR c ! 31 XOR c ! 27 XOR c ! 11,
    d ! 3 XOR c ! 28 XOR c ! 12,
    d ! 2 XOR c ! 29 XOR c ! 13,
    d ! 7 XOR c ! 24 XOR c ! 14,
    d ! 1 XOR d ! 6 XOR d ! 7 XOR c ! 30 XOR c ! 25 XOR c ! 24 XOR c ! 15,
    d ! 0 XOR d ! 5 XOR d ! 6 XOR c ! 31 XOR c ! 26 XOR c ! 25 XOR c ! 16,
    d ! 4 XOR d ! 5 XOR c ! 27 XOR c ! 26 XOR c ! 17,
    d ! 1 XOR d ! 3 XOR d ! 4 XOR d ! 7 XOR c ! 30 XOR c ! 28 XOR c ! 27 XOR c ! 24 XOR c ! 18,
    d ! 0 XOR d ! 2 XOR d ! 3 XOR d ! 6 XOR c ! 31 XOR c ! 29 XOR c ! 28 XOR c ! 25 XOR c ! 19,
    d ! 1 XOR d ! 2 XOR d ! 5 XOR c ! 30 XOR c ! 29 XOR c ! 26 XOR c ! 20,
    d ! 0 XOR d ! 1 XOR d ! 4 XOR c ! 31 XOR c ! 30 XOR c ! 27 XOR c ! 21,
    d ! 0 XOR d ! 3 XOR c ! 31 XOR c ! 28 XOR c ! 22,
    d ! 2 XOR c ! 23 XOR c ! 29]"

text \<open>\<open>if (crc_out[i]) crc_result |= (1 << i);\<close>\<close>

definition collect_bits :: "bytes \<Rightarrow> u32" where
  "collect_bits out = fold (\<lambda>i r. if out ! i \<noteq> 0 then r OR push_bit i 1 else r) [0..<32] 0"

definition cal_crc32 :: "u32 \<Rightarrow> u8 \<Rightarrow> u32" where
  "cal_crc32 crc data = collect_bits (crc_out (in_data_buf data) (crc_buf crc))"

fun crc32_loop :: "bytes \<Rightarrow> nat \<Rightarrow> u32 \<Rightarrow> nat \<Rightarrow> u32 outcome" where
  "crc32_loop m i crc 0 = Inr crc"
| "crc32_loop m i crc (Suc n) = ebind (load m i) (\<lambda>x. crc32_loop m (i + 1) (cal_crc32 crc x) n)"

definition reflect32 :: "u32 \<Rightarrow> u32" where
  "reflect32 crc =
     fold (\<lambda>i val. if signed_drop_bit i crc AND 1 \<noteq> 0 then val OR push_bit (31 - i) 1 else val) [0..<32] 0"

definition NST_GetCrc32 :: "bytes \<Rightarrow> u32 \<Rightarrow> u32 outcome" where
  "NST_GetCrc32 m DataSize =
     ebind (crc32_loop m 0 0xFFFFFFFF (nat (sint DataSize))) (\<lambda>crc. Inr (NOT (reflect32 crc)))"

section \<open>The textbook definitions\<close>

text \<open>One bit at a time, least significant bit first, with the reflected generator polynomial.\<close>

definition crc_bit :: "'a::len word \<Rightarrow> 'a word \<Rightarrow> 'a word" where
  "crc_bit poly r = (if bit r 0 then drop_bit 1 r XOR poly else drop_bit 1 r)"

definition crc_byte :: "'a::len word \<Rightarrow> 'a word \<Rightarrow> u8 \<Rightarrow> 'a word" where
  "crc_byte poly r x = (crc_bit poly ^^ 8) (r XOR ucast x)"

definition crc_ref :: "'a::len word \<Rightarrow> 'a word \<Rightarrow> bytes \<Rightarrow> 'a word" where
  "crc_ref poly init xs = foldl (crc_byte poly) init xs"

section \<open>The table\<close>

text \<open>The shift register is linear, so that an entry is the sum of the entries of its two nibbles.\<close>

lemma crc_bit_xor: "crc_bit poly (x XOR y) = crc_bit poly x XOR crc_bit poly y"
  by (auto simp: crc_bit_def drop_bit_xor bit_xor_iff ac_simps)

lemma crc_bits_xor: "(crc_bit poly ^^ n) (x XOR y) = (crc_bit poly ^^ n) x XOR (crc_bit poly ^^ n) y"
  by (induction n) (simp_all add: crc_bit_xor)

lemma crc_bits8: "(crc_bit poly ^^ 8) r =
  crc_bit poly (crc_bit poly (crc_bit poly (crc_bit poly (crc_bit poly (crc_bit poly (crc_bit poly (crc_bit poly r)))))))"
  by (simp add: numeral_eq_Suc)

lemma crc8_low_nibbles:
  "map (\<lambda>i. (crc_bit 0xE0 ^^ 8) (word_of_nat i :: u8)) [0..<16] =
     [0, 145, 227, 114, 7, 150, 228, 117, 14, 159, 237, 124, 9, 152, 234, 123]"
  by (simp add: crc_bits8 crc_bit_def upt_conv_Cons)

lemma crc8_high_nibbles:
  "map (\<lambda>i. (crc_bit 0xE0 ^^ 8) (word_of_nat (16 * i) :: u8)) [0..<16] =
     [0, 28, 56, 36, 112, 108, 72, 84, 224, 252, 216, 196, 144, 140, 168, 180]"
  by (simp add: crc_bits8 crc_bit_def upt_conv_Cons)

lemma crc8_tbl_grid:
  "crc8_tbl = concat (map (\<lambda>a. map (\<lambda>b. a XOR b)
     [0, 145, 227, 114, 7, 150, 228, 117, 14, 159, 237, 124, 9, 152, 234, 123])
     [0, 28, 56, 36, 112, 108, 72, 84, 224, 252, 216, 196, 144, 140, 168, 180])"
  by (simp add: crc8_tbl_def)

lemma length_crc8_tbl: "length crc8_tbl = 256"
  by (simp add: crc8_tbl_def)

lemma nth_grid:
  "length bs = n \<Longrightarrow> h < length as \<Longrightarrow> l < n \<Longrightarrow>
     concat (map (\<lambda>a. map (f a) bs) as) ! (n * h + l) = f (as ! h) (bs ! l)"
proof (induction as arbitrary: h)
  case (Cons a as)
  then show ?case by (cases h) (auto simp: nth_append)
qed simp

lemma crc8_tbl_nth: "crc8_tbl ! unat x = (crc_bit 0xE0 ^^ 8) x"
proof -
  let ?h = "unat (drop_bit 4 x)" and ?l = "unat (take_bit 4 x)"
  have h: "?h = unat x div 16" by (simp add: drop_bit_eq_div unat_div)
  have l: "?l = unat x mod 16" by (simp add: take_bit_eq_mod unat_mod)
  have lt: "?h < 16" "?l < 16" using unat_u8_less [of x] by (simp_all add: h l)
  have "crc8_tbl ! unat x = crc8_tbl ! (16 * ?h + ?l)" by (simp add: h l)
  also have "\<dots> = (crc_bit 0xE0 ^^ 8) (word_of_nat (16 * ?h)) XOR (crc_bit 0xE0 ^^ 8) (word_of_nat ?l)"
    unfolding crc8_tbl_grid crc8_low_nibbles [symmetric] crc8_high_nibbles [symmetric]
    using lt by (subst nth_grid) simp_all
  also have "\<dots> = (crc_bit 0xE0 ^^ 8) (word_of_nat (16 * ?h) XOR word_of_nat ?l)"
    by (simp add: crc_bits_xor)
  also have "word_of_nat (16 * ?h) XOR word_of_nat ?l = push_bit 4 (drop_bit 4 x) XOR take_bit 4 x"
    by (simp add: push_bit_eq_mult mult.commute)
  also have "\<dots> = x" by (rule bit_word_eqI) (auto simp: bit_simps)
  finally show ?thesis .
qed

lemma crc8_loop_ref:
  "p + n \<le> length m \<Longrightarrow>
     crc8_loop m p c n = Inr (crc_ref 0xE0 c (take n (drop p m)))"
proof (induction n arbitrary: p c)
  case (Suc n)
  have "unat (c XOR m ! p) < length crc8_tbl" using unat_u8_less by (simp add: length_crc8_tbl)
  then show ?case
    using Suc.prems Suc.IH [of "p + 1" "crc_byte 0xE0 c (m ! p)"]
    by (simp add: load_in crc8_tbl_nth crc_byte_def crc_ref_def drop_nth_Cons)
qed (simp add: crc_ref_def)

section \<open>The unrolled step\<close>

lemma word_and_1: "(w :: 'a::len word) AND 1 = of_bool (bit w 0)"
  by (rule bit_word_eqI) (auto simp: bit_and_iff bit_1_iff intro: gr0I)

lemma bit_or_fold:
  "distinct (map g is) \<Longrightarrow> \<forall>i \<in> set is. g i < 32 \<Longrightarrow>
   bit (fold (\<lambda>i r. if P i then r OR push_bit (g i) (1 :: u32) else r) is r) n \<longleftrightarrow>
     bit r n \<or> (\<exists>i \<in> set is. P i \<and> g i = n)"
  by (induction "is" arbitrary: r) (auto simp: bit_or_iff bit_exp_iff possible_bit_word)

lemma bit_collect_bits: "n < 32 \<Longrightarrow> bit (collect_bits out) n \<longleftrightarrow> out ! n \<noteq> 0"
  unfolding collect_bits_def by (subst bit_or_fold [where g = "\<lambda>i. i"]) auto

lemma bit_reflect32: "n < 32 \<Longrightarrow> bit (reflect32 c) n \<longleftrightarrow> bit c (31 - n)"
proof -
  assume n: "n < 32"
  have "signed_drop_bit i c AND 1 \<noteq> 0 \<longleftrightarrow> bit c i" if "i < 32" for i
    using that by (simp add: word_and_1 bit_signed_drop_bit_iff del: bit_0)
  moreover have "inj_on (\<lambda>i. 31 - i) {0..<32::nat}" by (auto simp: inj_on_def)
  ultimately show ?thesis
    unfolding reflect32_def using n
    by (subst bit_or_fold [where g = "\<lambda>i. 31 - i"]) (auto simp: distinct_map intro!: bexI [of _ "31 - n"])
qed

text \<open>Sums of bits are normalised by ordered rewriting, equal summands cancelling.\<close>

definition bxor :: "bool \<Rightarrow> bool \<Rightarrow> bool" where
  "bxor a b \<longleftrightarrow> a \<noteq> b"

lemma bxor_simps:
  "bxor a False = a" "bxor False a = a" "bxor a a = False" "bxor a (bxor a b) = b"
  "bxor (bxor a b) c = bxor a (bxor b c)" "bxor a b = bxor b a" "bxor a (bxor b c) = bxor b (bxor a c)"
  by (auto simp: bxor_def)

lemma of_bool_bxor: "of_bool a XOR of_bool b = (of_bool (bxor a b) :: u8)"
  by (simp add: bxor_def)

lemma in_data_buf_nth: "i < 8 \<Longrightarrow> in_data_buf d ! i = of_bool (bit d i)"
  by (simp add: in_data_buf_def word_and_1 bit_drop_bit_eq del: bit_0)

lemma crc_buf_nth: "i < 32 \<Longrightarrow> crc_buf c ! i = of_bool (bit c i)"
  by (simp add: crc_buf_def word_and_1 bit_ucast_iff bit_signed_drop_bit_iff del: bit_0)

lemma bit_crc_bit:
  "bit (crc_bit poly r) i \<longleftrightarrow> bxor (bit r (i + 1)) (bit r 0 \<and> bit poly i)"
  by (auto simp: crc_bit_def bxor_def bit_xor_iff bit_drop_bit_eq)

lemma bit_reflect32_out: "32 \<le> n \<Longrightarrow> \<not> bit (reflect32 c) n"
  by (auto dest: bit_imp_le_length)

lemma bit_byte_in: "bit (r XOR ucast (x :: u8) :: u32) n \<longleftrightarrow> bxor (bit r n) (n < 8 \<and> bit x n)"
  by (auto simp: bxor_def bit_xor_iff bit_ucast_iff dest: bit_imp_le_length)

lemmas crc32_bits = bit_reflect32 bit_reflect32_out cal_crc32_def bit_collect_bits crc_out_def in_data_buf_nth
  crc_buf_nth of_bool_bxor crc_byte_def crc_bits8 bit_crc_bit bit_byte_in bxor_simps numeral_2_eq_2 [symmetric]

lemma cal_crc32_step: "reflect32 (cal_crc32 c d) = crc_byte 0xEDB88320 (reflect32 c) d"
proof (rule bit_word_eqI)
  have "\<forall>n \<in> set [0..<32]. bit (reflect32 (cal_crc32 c d)) n = bit (crc_byte 0xEDB88320 (reflect32 c) d) n"
    by (simp add: upt_conv_Cons, intro conjI) (simp_all add: crc32_bits)
  then show "bit (reflect32 (cal_crc32 c d)) n = bit (crc_byte 0xEDB88320 (reflect32 c) d) n" if "n < LENGTH(32)" for n
    using that by simp
qed

lemma crc32_loop_ref:
  "i + n \<le> length m \<Longrightarrow>
     \<exists>r. crc32_loop m i c n = Inr r \<and> reflect32 r = crc_ref 0xEDB88320 (reflect32 c) (take n (drop i m))"
proof (induction n arbitrary: i c)
  case (Suc n)
  then show ?case
    using Suc.IH [of "i + 1" "cal_crc32 c (m ! i)"]
    by (simp add: load_in cal_crc32_step crc_ref_def drop_nth_Cons)
qed (simp add: crc_ref_def)

lemma reflect32_ones: "reflect32 0xFFFFFFFF = 0xFFFFFFFF"
proof -
  have m: "(0xFFFFFFFF :: u32) = - 1" by simp
  show ?thesis
    unfolding m by (rule bit_word_eqI) (simp add: bit_reflect32 bit_minus_1_iff possible_bit_word)
qed

section \<open>Properties\<close>

text \<open>
  \<open>NST_GetCrc8\<close> computes, for every message in memory, the checksum of the shift register
  with the reflected polynomial \<open>0xE0\<close> (\<open>x^8 + x^2 + x + 1\<close>) and initial value 0: the table has the
  right entry for every index.
\<close>

theorem crc8_table_correct:
  assumes "unat len \<le> length m"
  shows "NST_GetCrc8 m len = Inr (crc_ref 0xE0 0 (take (unat len) m))"
  using crc8_loop_ref [of 0 "unat len" m 0] assms by (simp add: NST_GetCrc8_def)

theorem crc8_table_correct_witness:
  "NST_GetCrc8 [0x31, 0x32, 0x33] 3 = Inr (crc_ref 0xE0 0 [0x31, 0x32, 0x33])"
  using crc8_table_correct [of 3 "[0x31, 0x32, 0x33]"] by simp

text \<open>
  C23: \<open>NST_GetCrc32\<close> computes the CRC-32 of IEEE 802.3 (reflected polynomial \<open>0xEDB88320\<close>, initial
  value and final complement all ones) of the message, although it works on the unreflected
  remainder, bit by bit in arrays, with 32 explicit equations.
\<close>

theorem crc32_is_ieee:
  assumes "nat (sint sz) \<le> length m"
  shows "NST_GetCrc32 m sz = Inr (NOT (crc_ref 0xEDB88320 0xFFFFFFFF (take (nat (sint sz)) m)))"
  using crc32_loop_ref [of 0 "nat (sint sz)" m "0xFFFFFFFF"] assms
  by (auto simp: NST_GetCrc32_def reflect32_ones)

text \<open>The check value of CRC-32: the checksum of the ASCII digits 1 to 9.\<close>

theorem crc32_is_ieee_witness:
  "NST_GetCrc32 [0x31, 0x32, 0x33, 0x34, 0x35, 0x36, 0x37, 0x38, 0x39] 9 = Inr 0xCBF43926"
  using crc32_is_ieee [of 9 "[0x31, 0x32, 0x33, 0x34, 0x35, 0x36, 0x37, 0x38, 0x39]"]
  by (simp add: crc_ref_def crc_byte_def crc_bits8 crc_bit_def)

end
