(* ===== verification/Base64.thy ===== *)
theory Base64
  imports DynMem "HOL-Library.Signed_Division"
begin

text \<open>
  The base64 coder of \<open>App/NuAgent/Lib/base64.c\<close>.  The output buffer is the block the allocator
  returned for the size the code computes, and every store behind it is a fault; the characters
  are read from the source block in one piece, so that a length behind its end is a fault too.
  The arrays \<open>in\<close> and \<open>block\<close> of the decoder are not initialised by the code and are
  arguments of its loop.  When the output block cannot be allocated the code frees the null pointer, for
  which \<open>OSMFree\<close> reads a header in front of address 0: that path is a fault.
\<close>

section \<open>The table\<close>

definition base64_table :: bytes where
  "base64_table = [
    65, 66, 67, 68, 69, 70, 71, 72, 73, 74, 75, 76, 77, 78, 79, 80, 81, 82, 83, 84, 85, 86, 87, 88, 89, 90,
    97, 98, 99, 100, 101, 102, 103, 104, 105, 106, 107, 108, 109, 110, 111, 112, 113, 114, 115, 116, 117,
    118, 119, 120, 121, 122, 48, 49, 50, 51, 52, 53, 54, 55, 56, 57, 43, 47]"

definition b64_char :: "u8 \<Rightarrow> u8 outcome" where
  "b64_char v = load base64_table (unat v)"

abbreviation NL :: u8 where "NL \<equiv> 10"
abbreviation PAD :: u8 where "PAD \<equiv> 61"

section \<open>Encoding\<close>

text \<open>The four sextets of a block; a missing last byte counts as 0.\<close>

definition sextet0 :: "u8 \<Rightarrow> u8" where "sextet0 a = drop_bit 2 a"
definition sextet1 :: "u8 \<Rightarrow> u8 \<Rightarrow> u8" where "sextet1 a b = push_bit 4 (a AND 0x03) OR drop_bit 4 b"
definition sextet2 :: "u8 \<Rightarrow> u8 \<Rightarrow> u8" where "sextet2 b c = push_bit 2 (b AND 0x0f) OR drop_bit 6 c"
definition sextet3 :: "u8 \<Rightarrow> u8" where "sextet3 c = c AND 0x3f"

text \<open>The size of the output, in the \<open>int\<close> and \<open>size_t\<close> arithmetic of the code.\<close>

definition encode_olen :: "u32 \<Rightarrow> u32" where
  "encode_olen len =
     (let olen = word_of_int (sint (len * 4) sdiv 3) + 4;
          olen = olen + olen div 72
      in olen + 1)"

text \<open>The loop over blocks of three bytes; it stops with the rest of the input.\<close>

fun encode_loop :: "bytes \<Rightarrow> bytes \<Rightarrow> nat \<Rightarrow> int \<Rightarrow> (bytes \<times> bytes \<times> nat \<times> int) outcome" where
  "encode_loop (a # b # c # ins) out pos line_len =
     ebind (b64_char (sextet0 a)) (\<lambda>c0.
     ebind (b64_char (sextet1 a b)) (\<lambda>c1.
     ebind (b64_char (sextet2 b c)) (\<lambda>c2.
     ebind (b64_char (sextet3 c)) (\<lambda>c3.
     ebind (store_n out pos [c0, c1, c2, c3]) (\<lambda>out.
     if line_len + 4 \<ge> 72 then ebind (store out (pos + 4) NL) (\<lambda>out. encode_loop ins out (pos + 5) 0)
     else encode_loop ins out (pos + 4) (line_len + 4))))))"
| "encode_loop ins out pos line_len = Inr (ins, out, pos, line_len)"

text \<open>\<open>if (end - in)\<close>: the last one or two bytes and their padding.\<close>

definition encode_tail :: "bytes \<Rightarrow> bool \<Rightarrow> bytes \<Rightarrow> nat \<Rightarrow> (bytes \<times> nat) outcome" where
  "encode_tail ins one out pos =
     ebind (load ins 0) (\<lambda>a.
     ebind (b64_char (sextet0 a)) (\<lambda>c0.
     if one then ebind (b64_char (sextet1 a 0)) (\<lambda>c1.
       ebind (store_n out pos [c0, c1, PAD, PAD]) (\<lambda>out. Inr (out, pos + 4)))
     else ebind (load ins 1) (\<lambda>b.
       ebind (b64_char (sextet1 a b)) (\<lambda>c1.
       ebind (b64_char (sextet2 b 0)) (\<lambda>c2.
       ebind (store_n out pos [c0, c1, c2, PAD]) (\<lambda>out. Inr (out, pos + 4)))))))"

text \<open>
  A negative length runs no iteration of the loop, but the rest of the input is not empty then.
  The result is the buffer and the value stored in \<open>*out_len\<close>.
\<close>

definition base64_encode :: "mallocator \<Rightarrow> bytes \<Rightarrow> u32 \<Rightarrow> (bytes \<times> nat) option outcome" where
  "base64_encode mm src len =
     (case mm (encode_olen len) of
        None \<Rightarrow> Inl NullPointer
      | Some out \<Rightarrow>
          ebind (load_n src 0 (nat (sint len))) (\<lambda>ins.
          ebind (encode_loop ins out 0 0) (\<lambda>(rest, out, pos, line_len).
          ebind (if sint len < 0 then map_sum id (\<lambda>(out, pos). (out, pos, line_len + 4)) (encode_tail src False out pos)
                 else if rest = [] then Inr (out, pos, line_len)
                 else map_sum id (\<lambda>(out, pos). (out, pos, line_len + 4)) (encode_tail rest (length rest = 1) out pos))
            (\<lambda>(out, pos, line_len).
          ebind (if line_len \<noteq> 0 then map_sum id (\<lambda>out. (out, pos + 1)) (store out pos NL) else Inr (out, pos))
            (\<lambda>(out, pos).
          ebind (store out pos 0) (\<lambda>out. Inr (Some (out, pos))))))))"

section \<open>Decoding\<close>

definition dtable :: bytes where
  "dtable = (fold (\<lambda>i t. t[unat (base64_table ! i) := word_of_nat i]) [0..<64] (replicate 256 0x80))[unat PAD := 0]"

text \<open>State of the loop: \<open>in\<close>, \<open>block\<close>, \<open>count\<close>, the output and \<open>pos\<close>.\<close>

fun decode_loop ::
  "bytes \<Rightarrow> bytes \<Rightarrow> bytes \<Rightarrow> nat \<Rightarrow> bytes \<Rightarrow> nat \<Rightarrow> (bytes \<times> bytes \<times> nat) outcome" where
  "decode_loop [] ins block count out pos = Inr (ins, out, pos)"
| "decode_loop (c # cs) ins block count out pos =
     ebind (load dtable (unat c)) (\<lambda>tmp.
     if tmp = 0x80 then decode_loop cs ins block count out pos
     else ebind (store ins count c) (\<lambda>ins.
          ebind (store block count tmp) (\<lambda>block.
          if count + 1 = 4 then
            ebind (store_n out pos
              [push_bit 2 (block ! 0) OR drop_bit 4 (block ! 1),
               push_bit 4 (block ! 1) OR drop_bit 2 (block ! 2),
               push_bit 6 (block ! 2) OR block ! 3]) (\<lambda>out.
            decode_loop cs ins block 0 out (pos + 3))
          else decode_loop cs ins block (count + 1) out pos)))"

definition base64_decode :: "mallocator \<Rightarrow> bytes \<Rightarrow> bytes \<Rightarrow> bytes \<Rightarrow> u32 \<Rightarrow> (bytes \<times> nat) option outcome" where
  "base64_decode mm ins0 block0 src len =
     ebind (load_n src 0 (unat len)) (\<lambda>cs.
     let count = length (filter (\<lambda>c. dtable ! unat c \<noteq> 0x80) cs) in
     if count mod 4 \<noteq> 0 then Inr None
     else case mm (word_of_nat count) of
        None \<Rightarrow> Inl NullPointer
      | Some out \<Rightarrow>
          ebind (decode_loop cs ins0 block0 0 out 0) (\<lambda>(ins, out, pos).
          Inr (Some (out,
            if pos > 0 then (if ins ! 2 = PAD then pos - 2 else if ins ! 3 = PAD then pos - 1 else pos)
            else pos))))"

section \<open>The text that is produced\<close>

definition chr :: "u8 \<Rightarrow> u8" where
  "chr v = base64_table ! unat v"

fun b64_text :: "nat \<Rightarrow> bytes \<Rightarrow> bytes" where
  "b64_text line (a # b # c # xs) =
     [chr (sextet0 a), chr (sextet1 a b),
      chr (sextet2 b c), chr (sextet3 c)] @
     (if line + 4 \<ge> 72 then NL # b64_text 0 xs else b64_text (line + 4) xs)"
| "b64_text line [a, b] =
     [chr (sextet0 a), chr (sextet1 a b), chr (sextet2 b 0), PAD, NL]"
| "b64_text line [a] = [chr (sextet0 a), chr (sextet1 a 0), PAD, PAD, NL]"
| "b64_text line [] = (if line = 0 then [] else [NL])"

definition quads :: "nat \<Rightarrow> nat" where
  "quads n = (n + 2) div 3"

lemma quads_simps [simp]:
  "quads 0 = 0" "quads (Suc 0) = 1" "quads (Suc (Suc 0)) = 1" "quads (Suc (Suc (Suc n))) = Suc (quads n)"
  by (simp_all add: quads_def)

lemma quads_mod:
  "n mod 3 = 0 \<Longrightarrow> 3 * quads n = n" "n mod 3 = 1 \<Longrightarrow> 3 * quads n = n + 2" "n mod 3 = 2 \<Longrightarrow> 3 * quads n = n + 1"
  unfolding quads_def by presburger+

lemma length_b64_text:
  "line \<le> 68 \<Longrightarrow> line mod 4 = 0 \<Longrightarrow>
     length (b64_text line xs) = 4 * quads (length xs) + (line + 4 * quads (length xs) + 71) div 72"
proof (induction line xs rule: b64_text.induct)
  case (1 line a b c xs)
  have "line = 68 \<or> line \<le> 64" using "1.prems" by presburger
  with 1 show ?case by (auto simp: mod_add_eq [symmetric])
qed auto

text \<open>Text, line feeds and terminator fit into the size the code allocates.\<close>

lemma b64_text_fits:
  "length (b64_text 0 xs) + 1 \<le> length xs * 4 div 3 + 4 + (length xs * 4 div 3 + 4) div 72 + 1"
proof -
  have "4 * quads (length xs) \<le> length xs * 4 div 3 + 3" unfolding quads_def by presburger
  then have "(4 * quads (length xs) + 71) div 72 \<le> (length xs * 4 div 3 + 4) div 72 + 1" by linarith
  with \<open>4 * quads (length xs) \<le> length xs * 4 div 3 + 3\<close> show ?thesis by (simp add: length_b64_text)
qed

section \<open>The encoder writes the text\<close>

lemma unat_less_64: "(\<And>n. n \<ge> 6 \<Longrightarrow> \<not> bit (v :: u8) n) \<Longrightarrow> unat v < 64"
proof -
  assume "\<And>n. n \<ge> 6 \<Longrightarrow> \<not> bit v n"
  then have "take_bit 6 v = v" by (intro bit_word_eqI) (auto simp: bit_take_bit_iff not_le [symmetric])
  then have "unat v = take_bit 6 (unat v)" by (metis unsigned_take_bit_eq)
  also have "\<dots> < 2 ^ 6" by (rule take_bit_nat_less_exp)
  finally show ?thesis by simp
qed

lemma masks: "(0x0f :: u8) = mask 4" "(0x3f :: u8) = mask 6" "(0x03 :: u8) = mask 2"
  by (simp_all add: mask_numeral)

lemma bit_sextets:
  "bit (sextet0 a) n \<longleftrightarrow> bit a (n + 2)"
  "bit (sextet1 a b) n \<longleftrightarrow> 4 \<le> n \<and> n < 6 \<and> bit a (n - 4) \<or> bit b (n + 4)"
  "bit (sextet2 b c) n \<longleftrightarrow> 2 \<le> n \<and> n < 6 \<and> bit b (n - 2) \<or> bit c (n + 6)"
  "bit (sextet3 c) n \<longleftrightarrow> n < 6 \<and> bit c n"
  unfolding sextet0_def sextet1_def sextet2_def sextet3_def masks
  by (auto simp: bit_simps add.commute simp del: mask_numeral push_bit_and dest: bit_imp_le_length)

lemma six_bits [simp]:
  "unat (sextet0 a) < 64" "unat (sextet1 a b) < 64" "unat (sextet2 b c) < 64" "unat (sextet3 c) < 64"
  by (rule unat_less_64; auto simp: bit_sextets dest: bit_imp_le_length)+

lemma length_base64_table: "length base64_table = 64"
  by (simp add: base64_table_def)

lemma b64_char_ok: "unat v < 64 \<Longrightarrow> b64_char v = Inr (chr v)"
  by (simp add: b64_char_def chr_def load_in length_base64_table)

lemmas b64_chars = six_bits [THEN b64_char_ok]

lemma store_4:
  "pos + 4 \<le> length out \<Longrightarrow>
     store_n out pos [p, q, r, t] = Inr (take pos out @ [p, q, r, t] @ drop (pos + 4) out)"
  by (simp add: store_n_def numeral_eq_Suc)

lemma encode_loop_text:
  "pos + length (b64_text line xs) \<le> length out \<Longrightarrow>
   \<exists>rest out' pos' line'. encode_loop xs out pos (int line) = Inr (rest, out', pos', int line') \<and>
     length rest < 3 \<and> length out' = length out \<and> pos \<le> pos' \<and>
     take pos' out' @ b64_text line' rest = take pos out @ b64_text line xs \<and>
     pos' + length (b64_text line' rest) = pos + length (b64_text line xs)"
proof (induction line xs arbitrary: out pos rule: b64_text.induct)
  case (1 line a b c xs)
  let ?q = "[chr (sextet0 a), chr (sextet1 a b),
      chr (sextet2 b c), chr (sextet3 c)]"
  let ?o = "take pos out @ ?q @ drop (pos + 4) out"
  show ?case
  proof (cases "line + 4 \<ge> 72")
    case True
    let ?o2 = "?o[pos + 4 := NL]"
    have len: "pos + 5 \<le> length out" using "1.prems" True by simp
    have t: "take (pos + 5) ?o2 = take pos out @ ?q @ [NL]"
      using len by (simp add: list_update_append take_Suc_conv_app_nth numeral_eq_Suc)
    have "encode_loop (a # b # c # xs) out pos (int line) = encode_loop xs ?o2 (pos + 5) (int 0)"
      using True len by (simp add: b64_chars store_4 store_in)
    moreover have "length ?o2 = length out" using len by simp
    ultimately show ?thesis
      using "1.IH"(1) [OF True, of "pos + 5" ?o2] "1.prems" True t by (auto simp del: list_update.simps)
  next
    case False
    have len: "pos + 4 \<le> length out" using "1.prems" by simp
    have t: "take (pos + 4) ?o = take pos out @ ?q" using len by simp
    have "encode_loop (a # b # c # xs) out pos (int line) = encode_loop xs ?o (pos + 4) (int (line + 4))"
      using False len by (simp add: b64_chars store_4)
    moreover have "length ?o = length out" using len by simp
    ultimately show ?thesis
      using "1.IH"(2) [OF False, of "pos + 4" ?o] "1.prems" False t by auto
  qed
qed (force simp: exI)+

lemma unat_encode_olen:
  assumes "unat len = n" and "n < 2 ^ 28"
  shows "unat (encode_olen len) = n * 4 div 3 + 4 + (n * 4 div 3 + 4) div 72 + 1"
proof -
  have "unat (len * 4) = n * 4" using assms by (simp add: unat_word_ariths)
  then have "sint (len * 4) = int (n * 4)" using assms by (intro sint_nat) simp_all
  then have q: "sint (len * 4) sdiv 3 = int (n * 4 div 3)" by (cases "n = 0") (simp_all add: signed_divide_int_def zdiv_int sgn_if)
  have a: "unat (word_of_int (int (n * 4 div 3)) :: u32) = n * 4 div 3"
    unfolding of_int_of_nat_eq using assms by (intro unat_of_nat_no_wrap) simp
  have x: "unat (word_of_int (int (n * 4 div 3)) + 4 :: u32) = n * 4 div 3 + 4"
    using a assms by (subst unat_add_no_wrap) simp_all
  have grow: "unat (x + x div 72 + 1) = unat x + unat x div 72 + 1" if "unat x < 2 ^ 30" for x :: u32
  proof -
    have "unat (x div 72) = unat x div 72" by (simp add: unat_div)
    then have "unat (x + x div 72) = unat x + unat x div 72" using that by (subst unat_add_no_wrap) simp_all
    then show ?thesis using that by (subst unat_add_no_wrap) simp_all
  qed
  have "unat (word_of_int (int (n * 4 div 3)) + 4 :: u32) < 2 ^ 30" unfolding x using assms by simp
  from grow [OF this] show ?thesis unfolding encode_olen_def Let_def q x .
qed

text \<open>What remains after the loop: the padded block, the line feed and the terminator.\<close>

lemma encode_tail_text:
  assumes "length rest < 3" "rest \<noteq> []" and "pos + 5 \<le> length out"
  shows "\<exists>out'. encode_tail rest (length rest = 1) out pos = Inr (out', pos + 4) \<and>
    length out' = length out \<and> take (pos + 4) out' @ [NL] = take pos out @ b64_text line rest"
proof -
  consider a where "rest = [a]" | a b where "rest = [a, b]"
    using assms(1,2) by (cases rest; cases "tl rest"; cases "tl (tl rest)") auto
  then show ?thesis
    by cases (use assms(3) in \<open>auto simp: encode_tail_def load_def b64_chars store_4\<close>)
qed

lemma base64_encode_text:
  assumes len: "unat len = length xs" "length xs < 2 ^ 28"
    and out: "mm (encode_olen len) = Some out" "length out = unat (encode_olen len)"
  defines "t \<equiv> b64_text 0 xs"
  shows "\<exists>out'. base64_encode mm (xs @ junk) len = Inr (Some (out', length t)) \<and>
    length out' = length out \<and> take (length t) out' = t \<and> out' ! length t = 0"
proof -
  have fits: "length t + 1 \<le> length out"
    using b64_text_fits [of xs] unat_encode_olen [OF len] out(2) by (simp add: t_def)
  have s: "sint len = int (length xs)" using len by (intro sint_nat) simp_all
  obtain rest o1 p1 l1 where l: "encode_loop xs out 0 0 = Inr (rest, o1, p1, int l1)" "length rest < 3"
    "length o1 = length out" "take p1 o1 @ b64_text l1 rest = t" "p1 + length (b64_text l1 rest) = length t"
    using encode_loop_text [of 0 0 xs out] fits by (auto simp: t_def)
  have fin: ?thesis if "ebind (if rest = [] then Inr (o1, p1, int l1)
      else map_sum id (\<lambda>(out, pos). (out, pos, int l1 + 4)) (encode_tail rest (length rest = 1) o1 p1))
      (\<lambda>(out, pos, line_len).
       ebind (if line_len \<noteq> 0 then map_sum id (\<lambda>out. (out, pos + 1)) (store out pos NL) else Inr (out, pos))
         (\<lambda>(out, pos). ebind (store out pos 0) (\<lambda>out. Inr (Some (out, pos))))) = Inr (Some (o2, length t))"
    "length o2 = length out" "take (length t) o2 = t" "o2 ! length t = 0" for o2
    using that s l(1) by (simp add: base64_encode_def out(1) load_n_in)
  show ?thesis
  proof (cases "rest = []")
    case True
    show ?thesis
    proof (cases "l1 = 0")
      case True
      then show ?thesis using \<open>rest = []\<close> l fits by (intro fin [of "o1[p1 := 0]"]) (auto simp: store_in)
    next
      case False
      have p: "Suc p1 = length t" "take p1 o1 @ [NL] = t" using l False True by auto
      have "take (length t) (o1[p1 := NL]) = t"
        unfolding p(1) [symmetric] using p fits l(3) take_Suc_update [of p1 o1 NL] by simp
      then show ?thesis
        using True False l fits by (intro fin [of "o1[p1 := NL, Suc p1 := 0]"]) (auto simp: store_in)
    qed
  next
    case False
    then have r5: "length (b64_text l1 rest) = 5" using l(2) by (cases rest; cases "tl rest"; cases "tl (tl rest)") auto
    obtain o2 where o2: "encode_tail rest (length rest = 1) o1 p1 = Inr (o2, p1 + 4)" "length o2 = length out"
      "take (p1 + 4) o2 @ [NL] = t"
      using encode_tail_text [OF l(2) False, of p1 o1 l1] l fits r5 by auto
    have t5: "length t = p1 + 5" using l(5) r5 by simp
    let ?o = "o2[p1 + 4 := NL, p1 + 5 := 0]"
    have "take (p1 + 5) (o2[p1 + 4 := NL]) = take (p1 + 4) o2 @ [NL]"
      using fits o2(2) t5 take_Suc_update [of "p1 + 4" o2 NL] by (simp add: ac_simps)
    then have tk: "take (length t) ?o = t" unfolding t5 using o2(3) by simp
    show ?thesis
    proof (rule fin [of ?o, OF _ _ tk])
      show "?o ! length t = 0" "length ?o = length out" using t5 fits o2(2) by simp_all
    qed (use False fits o2 t5 in \<open>simp add: store_in ac_simps\<close>)
  qed
qed

section \<open>The decoder reads the text\<close>

lemma fold_update_in:
  "distinct (map g is) \<Longrightarrow> \<forall>i \<in> set is. g i < length t \<Longrightarrow> i \<in> set is \<Longrightarrow>
     fold (\<lambda>i t. t[g i := f i]) is t ! g i = f i"
proof (induction "is" rule: rev_induct)
  case (snoc j "is")
  have "length (fold (\<lambda>i t. t[g i := f i]) is t) = length t" by (induction "is" arbitrary: t) auto
  with snoc show ?case by (auto simp: nth_list_update)
qed simp

lemma fold_update_out:
  "k \<notin> g ` set is \<Longrightarrow> fold (\<lambda>i t. t[g i := f i]) is t ! k = t ! k"
  by (induction "is" arbitrary: t) auto

lemma length_dtable [simp]: "length dtable = 256"
proof -
  have "length (fold (\<lambda>i t. t[g i := f i]) is t) = length t" for g :: "nat \<Rightarrow> nat" and f "is" and t :: bytes
    by (induction "is" arbitrary: t) auto
  then show ?thesis by (simp add: dtable_def)
qed

lemma base64_table_chars: "distinct base64_table" "PAD \<notin> set base64_table" "NL \<notin> set base64_table"
  by (simp_all add: base64_table_def)

lemma map_table: "map (\<lambda>i. unat (base64_table ! i)) [0..<64] = map unat base64_table"
  by (rule nth_equalityI) (simp_all add: length_base64_table)

lemma table_index:
  assumes "x \<notin> set base64_table"
  shows "unat x \<notin> (\<lambda>i. unat (base64_table ! i)) ` set [0..<64]"
  using assms by (auto simp: in_set_conv_nth length_base64_table simp flip: word_unat_eq_iff)

lemma dtable_chr:
  assumes "unat v < 64"
  shows "dtable ! unat (chr v) = v" and "chr v \<noteq> PAD" and "chr v \<noteq> NL"
proof -
  have mem: "chr v \<in> set base64_table" using assms by (simp add: chr_def length_base64_table)
  then show p: "chr v \<noteq> PAD" and "chr v \<noteq> NL" using base64_table_chars by auto
  have d: "distinct (map (\<lambda>i. unat (base64_table ! i)) [0..<64])"
    unfolding map_table using base64_table_chars(1) by (simp add: distinct_map inj_on_def flip: word_unat_eq_iff)
  have ne: "unat (chr v) \<noteq> 61" using p by (simp add: word_unat_eq_iff)
  have "\<forall>i \<in> set [0..<64]. unat (base64_table ! i) < length (replicate 256 (0x80 :: u8))"
    using unat_u8_less by simp
  from fold_update_in [OF d this, of "unat v" "word_of_nat :: nat \<Rightarrow> u8"] ne assms
  show "dtable ! unat (chr v) = v" by (simp add: dtable_def chr_def)
qed

lemma dtable_NL: "dtable ! 10 = 0x80" and dtable_PAD: "dtable ! 61 = 0"
proof -
  have "10 \<notin> (\<lambda>i. unat (base64_table ! i)) ` set [0..<64]" using table_index [of NL] base64_table_chars(3) by simp
  from fold_update_out [OF this, of word_of_nat "replicate 256 0x80"] show "dtable ! 10 = 0x80"
    by (simp add: dtable_def)
  show "dtable ! 61 = 0" using length_dtable by (simp add: dtable_def)
qed

lemma sextet_ne_80: "unat v < 64 \<Longrightarrow> v \<noteq> (0x80 :: u8)"
  by auto

text \<open>One block of four characters, and the line feed that is skipped.\<close>

lemma decode_block:
  assumes "length ins = 4" "length block = 4" "pos + 3 \<le> length out"
    and c: "\<forall>c \<in> {c0, c1, c2, c3}. dtable ! unat c \<noteq> 0x80"
  shows "decode_loop (c0 # c1 # c2 # c3 # cs) ins block 0 out pos =
    decode_loop cs [c0, c1, c2, c3] (map (\<lambda>c. dtable ! unat c) [c0, c1, c2, c3]) 0
      (take pos out @
       [push_bit 2 (dtable ! unat c0) OR drop_bit 4 (dtable ! unat c1),
        push_bit 4 (dtable ! unat c1) OR drop_bit 2 (dtable ! unat c2),
        push_bit 6 (dtable ! unat c2) OR dtable ! unat c3] @ drop (pos + 3) out) (pos + 3)"
proof -
  obtain i0 i1 i2 i3 where i: "ins = [i0, i1, i2, i3]" using assms(1) by (auto simp: numeral_eq_Suc length_Suc_conv)
  obtain b0 b1 b2 b3 where b: "block = [b0, b1, b2, b3]" using assms(2) by (auto simp: numeral_eq_Suc length_Suc_conv)
  have ld: "load dtable (unat c) = Inr (dtable ! unat c)" for c :: u8 using unat_u8_less [of c] by (simp add: load_in)
  show ?thesis
    using c assms(3) by (simp add: ld i b store_def store_n_def numeral_eq_Suc)
qed

lemma decode_NL: "decode_loop (NL # cs) ins block count out pos = decode_loop cs ins block count out pos"
  by (simp add: load_in dtable_NL)

text \<open>The three bytes are recovered from the four sextets.\<close>

lemma bit_byte_out: "8 \<le> n \<Longrightarrow> \<not> bit (v :: u8) n"
  by (auto dest: bit_imp_le_length)

lemma byte_eqI:
  assumes "\<forall>n \<in> {0, 1, 2, 3, 4, 5, 6, 7}. bit v n = bit w n"
  shows "v = (w :: u8)"
proof (rule bit_word_eqI)
  fix n assume "n < LENGTH(8)"
  then have "n \<in> {0, 1, 2, 3, 4, 5, 6, 7}" by auto
  with assms show "bit v n = bit w n" by blast
qed

lemma sextets_join:
  "push_bit 2 (sextet0 a) OR drop_bit 4 (sextet1 a b) = a"
  "push_bit 4 (sextet1 a b) OR drop_bit 2 (sextet2 b c) = b"
  "push_bit 6 (sextet2 b c) OR sextet3 c = c"
  by (rule byte_eqI; simp add: bit_or_iff bit_push_bit_iff bit_drop_bit_eq bit_sextets bit_byte_out numeral_2_eq_2 [symmetric])+

lemma count_text:
  "length (filter (\<lambda>c. dtable ! unat c \<noteq> 0x80) (b64_text line xs)) = 4 * quads (length xs)"
  by (induction line xs rule: b64_text.induct) (auto simp: dtable_chr(1) sextet_ne_80 dtable_PAD dtable_NL)

definition padded :: "bytes \<Rightarrow> nat \<Rightarrow> bool" where
  "padded ins n \<longleftrightarrow> length ins = 4 \<and> (ins ! 2 = PAD \<longleftrightarrow> n mod 3 = 1) \<and> (ins ! 3 = PAD \<longleftrightarrow> n mod 3 \<noteq> 0)"

lemmas decode_chars = dtable_chr sextet_ne_80 sextets_join dtable_PAD

lemma decode_loop_text:
  "length ins = 4 \<Longrightarrow> length block = 4 \<Longrightarrow> pos + 3 * quads (length xs) \<le> length out \<Longrightarrow>
   \<exists>ins' out'. decode_loop (b64_text line xs) ins block 0 out pos = Inr (ins', out', pos + 3 * quads (length xs)) \<and>
     length out' = length out \<and> take (pos + length xs) out' = take pos out @ xs \<and>
     (if xs = [] then ins' = ins else padded ins' (length xs))"
proof (induction line xs arbitrary: ins block out pos rule: b64_text.induct)
  case (1 line a b c xs)
  let ?q = "[chr (sextet0 a), chr (sextet1 a b), chr (sextet2 b c), chr (sextet3 c)]"
  let ?v = "[sextet0 a, sextet1 a b, sextet2 b c, sextet3 c]"
  let ?o = "take pos out @ [a, b, c] @ drop (pos + 3) out"
  have block: "decode_loop (?q @ cs) ins block 0 out pos = decode_loop cs ?q ?v 0 ?o (pos + 3)" for cs
    using decode_block [OF "1.prems"(1,2), of pos out "chr (sextet0 a)" "chr (sextet1 a b)" "chr (sextet2 b c)"
        "chr (sextet3 c)" cs] "1.prems"(3) by (simp add: decode_chars)
  let ?l = "if line + 4 \<ge> 72 then 0 else line + 4"
  have step: "decode_loop (b64_text line (a # b # c # xs)) ins block 0 out pos = decode_loop (b64_text ?l xs) ?q ?v 0 ?o (pos + 3)"
    using block by (cases "line + 4 \<ge> 72") (simp_all add: decode_NL del: decode_loop.simps)
  have q4: "length ?q = 4" "length ?v = 4" and lo: "length ?o = length out"
    and b3: "pos + 3 + 3 * quads (length xs) \<le> length ?o"
    using "1.prems"(3) by simp_all
  obtain ins' out' where r: "decode_loop (b64_text ?l xs) ?q ?v 0 ?o (pos + 3) = Inr (ins', out', pos + 3 + 3 * quads (length xs))"
    "length out' = length ?o" "take (pos + 3 + length xs) out' = take (pos + 3) ?o @ xs"
    "if xs = [] then ins' = ?q else padded ins' (length xs)"
  proof (cases "line + 4 \<ge> 72")
    case True
    from "1.IH"(1) [OF True q4 b3] that show ?thesis unfolding if_P [OF True] by blast
  next
    case False
    from "1.IH"(2) [OF False q4 b3] that show ?thesis unfolding if_not_P [OF False] by blast
  qed
  have pad: "padded ins' (length (a # b # c # xs))"
    using r(4) by (cases "xs = []") (simp_all add: padded_def decode_chars)
  have idx: "pos + length (a # b # c # xs) = pos + 3 + length xs"
    "pos + 3 * quads (length (a # b # c # xs)) = pos + 3 + 3 * quads (length xs)" by simp_all
  have tk: "take (pos + 3) ?o @ xs = take pos out @ a # b # c # xs" using "1.prems"(3) by simp
  show ?case
    unfolding idx step r(1) using r(2,3) pad unfolding lo tk by auto
next
  case (2 line a b)
  then show ?case
    using decode_block [OF 2(1,2), of pos out "chr (sextet0 a)" "chr (sextet1 a b)" "chr (sextet2 b 0)" PAD "[NL]"]
      sextets_join(1) [of a b] sextets_join(2) [of a b 0]
    by (simp add: decode_chars decode_NL padded_def del: decode_loop.simps(2))
next
  case (3 line a)
  then show ?case
    using decode_block [OF 3(1,2), of pos out "chr (sextet0 a)" "chr (sextet1 a 0)" PAD PAD "[NL]"]
      sextets_join(1) [of a 0]
    by (simp add: decode_chars decode_NL padded_def del: decode_loop.simps(2))
qed (simp add: decode_NL del: decode_loop.simps(2))

lemma base64_decode_text:
  assumes mm: "byte_malloc mm limit" and lim: "4 * quads (length xs) \<le> limit"
    and len: "unat len = length (b64_text line xs)" and ins: "length ins = 4" "length block = 4"
  shows "\<exists>out. base64_decode mm ins block (b64_text line xs @ junk) len = Inr (Some (out, length xs)) \<and>
    take (length xs) out = xs"
proof -
  let ?c = "4 * quads (length xs)"
  have u: "unat (word_of_nat ?c :: u32) = ?c"
    using lim byte_malloc.limit_less [OF mm] by (intro unat_of_nat_no_wrap) simp
  then obtain out where out: "mm (word_of_nat ?c) = Some out" "length out = ?c"
    using byte_malloc.mm_total [OF mm, of "word_of_nat ?c"] byte_malloc.mm_length [OF mm] lim by fastforce
  obtain ins' out' where d: "decode_loop (b64_text line xs) ins block 0 out 0 = Inr (ins', out', 3 * quads (length xs))"
    "take (length xs) out' = xs" "if xs = [] then ins' = ins else padded ins' (length xs)"
    using decode_loop_text [OF ins, of 0 xs out line] out(2) by auto
  have n: "(if 3 * quads (length xs) > 0 then (if ins' ! 2 = PAD then 3 * quads (length xs) - 2
      else if ins' ! 3 = PAD then 3 * quads (length xs) - 1 else 3 * quads (length xs)) else 3 * quads (length xs)) = length xs"
  proof (cases "xs = []")
    case False
    then have "0 < length xs" by simp
    then have "0 < quads (length xs)" unfolding quads_def by presburger
    with False d(3) have p: "padded ins' (length xs)" "0 < quads (length xs)" by auto
    consider "length xs mod 3 = 0" | "length xs mod 3 = 1" | "length xs mod 3 = 2" by linarith
    then show ?thesis using p by cases (simp_all add: padded_def quads_mod)
  qed simp
  show ?thesis
    using len d(1,2) n out(1)
    by (simp add: base64_decode_def load_n_in count_text Let_def)
qed

section \<open>Properties\<close>

text \<open>
  C20: What \<open>base64_encode\<close> produces for any byte string is decoded by \<open>base64_decode\<close> to the same
  byte string, whatever the uninitialised arrays of the decoder hold.
\<close>

theorem base64_roundtrip:
  assumes "byte_malloc mm limit" and "length xs < 2 ^ 28" and "2 * length xs + 8 \<le> limit"
    and "length ins = 4" and "length block = 4"
  shows "\<exists>t n out. base64_encode mm xs (word_of_nat (length xs)) = Inr (Some (t, n)) \<and>
    base64_decode mm ins block t (word_of_nat n) = Inr (Some (out, length xs)) \<and> take (length xs) out = xs"
proof -
  let ?len = "word_of_nat (length xs) :: u32" let ?t = "b64_text 0 xs"
  have len: "unat ?len = length xs" using assms(2) by (intro unat_of_nat_no_wrap) simp
  have ol: "unat (encode_olen ?len) \<le> limit" using unat_encode_olen [OF len assms(2)] assms(3) by linarith
  then obtain o1 where o1: "mm (encode_olen ?len) = Some o1" "length o1 = unat (encode_olen ?len)"
    using byte_malloc.mm_total [OF assms(1)] byte_malloc.mm_length [OF assms(1)] by blast
  obtain t where t: "base64_encode mm xs ?len = Inr (Some (t, length ?t))" "length t = length o1" "take (length ?t) t = ?t"
    using base64_encode_text [where mm = mm and junk = "[]", OF len assms(2) o1] by auto
  have tl: "t = ?t @ drop (length ?t) t" using t(3) by (metis append_take_drop_id)
  have "length ?t \<le> limit" using arg_cong [OF tl, of length] t(2) o1(2) ol by simp
  then have "unat (word_of_nat (length ?t) :: u32) = length ?t"
    using byte_malloc.limit_less [OF assms(1)] by (intro unat_of_nat_no_wrap) simp
  moreover have "4 * quads (length xs) \<le> limit" using assms(3) unfolding quads_def by linarith
  ultimately obtain out where "base64_decode mm ins block t (word_of_nat (length ?t)) = Inr (Some (out, length xs))"
    "take (length xs) out = xs"
    using base64_decode_text [OF assms(1), of xs _ 0 ins block "drop (length ?t) t"] assms(4,5) tl by metis
  with t(1) show ?thesis by blast
qed

theorem base64_roundtrip_witness:
  "\<exists>t n out. base64_encode (pool_malloc PCB_ADDR fresh_heap) [0x4d, 0x61, 0x6e, 0xff] 4 = Inr (Some (t, n)) \<and>
    base64_decode (pool_malloc PCB_ADDR fresh_heap) [1, 2, 3, 4] [5, 6, 7, 8] t (word_of_nat n) = Inr (Some (out, 4)) \<and>
    take 4 out = [0x4d, 0x61, 0x6e, 0xff]"
  using base64_roundtrip [OF fresh.byte_malloc_axioms, of "[0x4d, 0x61, 0x6e, 0xff]" "[1, 2, 3, 4]" "[5, 6, 7, 8]"]
  by (simp add: numeral_2_eq_2 [symmetric])

text \<open>
  The encoder stays within the buffer it allocates: with a block of exactly the computed size
  it returns without a fault, the text is terminated inside the block, and its length is four
  characters per three bytes begun, with a line feed after every 72 of them.
\<close>

theorem base64_encode_bounds:
  assumes "unat len = length xs" and "length xs < 2 ^ 28"
    and "mm (encode_olen len) = Some out" and "length out = unat (encode_olen len)"
  shows "\<exists>out' n. base64_encode mm xs len = Inr (Some (out', n)) \<and> length out' = length out \<and>
    n < length out' \<and> out' ! n = 0 \<and>
    n = 4 * ((length xs + 2) div 3) + (4 * ((length xs + 2) div 3) + 71) div 72"
proof -
  obtain out' where "base64_encode mm xs len = Inr (Some (out', length (b64_text 0 xs)))" "length out' = length out"
    "out' ! length (b64_text 0 xs) = 0"
    using base64_encode_text [where mm = mm and junk = "[]", OF assms] by auto
  moreover have "length (b64_text 0 xs) < length out"
    using b64_text_fits [of xs] unat_encode_olen [OF assms(1,2)] assms(4) by simp
  moreover have "length (b64_text 0 xs) = 4 * ((length xs + 2) div 3) + (4 * ((length xs + 2) div 3) + 71) div 72"
    using length_b64_text [of 0 xs] by (simp add: quads_def)
  ultimately show ?thesis by (metis)
qed

theorem base64_encode_bounds_witness:
  "\<exists>out'. base64_encode (\<lambda>k. Some (replicate (unat k) 0)) [0x4d, 0x61] 2 = Inr (Some (out', 5)) \<and> out' ! 5 = 0"
  using base64_encode_bounds [of 2 "[0x4d, 0x61]" "\<lambda>k. Some (replicate (unat k) 0)" "replicate (unat (encode_olen 2)) 0"]
  by auto

end
