(* ===== verification/Aes.thy ===== *)
theory Aes
  imports Prelude
begin

text \<open>
  The block cipher (\<open>Lib/AES.c\<close>) in the configuration of \<open>AES.h\<close>: 128-bit keys, CBC mode.  A state and
  a round key are lists of 16 bytes, column by column as in the code; the text is an array with
  checked access.  Decryption undoes encryption, and the columns are mixed by the matrices of
  FIPS-197 over GF(256).
\<close>

section \<open>Tables\<close>

definition Nk :: nat where "Nk = 4"
definition Nb :: nat where "Nb = 4"
definition Nr :: nat where "Nr = 10"
definition BPOLY :: u8 where "BPOLY = 0x1B"

definition SBox :: bytes where
  "SBox = [
   0x63, 0x7c, 0x77, 0x7b, 0xf2, 0x6b, 0x6f, 0xc5, 0x30, 0x01, 0x67, 0x2b, 0xfe, 0xd7, 0xab, 0x76,
   0xca, 0x82, 0xc9, 0x7d, 0xfa, 0x59, 0x47, 0xf0, 0xad, 0xd4, 0xa2, 0xaf, 0x9c, 0xa4, 0x72, 0xc0,
   0xb7, 0xfd, 0x93, 0x26, 0x36, 0x3f, 0xf7, 0xcc, 0x34, 0xa5, 0xe5, 0xf1, 0x71, 0xd8, 0x31, 0x15,
   0x04, 0xc7, 0x23, 0xc3, 0x18, 0x96, 0x05, 0x9a, 0x07, 0x12, 0x80, 0xe2, 0xeb, 0x27, 0xb2, 0x75,
   0x09, 0x83, 0x2c, 0x1a, 0x1b, 0x6e, 0x5a, 0xa0, 0x52, 0x3b, 0xd6, 0xb3, 0x29, 0xe3, 0x2f, 0x84,
   0x53, 0xd1, 0x00, 0xed, 0x20, 0xfc, 0xb1, 0x5b, 0x6a, 0xcb, 0xbe, 0x39, 0x4a, 0x4c, 0x58, 0xcf,
   0xd0, 0xef, 0xaa, 0xfb, 0x43, 0x4d, 0x33, 0x85, 0x45, 0xf9, 0x02, 0x7f, 0x50, 0x3c, 0x9f, 0xa8,
   0x51, 0xa3, 0x40, 0x8f, 0x92, 0x9d, 0x38, 0xf5, 0xbc, 0xb6, 0xda, 0x21, 0x10, 0xff, 0xf3, 0xd2,
   0xcd, 0x0c, 0x13, 0xec, 0x5f, 0x97, 0x44, 0x17, 0xc4, 0xa7, 0x7e, 0x3d, 0x64, 0x5d, 0x19, 0x73,
   0x60, 0x81, 0x4f, 0xdc, 0x22, 0x2a, 0x90, 0x88, 0x46, 0xee, 0xb8, 0x14, 0xde, 0x5e, 0x0b, 0xdb,
   0xe0, 0x32, 0x3a, 0x0a, 0x49, 0x06, 0x24, 0x5c, 0xc2, 0xd3, 0xac, 0x62, 0x91, 0x95, 0xe4, 0x79,
   0xe7, 0xc8, 0x37, 0x6d, 0x8d, 0xd5, 0x4e, 0xa9, 0x6c, 0x56, 0xf4, 0xea, 0x65, 0x7a, 0xae, 0x08,
   0xba, 0x78, 0x25, 0x2e, 0x1c, 0xa6, 0xb4, 0xc6, 0xe8, 0xdd, 0x74, 0x1f, 0x4b, 0xbd, 0x8b, 0x8a,
   0x70, 0x3e, 0xb5, 0x66, 0x48, 0x03, 0xf6, 0x0e, 0x61, 0x35, 0x57, 0xb9, 0x86, 0xc1, 0x1d, 0x9e,
   0xe1, 0xf8, 0x98, 0x11, 0x69, 0xd9, 0x8e, 0x94, 0x9b, 0x1e, 0x87, 0xe9, 0xce, 0x55, 0x28, 0xdf,
   0x8c, 0xa1, 0x89, 0x0d, 0xbf, 0xe6, 0x42, 0x68, 0x41, 0x99, 0x2d, 0x0f, 0xb0, 0x54, 0xbb, 0x16]"

definition InvSBox :: bytes where
  "InvSBox = [
   0x52, 0x09, 0x6a, 0xd5, 0x30, 0x36, 0xa5, 0x38, 0xbf, 0x40, 0xa3, 0x9e, 0x81, 0xf3, 0xd7, 0xfb,
   0x7c, 0xe3, 0x39, 0x82, 0x9b, 0x2f, 0xff, 0x87, 0x34, 0x8e, 0x43, 0x44, 0xc4, 0xde, 0xe9, 0xcb,
   0x54, 0x7b, 0x94, 0x32, 0xa6, 0xc2, 0x23, 0x3d, 0xee, 0x4c, 0x95, 0x0b, 0x42, 0xfa, 0xc3, 0x4e,
   0x08, 0x2e, 0xa1, 0x66, 0x28, 0xd9, 0x24, 0xb2, 0x76, 0x5b, 0xa2, 0x49, 0x6d, 0x8b, 0xd1, 0x25,
   0x72, 0xf8, 0xf6, 0x64, 0x86, 0x68, 0x98, 0x16, 0xd4, 0xa4, 0x5c, 0xcc, 0x5d, 0x65, 0xb6, 0x92,
   0x6c, 0x70, 0x48, 0x50, 0xfd, 0xed, 0xb9, 0xda, 0x5e, 0x15, 0x46, 0x57, 0xa7, 0x8d, 0x9d, 0x84,
   0x90, 0xd8, 0xab, 0x00, 0x8c, 0xbc, 0xd3, 0x0a, 0xf7, 0xe4, 0x58, 0x05, 0xb8, 0xb3, 0x45, 0x06,
   0xd0, 0x2c, 0x1e, 0x8f, 0xca, 0x3f, 0x0f, 0x02, 0xc1, 0xaf, 0xbd, 0x03, 0x01, 0x13, 0x8a, 0x6b,
   0x3a, 0x91, 0x11, 0x41, 0x4f, 0x67, 0xdc, 0xea, 0x97, 0xf2, 0xcf, 0xce, 0xf0, 0xb4, 0xe6, 0x73,
   0x96, 0xac, 0x74, 0x22, 0xe7, 0xad, 0x35, 0x85, 0xe2, 0xf9, 0x37, 0xe8, 0x1c, 0x75, 0xdf, 0x6e,
   0x47, 0xf1, 0x1a, 0x71, 0x1d, 0x29, 0xc5, 0x89, 0x6f, 0xb7, 0x62, 0x0e, 0xaa, 0x18, 0xbe, 0x1b,
   0xfc, 0x56, 0x3e, 0x4b, 0xc6, 0xd2, 0x79, 0x20, 0x9a, 0xdb, 0xc0, 0xfe, 0x78, 0xcd, 0x5a, 0xf4,
   0x1f, 0xdd, 0xa8, 0x33, 0x88, 0x07, 0xc7, 0x31, 0xb1, 0x12, 0x10, 0x59, 0x27, 0x80, 0xec, 0x5f,
   0x60, 0x51, 0x7f, 0xa9, 0x19, 0xb5, 0x4a, 0x0d, 0x2d, 0xe5, 0x7a, 0x9f, 0x93, 0xc9, 0x9c, 0xef,
   0xa0, 0xe0, 0x3b, 0x4d, 0xae, 0x2a, 0xf5, 0xb0, 0xc8, 0xeb, 0xbb, 0x3c, 0x83, 0x53, 0x99, 0x61,
   0x17, 0x2b, 0x04, 0x7e, 0xba, 0x77, 0xd6, 0x26, 0xe1, 0x69, 0x14, 0x63, 0x55, 0x21, 0x0c, 0x7d]"

section \<open>The steps of a round\<close>

fun RotationWord :: "bytes \<Rightarrow> bytes" where
  "RotationWord (w0 # w1 # w2 # w3 # rest) = w1 # w2 # w3 # w0 # rest"
| "RotationWord p = p"

definition XorBytes :: "bytes \<Rightarrow> bytes \<Rightarrow> nat \<Rightarrow> bytes" where
  "XorBytes pData1 pData2 nCount = map2 (XOR) (take nCount pData1) (take nCount pData2) @ drop nCount pData1"

definition AddRoundKey :: "bytes \<Rightarrow> bytes \<Rightarrow> bytes" where
  "AddRoundKey pState pRoundKey = XorBytes pState pRoundKey (4 * Nb)"

definition SubBytes :: "bytes \<Rightarrow> nat \<Rightarrow> bool \<Rightarrow> bytes" where
  "SubBytes pState nCount bInvert =
     (let pSBox = (if bInvert then InvSBox else SBox) in
      map (\<lambda>b. pSBox ! unat b) (take nCount pState) @ drop nCount pState)"

text \<open>One row: its bytes are read first and then written back \<open>temp\<close> columns further left.\<close>

definition shift_row :: "nat \<Rightarrow> nat \<Rightarrow> bytes \<Rightarrow> bytes" where
  "shift_row r temp pState =
     (let rowData = map (\<lambda>c. pState ! (r + 4 * c)) [0..<4] in
      fold (\<lambda>c p. p[r + 4 * c := rowData ! ((c + temp) mod 4)]) [0..<4] pState)"

definition ShiftRows :: "bytes \<Rightarrow> bool \<Rightarrow> bytes" where
  "ShiftRows pState bInvert = fold (\<lambda>r. shift_row r (if bInvert then 4 - r else r)) [1..<4] pState"

definition GfMultBy02 :: "u8 \<Rightarrow> u8" where
  "GfMultBy02 num = (if num AND 0x80 = 0 then push_bit 1 num else push_bit 1 num XOR BPOLY)"

definition mix_column :: "bool \<Rightarrow> u8 \<Rightarrow> u8 \<Rightarrow> u8 \<Rightarrow> u8 \<Rightarrow> bytes" where
  "mix_column bInvert a0 a1 a2 a3 =
     (let temp = a0 XOR a1 XOR a2 XOR a3;
          r0 = temp XOR a0 XOR GfMultBy02 (a0 XOR a1);
          r1 = temp XOR a1 XOR GfMultBy02 (a1 XOR a2);
          r2 = temp XOR a2 XOR GfMultBy02 (a2 XOR a3);
          r3 = temp XOR a3 XOR GfMultBy02 (a3 XOR a0)
      in if bInvert
         then let a0Pa2_M4 = GfMultBy02 (GfMultBy02 (a0 XOR a2));
                  a1Pa3_M4 = GfMultBy02 (GfMultBy02 (a1 XOR a3));
                  temp = GfMultBy02 (a0Pa2_M4 XOR a1Pa3_M4)
              in [r0 XOR (temp XOR a0Pa2_M4), r1 XOR (temp XOR a1Pa3_M4), r2 XOR (temp XOR a0Pa2_M4), r3 XOR (temp XOR a1Pa3_M4)]
         else [r0, r1, r2, r3])"

text \<open>The loop over the columns; \<open>i\<close> counts those that are left.\<close>

fun mix_columns :: "nat \<Rightarrow> bytes \<Rightarrow> bool \<Rightarrow> bytes" where
  "mix_columns (Suc i) (a0 # a1 # a2 # a3 # rest) bInvert = mix_column bInvert a0 a1 a2 a3 @ mix_columns i rest bInvert"
| "mix_columns i p bInvert = p"

definition MixColumns :: "bytes \<Rightarrow> bool \<Rightarrow> bytes" where
  "MixColumns pState bInvert = mix_columns 4 pState bInvert"

section \<open>Blocks\<close>

text \<open>\<open>&g_roundKeyTable[4*Nb*i]\<close>\<close>

definition round_key :: "bytes \<Rightarrow> nat \<Rightarrow> bytes" where
  "round_key g_roundKeyTable i = drop (4 * Nb * i) g_roundKeyTable"

definition encrypt_round :: "bytes \<Rightarrow> nat \<Rightarrow> bytes \<Rightarrow> bytes" where
  "encrypt_round tbl i pState =
     (let p = ShiftRows (SubBytes pState (4 * Nb) False) False;
          p = (if i \<noteq> Nr then MixColumns p False else p)
      in AddRoundKey p (round_key tbl i))"

definition BlockEncrypt :: "bytes \<Rightarrow> bytes \<Rightarrow> bytes" where
  "BlockEncrypt tbl pState = fold (encrypt_round tbl) [1..<Suc Nr] (AddRoundKey pState tbl)"

definition decrypt_round :: "bytes \<Rightarrow> nat \<Rightarrow> bytes \<Rightarrow> bytes" where
  "decrypt_round tbl i pState =
     (let p = SubBytes (ShiftRows pState True) (4 * Nb) True;
          p = AddRoundKey p (round_key tbl (i - 1))
      in if i \<noteq> 1 then MixColumns p True else p)"

definition BlockDecrypt :: "bytes \<Rightarrow> bytes \<Rightarrow> bytes" where
  "BlockDecrypt tbl pState = fold (decrypt_round tbl) (rev [1..<Suc Nr]) (AddRoundKey pState (round_key tbl Nr))"

section \<open>Key expansion\<close>

text \<open>
  One iteration: \<open>tbl\<close> is the part of the table written so far, \<open>Rcon\<close> the first byte of the round
  constant, whose other bytes are 0.
\<close>

definition expand_step :: "nat \<Rightarrow> bytes \<times> u8 \<Rightarrow> bytes \<times> u8" where
  "expand_step i = (\<lambda>(tbl, Rcon).
     let w = drop (length tbl - 4) tbl;
         (w, Rcon) = (if i mod Nk = 0
                      then (XorBytes (SubBytes (RotationWord w) 4 False) [Rcon, 0, 0, 0] 4, GfMultBy02 Rcon)
                      else if Nk > 6 \<and> i mod Nk = Nb then (SubBytes w 4 False, Rcon)
                      else (w, Rcon));
         w = XorBytes w (drop (length tbl - 4 * Nk) tbl) 4
     in (tbl @ w, Rcon))"

definition AES_Init :: "bytes \<Rightarrow> bytes outcome" where
  "AES_Init pKey =
     ebind (load_n pKey 0 (4 * Nk)) (\<lambda>key. Inr (fst (fold expand_step [Nk..<Nb * (Nr + 1)] (key, 0x01))))"

section \<open>Chained blocks\<close>

text \<open>
  The loops over the text: \<open>i\<close> blocks are left, the current one starts at \<open>off\<close>.  \<open>pIV\<close> holds the
  16 bytes the pointer refers to; encryption moves it to the block it has just written, decryption
  runs backwards and finds them in front of the block.
\<close>

primrec encrypt_loop :: "nat \<Rightarrow> nat \<Rightarrow> bytes \<Rightarrow> bytes \<Rightarrow> bytes \<Rightarrow> bytes outcome" where
  "encrypt_loop 0 off tbl pIV buf = Inr buf"
| "encrypt_loop (Suc i) off tbl pIV buf =
     ebind (load_n pIV 0 (4 * Nb)) (\<lambda>iv.
     ebind (load_n buf off (4 * Nb)) (\<lambda>p.
     let p = BlockEncrypt tbl (XorBytes p iv (4 * Nb)) in
     ebind (store_n buf off p) (\<lambda>buf. encrypt_loop i (off + 4 * Nb) tbl p buf)))"

definition AES_Encrypt :: "bytes \<Rightarrow> bytes \<Rightarrow> nat \<Rightarrow> bytes \<Rightarrow> bytes outcome" where
  "AES_Encrypt tbl pPlainText nDataLen pIV =
     ebind (load_n pPlainText 0 nDataLen) (\<lambda>buf. encrypt_loop (nDataLen div (4 * Nb)) 0 tbl pIV buf)"

fun decrypt_loop :: "nat \<Rightarrow> nat \<Rightarrow> bytes \<Rightarrow> bytes \<Rightarrow> bytes \<Rightarrow> bytes outcome" where
  "decrypt_loop 0 off tbl pIV buf = Inr buf"
| "decrypt_loop (Suc i) off tbl pIV buf =
     ebind (load_n buf off (4 * Nb)) (\<lambda>p.
     ebind (if i = 0 then load_n pIV 0 (4 * Nb) else load_n buf (off - 4 * Nb) (4 * Nb)) (\<lambda>iv.
     ebind (store_n buf off (XorBytes (BlockDecrypt tbl p) iv (4 * Nb))) (\<lambda>buf.
     decrypt_loop i (off - 4 * Nb) tbl pIV buf)))"

definition AES_Decrypt :: "bytes \<Rightarrow> bytes \<Rightarrow> nat \<Rightarrow> bytes \<Rightarrow> bytes outcome" where
  "AES_Decrypt tbl pCipherText nDataLen pIV =
     ebind (load_n pCipherText 0 nDataLen) (\<lambda>buf. decrypt_loop (nDataLen div (4 * Nb)) (nDataLen - 4 * Nb) tbl pIV buf)"

section \<open>Each step can be undone\<close>

lemma xor_cancel [simp]:
  fixes a b :: u8
  shows "a XOR (a XOR b) = b" "(a XOR b) XOR b = a"
  by (simp_all add: xor.assoc [symmetric]) (simp add: xor.assoc)

lemma length_SBox [simp]: "length SBox = 256" "length InvSBox = 256"
  by (simp_all add: SBox_def InvSBox_def)

lemma SBox_table: "map (\<lambda>b. InvSBox ! unat b) SBox = map word_of_nat [0..<256]"
  by code_simp

lemma InvSBox_SBox: "InvSBox ! unat (SBox ! unat (b :: u8)) = b"
proof -
  have "unat b < 256" by (rule unat_u8_less)
  then have "map (\<lambda>b. InvSBox ! unat b) SBox ! unat b = InvSBox ! unat (SBox ! unat b)" by simp
  then show ?thesis using \<open>unat b < 256\<close> by (simp add: SBox_table)
qed

lemma list16:
  assumes "length (p :: bytes) = 16"
  obtains a0 a1 a2 a3 a4 a5 a6 a7 a8 a9 a10 a11 a12 a13 a14 a15 where
    "p = [a0, a1, a2, a3, a4, a5, a6, a7, a8, a9, a10, a11, a12, a13, a14, a15]"
  using assms by (auto simp: length_Suc_conv numeral_eq_Suc)

lemma SubBytes_inverse: "length p \<le> n \<Longrightarrow> SubBytes (SubBytes p n False) n True = p"
  by (simp add: SubBytes_def o_def InvSBox_SBox)

lemma ShiftRows_inverse: "length p = 16 \<Longrightarrow> ShiftRows (ShiftRows p False) True = p"
  by (elim list16) (simp add: ShiftRows_def shift_row_def upt_rec nth_Cons_numeral)

lemma and_80_bit: "(a :: u8) AND 0x80 = 0 \<longleftrightarrow> \<not> bit a 7"
  using and_exp_eq_0_iff_not_bit [of a 7] by simp

lemma GfMultBy02_xor: "GfMultBy02 (a XOR b) = GfMultBy02 a XOR GfMultBy02 b"
  unfolding GfMultBy02_def and_80_bit by (simp add: bit_xor_iff push_bit_xor ac_simps)

lemma GfMultBy02_0 [simp]: "GfMultBy02 0 = 0"
  by (simp add: GfMultBy02_def)

lemma mix_column_inverse:
  assumes "mix_column False a0 a1 a2 a3 = [b0, b1, b2, b3]"
  shows "mix_column True b0 b1 b2 b3 = [a0, a1, a2, a3]"
proof -
  let ?M = GfMultBy02 let ?t = "a0 XOR a1 XOR a2 XOR a3"
  have b: "b0 = ?t XOR a0 XOR ?M (a0 XOR a1)" "b1 = ?t XOR a1 XOR ?M (a1 XOR a2)"
    "b2 = ?t XOR a2 XOR ?M (a2 XOR a3)" "b3 = ?t XOR a3 XOR ?M (a3 XOR a0)"
    using assms by (simp_all add: mix_column_def Let_def)
  show ?thesis unfolding b by (simp add: mix_column_def Let_def GfMultBy02_xor ac_simps)
qed

lemma mix_column_length: "\<exists>b0 b1 b2 b3. mix_column invert a0 a1 a2 a3 = [b0, b1, b2, b3]"
  by (simp add: mix_column_def Let_def)

lemma mix_columns_inverse: "length p = 4 * n \<Longrightarrow> mix_columns n (mix_columns n p False) True = p"
proof (induction n p False rule: mix_columns.induct)
  case (1 i a0 a1 a2 a3 rest)
  obtain b0 b1 b2 b3 where b: "mix_column False a0 a1 a2 a3 = [b0, b1, b2, b3]" using mix_column_length by blast
  then show ?case using 1 mix_column_inverse [OF b] by simp
qed auto

lemma MixColumns_inverse: "length p = 16 \<Longrightarrow> MixColumns (MixColumns p False) True = p"
  by (simp add: MixColumns_def mix_columns_inverse)

lemma AddRoundKey_inverse: "length p = 16 \<Longrightarrow> 16 \<le> length k \<Longrightarrow> AddRoundKey (AddRoundKey p k) k = p"
  by (rule nth_equalityI) (simp_all add: AddRoundKey_def XorBytes_def Nb_def xor.assoc)

lemma length_steps [simp]:
  "length (SubBytes p n invert) = length p"
  "length (ShiftRows p invert) = length p"
  "length p = 16 \<Longrightarrow> length (MixColumns p invert) = 16"
  "length p = 16 \<Longrightarrow> 16 \<le> length k \<Longrightarrow> length (AddRoundKey p k) = 16"
proof -
  show "length (SubBytes p n invert) = length p" by (simp add: SubBytes_def Let_def)
  have "length (fold (\<lambda>c p. p[r + 4 * c := f c]) cs p) = length p" for r cs p and f :: "nat \<Rightarrow> u8"
    by (induction cs arbitrary: p) simp_all
  then have "length (shift_row r k p) = length p" for r k p by (simp add: shift_row_def Let_def)
  then show "length (ShiftRows p invert) = length p" by (simp add: ShiftRows_def upt_rec)
  have "length p = 4 * n \<Longrightarrow> length (mix_columns n p invert) = 4 * n" for n
  proof (induction n p invert rule: mix_columns.induct)
    case (1 i a0 a1 a2 a3 rest invert)
    then show ?case using mix_column_length [of invert a0 a1 a2 a3] by auto
  qed auto
  from this [of 4] show "length p = 16 \<Longrightarrow> length (MixColumns p invert) = 16" by (simp add: MixColumns_def)
  show "length p = 16 \<Longrightarrow> 16 \<le> length k \<Longrightarrow> length (AddRoundKey p k) = 16" by (simp add: AddRoundKey_def XorBytes_def Nb_def)
qed

section \<open>A block and back\<close>

lemma length_round_key: "length tbl = 176 \<Longrightarrow> i \<le> Nr \<Longrightarrow> 16 \<le> length (round_key tbl i)"
  by (simp add: round_key_def Nb_def Nr_def)

lemma length_rounds:
  assumes "length tbl = 176" "length p = 16"
  shows "k \<le> Nr \<Longrightarrow> length (fold (encrypt_round tbl) [1..<Suc k] p) = 16"
  using assms length_round_key [OF assms(1)] by (induction k) (auto simp: encrypt_round_def Let_def)

text \<open>
  After \<open>k - 1\<close> rounds the state is \<open>x\<close>; the decryption undoes them starting from the state in the
  middle of round \<open>k\<close>, before the columns are mixed.
\<close>

lemma decrypt_middle:
  assumes "length tbl = 176" "length x = 16" "Suc k < Nr"
  shows "decrypt_round tbl (Suc (Suc k)) (ShiftRows (SubBytes (encrypt_round tbl (Suc k) x) (4 * Nb) False) False) =
    ShiftRows (SubBytes x (4 * Nb) False) False"
proof -
  have "16 \<le> length (round_key tbl (Suc k))" using length_round_key [OF assms(1)] assms(3) by simp
  then show ?thesis
    using assms(2,3) by (simp add: decrypt_round_def encrypt_round_def Let_def ShiftRows_inverse SubBytes_inverse AddRoundKey_inverse MixColumns_inverse Nb_def)
qed

lemma decrypt_rounds:
  assumes tbl: "length tbl = 176" and p: "length p = 16"
  shows "k < Nr \<Longrightarrow> fold (decrypt_round tbl) (rev [1..<Suc (Suc k)])
      (ShiftRows (SubBytes (fold (encrypt_round tbl) [1..<Suc k] (AddRoundKey p tbl)) (4 * Nb) False) False) = p"
proof (induction k)
  case 0
  have "length (AddRoundKey p tbl) = 16" using tbl p by simp
  then show ?case
    using tbl p by (simp add: decrypt_round_def Let_def ShiftRows_inverse SubBytes_inverse AddRoundKey_inverse Nb_def round_key_def)
next
  case (Suc k)
  let ?x = "fold (encrypt_round tbl) [1..<Suc k] (AddRoundKey p tbl)"
  have x: "length ?x = 16" using length_rounds [OF tbl, of "AddRoundKey p tbl" k] tbl p Suc.prems by simp
  have "fold (encrypt_round tbl) [1..<Suc (Suc k)] (AddRoundKey p tbl) = encrypt_round tbl (Suc k) ?x"
    "rev [1..<Suc (Suc (Suc k))] = Suc (Suc k) # rev [1..<Suc (Suc k)]"
    by simp_all
  then show ?case using Suc decrypt_middle [OF tbl x] by (simp only: fold_Cons o_apply)
qed

lemma BlockDecrypt_BlockEncrypt:
  assumes tbl: "length tbl = 176" and p: "length p = 16"
  shows "BlockDecrypt tbl (BlockEncrypt tbl p) = p" "length (BlockEncrypt tbl p) = 16"
proof -
  let ?x = "fold (encrypt_round tbl) [1..<Suc 9] (AddRoundKey p tbl)"
  let ?m = "ShiftRows (SubBytes ?x (4 * Nb) False) False"
  have nr: "Nr = Suc 9" by (simp add: Nr_def)
  have x: "length ?x = 16" using length_rounds [OF tbl, of "AddRoundKey p tbl" 9] tbl p by (simp add: Nr_def)
  have rk: "16 \<le> length (round_key tbl Nr)" using length_round_key [OF tbl] by simp
  have "[1..<Suc Nr] = [1..<Suc 9] @ [Nr]" unfolding nr by (rule upt_Suc_append) simp
  then have "BlockEncrypt tbl p = encrypt_round tbl Nr ?x" by (simp add: BlockEncrypt_def del: upt_Suc)
  then have e: "BlockEncrypt tbl p = AddRoundKey ?m (round_key tbl Nr)" by (simp add: encrypt_round_def Let_def)
  have "AddRoundKey (AddRoundKey ?m (round_key tbl Nr)) (round_key tbl Nr) = ?m" using x rk by (simp add: AddRoundKey_inverse)
  then show "BlockDecrypt tbl (BlockEncrypt tbl p) = p"
    using decrypt_rounds [OF tbl p, of 9] unfolding BlockDecrypt_def e nr by (simp del: upt_Suc)
  show "length (BlockEncrypt tbl p) = 16" using x rk by (simp add: e)
qed

lemma length_BlockDecrypt:
  assumes tbl: "length tbl = 176" and p: "length p = 16"
  shows "length (BlockDecrypt tbl p) = 16"
proof -
  have fl: "length (fold (decrypt_round tbl) is p) = 16" if "length p = 16" "\<forall>i \<in> set is. i \<le> Nr" for "is" p
    using that
  proof (induction "is" arbitrary: p)
    case (Cons i "is")
    have "16 \<le> length (round_key tbl (i - 1))" using Cons.prems(2) by (intro length_round_key [OF tbl]) auto
    then have "length (AddRoundKey (SubBytes (ShiftRows p True) (4 * Nb) True) (round_key tbl (i - 1))) = 16"
      using Cons.prems(1) by simp
    then have "length (decrypt_round tbl i p) = 16" unfolding decrypt_round_def Let_def by (cases "i = 1") auto
    then show ?case using Cons by simp
  qed simp
  have "length (AddRoundKey p (round_key tbl Nr)) = 16" using p length_round_key [OF tbl] by simp
  then show ?thesis unfolding BlockDecrypt_def by (intro fl) auto
qed

section \<open>Chained blocks and back\<close>

fun cbc_encrypt :: "bytes \<Rightarrow> bytes \<Rightarrow> bytes list \<Rightarrow> bytes list" where
  "cbc_encrypt tbl iv [] = []"
| "cbc_encrypt tbl iv (b # bs) = (let c = BlockEncrypt tbl (XorBytes b iv 16) in c # cbc_encrypt tbl c bs)"

fun cbc_decrypt :: "bytes \<Rightarrow> bytes \<Rightarrow> bytes list \<Rightarrow> bytes list" where
  "cbc_decrypt tbl iv [] = []"
| "cbc_decrypt tbl iv (c # cs) = XorBytes (BlockDecrypt tbl c) iv 16 # cbc_decrypt tbl c cs"

definition blocks :: "bytes list \<Rightarrow> bool" where
  "blocks bs \<longleftrightarrow> (\<forall>b \<in> set bs. length b = 16)"

lemma blocks_simps [simp]:
  "blocks []" "blocks (b # bs) \<longleftrightarrow> length b = 16 \<and> blocks bs" "blocks (bs @ cs) \<longleftrightarrow> blocks bs \<and> blocks cs"
  by (auto simp: blocks_def)

lemma length_blocks: "blocks bs \<Longrightarrow> length (concat bs) = 16 * length bs"
  by (induction bs) auto

lemma blocks_of: "length p = 16 * n \<Longrightarrow> \<exists>bs. blocks bs \<and> length bs = n \<and> p = concat bs"
proof (induction n arbitrary: p)
  case (Suc n)
  have "length (drop 16 p) = 16 * n" using Suc.prems by simp
  then obtain bs where "blocks bs" "length bs = n" "drop 16 p = concat bs" using Suc.IH by blast
  then have "blocks (take 16 p # bs) \<and> length (take 16 p # bs) = Suc n \<and> p = concat (take 16 p # bs)"
    using Suc.prems by (simp add: append_take_drop_id flip: \<open>drop 16 p = concat bs\<close>)
  then show ?case by blast
qed simp

lemma XorBytes_16: "length p = 16 \<Longrightarrow> length k = 16 \<Longrightarrow> length (XorBytes p k 16) = 16"
  by (simp add: XorBytes_def)

lemma XorBytes_cancel: "length p = 16 \<Longrightarrow> length k = 16 \<Longrightarrow> XorBytes (XorBytes p k 16) k 16 = p"
  by (rule nth_equalityI) (simp_all add: XorBytes_def xor.assoc)

lemma cbc_inverse:
  assumes tbl: "length tbl = 176"
  shows "blocks bs \<Longrightarrow> length iv = 16 \<Longrightarrow> cbc_decrypt tbl iv (cbc_encrypt tbl iv bs) = bs \<and>
    blocks (cbc_encrypt tbl iv bs) \<and> length (cbc_encrypt tbl iv bs) = length bs"
proof (induction bs arbitrary: iv)
  case (Cons b bs)
  let ?x = "XorBytes b iv 16" let ?c = "BlockEncrypt tbl ?x"
  have x: "length ?x = 16" using Cons.prems by (simp add: XorBytes_16)
  note c = BlockDecrypt_BlockEncrypt [OF tbl x]
  show ?case using Cons.IH [of ?c] Cons.prems c by (simp add: Let_def XorBytes_cancel)
qed simp

lemma encrypt_loop_blocks:
  assumes tbl: "length tbl = 176"
  shows "blocks bs \<Longrightarrow> 16 \<le> length pIV \<Longrightarrow>
    encrypt_loop (length bs) (length pre) tbl pIV (pre @ concat bs) = Inr (pre @ concat (cbc_encrypt tbl (take 16 pIV) bs))"
proof (induction bs arbitrary: pre pIV)
  case (Cons b bs)
  let ?x = "XorBytes b (take 16 pIV) 16" let ?c = "BlockEncrypt tbl ?x"
  have "length ?x = 16" using Cons.prems by (simp add: XorBytes_16)
  then have c: "length ?c = 16" using BlockDecrypt_BlockEncrypt(2) [OF tbl] by blast
  then have "encrypt_loop (length bs) (length (pre @ ?c)) tbl ?c ((pre @ ?c) @ concat bs) =
      Inr ((pre @ ?c) @ concat (cbc_encrypt tbl (take 16 ?c) bs))"
    using Cons.prems by (intro Cons.IH) simp_all
  then show ?case using Cons.prems c by (simp add: Nb_def load_n_def store_n_def Let_def)
qed simp

lemma cbc_decrypt_snoc:
  "cbc_decrypt tbl iv (cs @ [c]) = cbc_decrypt tbl iv cs @ [XorBytes (BlockDecrypt tbl c) (last (iv # cs)) 16]"
  by (induction cs arbitrary: iv) auto

lemma decrypt_loop_blocks:
  "blocks cs \<Longrightarrow> 16 \<le> length pIV \<Longrightarrow> (\<And>c. c \<in> set cs \<Longrightarrow> length (BlockDecrypt tbl c) = 16) \<Longrightarrow>
    decrypt_loop (length cs) (16 * length cs - 16) tbl pIV (concat cs @ post) = Inr (concat (cbc_decrypt tbl (take 16 pIV) cs) @ post)"
proof (induction cs arbitrary: post rule: rev_induct)
  case (snoc c cs)
  let ?iv = "last (take 16 pIV # cs)" let ?p = "XorBytes (BlockDecrypt tbl c) ?iv 16" let ?n = "16 * length cs"
  have len: "length (concat cs) = ?n" "length c = 16" "length ?iv = 16"
    using snoc.prems(1,2) length_blocks [of cs] by (auto simp: blocks_def split: if_splits)
  have p: "length ?p = 16" using snoc.prems(3) len by (simp add: XorBytes_16)
  have iv: "(if length cs = 0 then load_n pIV 0 16 else load_n (concat (cs @ [c]) @ post) (?n - 16) 16) = Inr ?iv"
  proof (cases cs rule: rev_cases)
    case Nil
    then show ?thesis using snoc.prems(2) by (simp add: load_n_def)
  next
    case (snoc ds d)
    then show ?thesis using len snoc.prems(1) length_blocks [of ds] by (simp add: load_n_def)
  qed
  have ld: "load_n (concat (cs @ [c]) @ post) ?n 16 = Inr c" "store_n (concat (cs @ [c]) @ post) ?n ?p = Inr (concat cs @ ?p @ post)"
    using len p by (simp_all add: load_n_def store_n_def)
  have "decrypt_loop (length (cs @ [c])) (16 * length (cs @ [c]) - 16) tbl pIV (concat (cs @ [c]) @ post) =
      decrypt_loop (length cs) (?n - 16) tbl pIV (concat cs @ ?p @ post)"
    using ld iv by (cases "cs = []") (simp_all add: Nb_def)
  also have "\<dots> = Inr (concat (cbc_decrypt tbl (take 16 pIV) cs) @ ?p @ post)"
    using snoc.prems by (intro snoc.IH) auto
  finally show ?case by (simp add: cbc_decrypt_snoc)
qed simp

lemma length_expand: "16 \<le> length (fst s) \<Longrightarrow> length (fst (fold expand_step is s)) = length (fst s) + 4 * length is"
proof (induction "is" arbitrary: s)
  case (Cons i "is")
  have w: "length (XorBytes w k 4) = 4" if "length w = 4" "4 \<le> length k" for w k using that by (simp add: XorBytes_def)
  have r: "length w = 4 \<Longrightarrow> length (RotationWord w) = 4" for w by (cases w rule: RotationWord.cases) auto
  have "length (fst (expand_step i s)) = length (fst s) + 4"
    using Cons.prems w r by (cases s) (simp add: expand_step_def Let_def Nk_def SubBytes_def)
  then show ?case using Cons by simp
qed simp

lemma AES_Init_ok: "16 \<le> length pKey \<Longrightarrow> \<exists>tbl. AES_Init pKey = Inr tbl \<and> length tbl = 176"
  using length_expand [of "(take 16 pKey, 1)" "[4..<44]"] by (simp add: AES_Init_def load_n_def Nk_def Nb_def Nr_def)

text \<open>
  C21: What \<open>AES_Encrypt\<close> makes of a text whose length is a multiple of 16, under any key and
  initialisation vector, \<open>AES_Decrypt\<close> turns back into the text; both stay inside the buffers.
\<close>

theorem aes_cbc_roundtrip:
  assumes "16 \<le> length pKey" "16 \<le> length pIV" "16 dvd length plain"
  shows "\<exists>tbl cipher. AES_Init pKey = Inr tbl \<and> AES_Encrypt tbl plain (length plain) pIV = Inr cipher \<and>
    length cipher = length plain \<and> AES_Decrypt tbl cipher (length plain) pIV = Inr plain"
proof -
  obtain tbl where tbl: "AES_Init pKey = Inr tbl" "length tbl = 176" using AES_Init_ok assms(1) by blast
  obtain bs where bs: "blocks bs" "plain = concat bs" using blocks_of assms(3) by (metis dvd_def)
  let ?cs = "cbc_encrypt tbl (take 16 pIV) bs"
  have len: "length plain = 16 * length bs" using bs length_blocks by simp
  have inv: "cbc_decrypt tbl (take 16 pIV) ?cs = bs" "blocks ?cs" "length ?cs = length bs"
    using cbc_inverse [OF tbl(2) bs(1), of "take 16 pIV"] assms(2) by auto
  have "AES_Encrypt tbl plain (length plain) pIV = Inr (concat ?cs)"
    using encrypt_loop_blocks [OF tbl(2) bs(1) assms(2), of "[]"] len bs(2) by (simp add: AES_Encrypt_def load_n_def Nb_def)
  moreover have l: "length (concat ?cs) = length plain" using length_blocks [OF inv(2)] inv(3) len by simp
  moreover have "AES_Decrypt tbl (concat ?cs) (length plain) pIV = Inr plain"
  proof -
    have "length (BlockDecrypt tbl c) = 16" if "c \<in> set ?cs" for c
      using length_BlockDecrypt [OF tbl(2)] inv(2) that by (simp add: blocks_def)
    from decrypt_loop_blocks [OF inv(2) assms(2) this, of "[]"] show ?thesis
      using inv(1,3) len l bs(2) by (simp add: AES_Decrypt_def load_n_def Nb_def)
  qed
  ultimately show ?thesis using tbl(1) by blast
qed

theorem aes_cbc_roundtrip_witness:
  "\<exists>tbl cipher. AES_Init (map word_of_nat [0..<16]) = Inr tbl \<and> AES_Encrypt tbl (replicate 32 0x41) 32 (replicate 16 0) = Inr cipher \<and>
     AES_Decrypt tbl cipher 32 (replicate 16 0) = Inr (replicate 32 0x41)"
  using aes_cbc_roundtrip [of "map word_of_nat [0..<16]" "replicate 16 0" "replicate 32 0x41"] by auto

section \<open>The columns in GF(256)\<close>

text \<open>
  Multiplication of polynomials over GF(2) modulo \<open>x ^ 8 + x ^ 4 + x ^ 3 + x + 1\<close>: \<open>xtime\<close>
  multiplies by \<open>x\<close>, \<open>gmul\<close> adds the multiples of \<open>a\<close> for the bits of \<open>b\<close>.
\<close>

definition xtime :: "u8 \<Rightarrow> u8" where
  "xtime a = (let p = push_bit 1 (ucast a :: u16) in ucast (if bit p 8 then p XOR 0x11B else p))"

primrec gmul_steps :: "nat \<Rightarrow> u8 \<Rightarrow> u8 \<Rightarrow> u8" where
  "gmul_steps 0 a b = 0"
| "gmul_steps (Suc n) a b = (if bit b 0 then a else 0) XOR gmul_steps n (xtime a) (drop_bit 1 b)"

definition gmul :: "u8 \<Rightarrow> u8 \<Rightarrow> u8" where
  "gmul a b = gmul_steps 8 a b"

text \<open>The matrices of FIPS-197 are circulant: row \<open>r\<close> is the first row rotated \<open>r\<close> places to the right.\<close>

definition mix_matrix :: "bool \<Rightarrow> u8 list" where
  "mix_matrix bInvert = (if bInvert then [0x0e, 0x0b, 0x0d, 0x09] else [0x02, 0x03, 0x01, 0x01])"

definition gf_row :: "u8 list \<Rightarrow> nat \<Rightarrow> u8 list \<Rightarrow> u8" where
  "gf_row m r col = fold (XOR) (map (\<lambda>c. gmul (col ! c) (m ! ((c + 4 - r) mod 4))) [0..<4]) 0"

definition gf_columns :: "bool \<Rightarrow> bytes \<Rightarrow> bytes" where
  "gf_columns bInvert p =
     concat (map (\<lambda>i. map (\<lambda>r. gf_row (mix_matrix bInvert) r (take 4 (drop (4 * i) p))) [0..<4]) [0..<4])"

lemma xtime_GfMultBy02: "xtime a = GfMultBy02 a"
proof -
  have b: "bit (push_bit 1 (ucast a :: u16)) 8 \<longleftrightarrow> bit a 7"
    unfolding bit_push_bit_iff by (simp add: bit_ucast_iff)
  have p: "ucast (push_bit 1 (ucast a :: u16)) = push_bit 1 a"
    by (rule bit_word_eqI) (simp only: bit_ucast_iff bit_push_bit_iff, auto)
  have "ucast (push_bit 1 (ucast a :: u16) XOR 0x11B) = push_bit 1 a XOR BPOLY"
  proof -
    have "ucast (x XOR y) = (ucast x XOR ucast y :: u8)" for x y :: u16
      by (rule bit_word_eqI) (auto simp: bit_ucast_iff bit_xor_iff)
    moreover have "ucast (0x11B :: u16) = (0x1B :: u8)" by code_simp
    ultimately show ?thesis using p by (simp only: BPOLY_def)
  qed
  then show ?thesis using b p by (simp add: xtime_def GfMultBy02_def and_80_bit Let_def)
qed

lemma gmul_bits:
  "gmul a b = (let m = (\<lambda>i x. if bit b i then x else 0); M = GfMultBy02 in
     m 0 a XOR m 1 (M a) XOR m 2 (M (M a)) XOR m 3 (M (M (M a))) XOR m 4 (M (M (M (M a)))) XOR m 5 (M (M (M (M (M a))))) XOR
     m 6 (M (M (M (M (M (M a)))))) XOR m 7 (M (M (M (M (M (M (M a))))))))"
proof -
  have "(8::nat) = Suc (Suc (Suc (Suc (Suc (Suc (Suc (Suc 0)))))))" by simp
  then have "gmul a b = gmul_steps (Suc (Suc (Suc (Suc (Suc (Suc (Suc (Suc 0)))))))) a b" by (simp only: gmul_def)
  then show ?thesis
    by (simp only: gmul_steps.simps xtime_GfMultBy02 drop_bit_drop_bit bit_drop_bit_eq o_apply Let_def) (simp add: numeral_eq_Suc)
qed

lemma gmul_consts:
  "gmul a 0x01 = a" "gmul a 0x02 = GfMultBy02 a" "gmul a 0x03 = a XOR GfMultBy02 a"
  "gmul a 0x09 = a XOR GfMultBy02 (GfMultBy02 (GfMultBy02 a))"
  "gmul a 0x0b = a XOR GfMultBy02 a XOR GfMultBy02 (GfMultBy02 (GfMultBy02 a))"
  "gmul a 0x0d = a XOR GfMultBy02 (GfMultBy02 a) XOR GfMultBy02 (GfMultBy02 (GfMultBy02 a))"
  "gmul a 0x0e = GfMultBy02 a XOR GfMultBy02 (GfMultBy02 a) XOR GfMultBy02 (GfMultBy02 (GfMultBy02 a))"
  by (simp_all add: gmul_bits xor.assoc)

lemma mix_column_gf:
  "mix_column bInvert a0 a1 a2 a3 = map (\<lambda>r. gf_row (mix_matrix bInvert) r [a0, a1, a2, a3]) [0..<4]"
  by (cases bInvert) (simp_all add: gf_row_def mix_matrix_def upt_rec gmul_consts mix_column_def Let_def GfMultBy02_xor ac_simps)

text \<open>
  C22: The two formulas by which \<open>MixColumns\<close> saves multiplications, for encryption and for
  decryption, are the products with the matrices of FIPS-197 over GF(256).
\<close>

theorem aes_mixcolumns_gf:
  assumes "length p = 16"
  shows "MixColumns p bInvert = gf_columns bInvert p"
  using assms
  by (elim list16) (simp add: MixColumns_def gf_columns_def mix_column_gf upt_rec [of _ 4] numeral_eq_Suc)

theorem aes_mixcolumns_gf_witness:
  "take 4 (gf_columns False ([0xdb, 0x13, 0x53, 0x45] @ replicate 12 0)) = [0x8e, 0x4d, 0xa1, 0xbc]"
proof -
  have "take 4 (MixColumns ([0xdb, 0x13, 0x53, 0x45] @ replicate 12 0) False) = [0x8e, 0x4d, 0xa1, 0xbc]" by code_simp
  then show ?thesis using aes_mixcolumns_gf [of "[0xdb, 0x13, 0x53, 0x45] @ replicate 12 0" False] by simp
qed

end
