(* ===== verification/Flash.thy ===== *)
theory Flash
  imports Prelude
begin

text \<open>
  The serial flash (\<open>BSP/flash.c\<close>) and the sector cache of the agent (\<open>WriteFlash\<close> in
  \<open>System/nl6621_drv.c\<close>).  The chip is a parameter: the contents after the commands \<open>page program\<close>
  and \<open>sector erase\<close>.  Its contract, the locale \<open>nor_flash\<close>, is what the data sheets of such chips
  promise; an array whose bits programming can only clear satisfies it.
\<close>

section \<open>The chip\<close>

definition FLASH_PAGE_SIZE :: nat where "FLASH_PAGE_SIZE = 256"
definition FLASH_SECTOR_SIZE :: nat where "FLASH_SECTOR_SIZE = 4096"
definition MAX_FLASH_RD_SIZE :: nat where "MAX_FLASH_RD_SIZE = 65536"

record nor_chip =
  page_program :: "nat \<Rightarrow> bytes \<Rightarrow> bytes \<Rightarrow> bytes"
  sector_erase :: "nat \<Rightarrow> bytes \<Rightarrow> bytes"

section \<open>The driver\<close>

text \<open>Reading in parts of at most 64 KB; \<open>len\<close> bytes are left.\<close>

function flash_read_loop :: "nat \<Rightarrow> nat \<Rightarrow> bytes \<Rightarrow> bytes outcome" where
  "flash_read_loop ReadAddr len mem =
     (if len = 0 then Inr []
      else let RdCnt = (if len > MAX_FLASH_RD_SIZE then MAX_FLASH_RD_SIZE else len) in
           ebind (load_n mem ReadAddr RdCnt) (\<lambda>xs.
           ebind (flash_read_loop (ReadAddr + RdCnt) (len - RdCnt) mem) (\<lambda>ys. Inr (xs @ ys))))"
  by pat_completeness auto
termination
  by (relation "measure (\<lambda>(a, len, mem). len)") (auto simp: MAX_FLASH_RD_SIZE_def)

declare flash_read_loop.simps [simp del]

definition QSpiFlashRead :: "nat \<Rightarrow> nat \<Rightarrow> bytes \<Rightarrow> bytes outcome" where
  "QSpiFlashRead ReadStartPos len mem = flash_read_loop ReadStartPos len mem"

definition QSpiFlashWriteOnePage :: "nor_chip \<Rightarrow> nat \<Rightarrow> bytes \<Rightarrow> bytes \<Rightarrow> bytes" where
  "QSpiFlashWriteOnePage chip Adr pBuf mem = page_program chip Adr pBuf mem"

definition QSpiFlashEraseSector :: "nor_chip \<Rightarrow> nat \<Rightarrow> bytes \<Rightarrow> bytes" where
  "QSpiFlashEraseSector chip SectorAddr mem = sector_erase chip SectorAddr mem"

text \<open>
  The loop of \<open>QSpiWriteAny\<close>: \<open>pData\<close> is what is left of the data, \<open>pageremain\<close> the number of bytes
  of the next page command.  No progress with data left is an endless loop.
\<close>

function write_pages :: "nor_chip \<Rightarrow> nat \<Rightarrow> bytes \<Rightarrow> nat \<Rightarrow> bytes \<Rightarrow> (int \<times> bytes) outcome" where
  "write_pages chip WriteAddr pData pageremain mem =
     ebind (load_n pData 0 pageremain) (\<lambda>page.
     let mem = QSpiFlashWriteOnePage chip WriteAddr page mem in
     if length pData = pageremain then Inr (0, mem)
     else if pageremain = 0 then Inl Diverges
     else let pData = drop pageremain pData;
              WriteAddr = WriteAddr + pageremain
          in write_pages chip WriteAddr pData
               (if length pData > FLASH_PAGE_SIZE then FLASH_PAGE_SIZE else length pData) mem)"
  by pat_completeness auto
termination
  by (relation "measure (\<lambda>(chip, a, d, r, m). length d)") (auto simp: load_n_def split: if_splits)

declare write_pages.simps [simp del]

text \<open>\<open>DataLen\<close> has 16 bits.\<close>

definition QSpiWriteAny :: "nor_chip \<Rightarrow> nat \<Rightarrow> bytes \<Rightarrow> bytes \<Rightarrow> (int \<times> bytes) outcome" where
  "QSpiWriteAny chip WriteAddr pData mem =
     (let pData = take (length pData mod 2 ^ 16) pData;
          pageremain = FLASH_PAGE_SIZE - WriteAddr mod FLASH_PAGE_SIZE;
          pageremain = (if length pData \<le> pageremain then length pData else pageremain)
      in write_pages chip WriteAddr pData pageremain mem)"

text \<open>
  \<open>QSpiWriteOneSector\<close> tries a page up to ten times: \<open>j\<close> is the counter before \<open>j--\<close> is evaluated.
  The result is the contents and the counter behind the loop, which is \<open>2 ^ 32 - 1\<close> when all the
  attempts have failed.
\<close>

primrec page_attempts :: "nat \<Rightarrow> nor_chip \<Rightarrow> nat \<Rightarrow> bytes \<Rightarrow> bytes \<Rightarrow> (bytes \<times> u32) outcome" where
  "page_attempts 0 chip WriteAddr page mem = Inr (mem, 0 - 1)"
| "page_attempts (Suc j) chip WriteAddr page mem =
     (let mem = QSpiFlashWriteOnePage chip WriteAddr page mem in
      ebind (QSpiFlashRead WriteAddr FLASH_PAGE_SIZE mem) (\<lambda>PageBuf.
      if PageBuf = page then Inr (mem, word_of_nat j)
      else page_attempts j chip WriteAddr page mem))"

primrec sector_pages :: "nat \<Rightarrow> nor_chip \<Rightarrow> nat \<Rightarrow> bytes \<Rightarrow> bytes \<Rightarrow> (int \<times> bytes) outcome" where
  "sector_pages 0 chip WriteAddr pBuf mem = Inr (0, mem)"
| "sector_pages (Suc n) chip WriteAddr pBuf mem =
     ebind (load_n pBuf 0 FLASH_PAGE_SIZE) (\<lambda>page.
     ebind (page_attempts 10 chip WriteAddr page mem) (\<lambda>(mem, j).
     if j = 0 then Inr (-1, mem)
     else sector_pages n chip (WriteAddr + FLASH_PAGE_SIZE) (drop FLASH_PAGE_SIZE pBuf) mem))"

definition QSpiWriteOneSector :: "nor_chip \<Rightarrow> nat \<Rightarrow> bytes \<Rightarrow> bytes \<Rightarrow> (int \<times> bytes) outcome" where
  "QSpiWriteOneSector chip SectorAddr pBuf mem =
     sector_pages (FLASH_SECTOR_SIZE div FLASH_PAGE_SIZE) chip SectorAddr pBuf (QSpiFlashEraseSector chip SectorAddr mem)"

section \<open>Writing across sectors\<close>

definition ReadFlash :: "nat \<Rightarrow> nat \<Rightarrow> bytes \<Rightarrow> bytes outcome" where
  "ReadFlash DataLen ReadStartPos mem = QSpiFlashRead ReadStartPos DataLen mem"

text \<open>
  The loop of \<open>WriteFlash\<close>.  The sector number is a byte; \<open>secre_main\<close> bytes go to the current
  sector, which is read, erased and written back when one of them is not blank.
\<close>

function write_sectors :: "nor_chip \<Rightarrow> u8 \<Rightarrow> nat \<Rightarrow> nat \<Rightarrow> nat \<Rightarrow> bytes \<Rightarrow> bytes \<Rightarrow> bytes outcome" where
  "write_sectors chip sector_num sector_off secre_main WriteAddr pData mem =
     (let sec = unat sector_num * FLASH_SECTOR_SIZE in
      ebind (QSpiFlashRead sec FLASH_SECTOR_SIZE mem) (\<lambda>flash_buf.
      ebind (load_n flash_buf sector_off secre_main) (\<lambda>old.
      ebind (load_n pData 0 secre_main) (\<lambda>part.
      ebind (if list_ex (\<lambda>b. b \<noteq> 0xFF) old
             then ebind (store_n flash_buf sector_off part) (\<lambda>flash_buf.
                  QSpiWriteAny chip sec flash_buf (QSpiFlashEraseSector chip sec mem))
             else QSpiWriteAny chip WriteAddr part mem) (\<lambda>(rc, mem).
      if rc \<noteq> 0 \<or> length pData = secre_main then Inr mem
      else if secre_main = 0 then Inl Diverges
      else let pData = drop secre_main pData in
           write_sectors chip (sector_num + 1) 0
             (if length pData > FLASH_SECTOR_SIZE then FLASH_SECTOR_SIZE else length pData)
             (WriteAddr + secre_main) pData mem)))))"
  by pat_completeness auto
termination
  by (relation "measure (\<lambda>(chip, num, off, r, a, d, m). length d)") (auto simp: load_n_def split: if_splits)

declare write_sectors.simps [simp del]

text \<open>\<open>mm\<close> serves the sector buffer; without one, reading the sector writes to address 0.\<close>

definition WriteFlash :: "(u32 \<Rightarrow> bytes option) \<Rightarrow> nor_chip \<Rightarrow> bytes \<Rightarrow> nat \<Rightarrow> bytes \<Rightarrow> bytes outcome" where
  "WriteFlash mm chip pData BurnStartPos mem =
     (let sector_num = word_of_nat (BurnStartPos div FLASH_SECTOR_SIZE);
          sector_off = BurnStartPos mod FLASH_SECTOR_SIZE;
          secre_main = FLASH_SECTOR_SIZE - sector_off;
          secre_main = (if length pData \<le> secre_main then length pData else secre_main)
      in if mm (word_of_nat FLASH_SECTOR_SIZE) = None then Inl NullPointer
         else write_sectors chip sector_num sector_off secre_main BurnStartPos pData mem)"

section \<open>Replacing a part of the contents\<close>

definition overlay :: "bytes \<Rightarrow> nat \<Rightarrow> bytes \<Rightarrow> bytes" where
  "overlay mem a d = take a mem @ d @ drop (a + length d) mem"

lemma length_overlay [simp]: "a + length d \<le> length mem \<Longrightarrow> length (overlay mem a d) = length mem"
  by (simp add: overlay_def)

lemma overlay_Nil [simp]: "overlay mem a [] = mem"
  by (simp add: overlay_def)

lemma nth_overlay:
  "a + length d \<le> length mem \<Longrightarrow> i < length mem \<Longrightarrow>
     overlay mem a d ! i = (if a \<le> i \<and> i < a + length d then d ! (i - a) else mem ! i)"
  by (auto simp: overlay_def nth_append)

lemma overlay_append:
  assumes "a + length d + length e \<le> length mem"
  shows "overlay (overlay mem a d) (a + length d) e = overlay mem a (d @ e)"
  using assms by (intro nth_equalityI) (auto simp: nth_overlay nth_append)

lemma overlay_self:
  assumes "a + n \<le> length mem"
  shows "overlay mem a (take n (drop a mem)) = mem"
  using assms by (intro nth_equalityI) (auto simp: nth_overlay)

lemma overlay_twice:
  assumes "a + length d \<le> length mem" "length e = length d"
  shows "overlay (overlay mem a e) a d = overlay mem a d"
  using assms by (intro nth_equalityI) (auto simp: nth_overlay)

lemma overlay_inner:
  assumes "s + n \<le> length mem" "off + length d \<le> n"
  shows "overlay mem s (overlay (take n (drop s mem)) off d) = overlay mem (s + off) d"
  using assms by (intro nth_equalityI) (auto simp: nth_overlay)

lemma flash_read_loop_ok: "a + n \<le> length mem \<Longrightarrow> flash_read_loop a n mem = Inr (take n (drop a mem))"
proof (induction a n mem rule: flash_read_loop.induct)
  case (1 a n mem)
  let ?r = "if n > MAX_FLASH_RD_SIZE then MAX_FLASH_RD_SIZE else n"
  show ?case
  proof (cases "n = 0")
    case False
    then have l: "load_n mem a ?r = Inr (take ?r (drop a mem))" using "1.prems" by (simp add: load_n_def)
    have "flash_read_loop (a + ?r) (n - ?r) mem = Inr (take (n - ?r) (drop (a + ?r) mem))"
      using "1.IH" [OF False refl l] "1.prems" by simp
    moreover have "take ?r (drop a mem) @ take (n - ?r) (drop (a + ?r) mem) = take n (drop a mem)"
      using take_add [of ?r "n - ?r" "drop a mem"] by (simp add: add.commute)
    ultimately show ?thesis using False l by (simp add: flash_read_loop.simps [of a n] Let_def)
  qed (simp add: flash_read_loop.simps)
qed

section \<open>The contract of the chip\<close>

definition blank :: "bytes \<Rightarrow> nat \<Rightarrow> nat \<Rightarrow> bool" where
  "blank mem a n \<longleftrightarrow> (\<forall>i < n. mem ! (a + i) = 0xFF)"

locale nor_flash =
  fixes chip :: nor_chip
  assumes program_blank: "a + length d \<le> length mem \<Longrightarrow> a mod 256 + length d \<le> 256 \<Longrightarrow> blank mem a (length d) \<Longrightarrow>
      page_program chip a d mem = overlay mem a d"
    and erase_sector: "a mod 4096 = 0 \<Longrightarrow> a + 4096 \<le> length mem \<Longrightarrow>
      sector_erase chip a mem = overlay mem a (replicate 4096 0xFF)"
begin

lemma write_pages_ok:
  "r \<le> length d \<Longrightarrow> r = 0 \<longrightarrow> d = [] \<Longrightarrow> a mod 256 + r \<le> 256 \<Longrightarrow> r < length d \<longrightarrow> (a + r) mod 256 = 0 \<Longrightarrow>
   a + length d \<le> length mem \<Longrightarrow> blank mem a (length d) \<Longrightarrow> write_pages chip a d r mem = Inr (0, overlay mem a d)"
proof (induction "length d" arbitrary: a d r mem rule: less_induct)
  case less
  have l: "load_n d 0 r = Inr (take r d)" using less.prems(1) by (simp add: load_n_def)
  have p: "QSpiFlashWriteOnePage chip a (take r d) mem = overlay mem a (take r d)"
    unfolding QSpiFlashWriteOnePage_def using less.prems by (intro program_blank) (auto simp: blank_def)
  show ?case
  proof (cases "length d = r")
    case True
    then show ?thesis using l p by (simp add: write_pages.simps Let_def)
  next
    case False
    let ?m = "overlay mem a (take r d)" let ?d = "drop r d"
    let ?r = "if length ?d > FLASH_PAGE_SIZE then FLASH_PAGE_SIZE else length ?d"
    have r: "0 < r" "(a + r) mod 256 = 0" "length ?d < length d" using False less.prems(1,2,4) by auto
    have b: "blank ?m (a + r) (length ?d)" using less.prems by (auto simp: blank_def nth_overlay add.assoc)
    have page: "(a + r + 256) mod 256 = 0" using r(2) by (metis mod_add_self2)
    have "write_pages chip (a + r) ?d ?r ?m = Inr (0, overlay ?m (a + r) ?d)"
      using less.prems r b page by (intro less.hyps) (auto simp: FLASH_PAGE_SIZE_def)
    moreover have "overlay ?m (a + r) ?d = overlay mem a d"
      using overlay_append [of a "take r d" ?d mem] less.prems(1,5) by simp
    ultimately show ?thesis using l p False r(1) by (simp add: write_pages.simps [of chip a d] Let_def)
  qed
qed

lemma QSpiWriteAny_ok:
  assumes "a + length d \<le> length mem" "blank mem a (length d)" "length d \<le> 4096"
  shows "QSpiWriteAny chip a d mem = Inr (0, overlay mem a d)"
proof -
  have "a mod 256 < 256" by simp
  moreover have "(a + (256 - a mod 256)) mod 256 = 0"
    by (metis calculation le_add_diff_inverse2 less_imp_le_nat mod_add_left_eq mod_self add.commute)
  moreover have "take (length d mod 2 ^ 16) d = d" using assms(3) by simp
  ultimately show ?thesis
    unfolding QSpiWriteAny_def Let_def using assms by (simp only:) (intro write_pages_ok, auto simp: FLASH_PAGE_SIZE_def)
qed

text \<open>One sector: whatever it held, the new bytes are in place and the others are as before.\<close>

lemma sector_update:
  assumes sec: "s mod 4096 = 0" "s + 4096 \<le> length mem" and part: "off + length part \<le> 4096"
  shows "(if list_ex (\<lambda>b. b \<noteq> 0xFF) (take (length part) (drop off (take 4096 (drop s mem))))
      then QSpiWriteAny chip s (overlay (take 4096 (drop s mem)) off part) (QSpiFlashEraseSector chip s mem)
      else QSpiWriteAny chip (s + off) part mem) = Inr (0, overlay mem (s + off) part)"
proof (cases "list_ex (\<lambda>b. b \<noteq> 0xFF) (take (length part) (drop off (take 4096 (drop s mem))))")
  case True
  let ?buf = "overlay (take 4096 (drop s mem)) off part" let ?e = "overlay mem s (replicate 4096 0xFF)"
  have buf: "length ?buf = 4096" using sec part by simp
  have "QSpiWriteAny chip s ?buf ?e = Inr (0, overlay ?e s ?buf)"
    using sec buf by (intro QSpiWriteAny_ok) (auto simp: blank_def nth_overlay)
  moreover have "overlay ?e s ?buf = overlay mem (s + off) part"
    using overlay_twice [of s ?buf mem "replicate 4096 0xFF"] overlay_inner [of s 4096 mem off part] sec part buf by simp
  ultimately show ?thesis using True erase_sector [OF sec] by (simp add: QSpiFlashEraseSector_def)
next
  case False
  let ?old = "take (length part) (drop off (take 4096 (drop s mem)))"
  have old: "length ?old = length part" using sec part by simp
  have "\<forall>i < length ?old. ?old ! i = 0xFF" using False by (simp only: list_ex_length) blast
  moreover have "?old ! i = mem ! (s + off + i)" if "i < length part" for i
    using that sec part by (simp add: add.assoc)
  ultimately have "\<forall>i < length part. mem ! (s + off + i) = 0xFF" unfolding old by metis
  then have "blank mem (s + off) (length part)" by (simp add: blank_def)
  then show ?thesis using False QSpiWriteAny_ok [of "s + off" part mem] sec part by simp
qed

lemma write_sectors_ok:
  "a = unat num * 4096 + off \<Longrightarrow> off + r \<le> 4096 \<Longrightarrow> r \<le> length d \<Longrightarrow> r = 0 \<longrightarrow> d = [] \<Longrightarrow> r < length d \<longrightarrow> off + r = 4096 \<Longrightarrow>
   a + length d \<le> length mem \<Longrightarrow> 4096 dvd length mem \<Longrightarrow> length mem \<le> 2 ^ 20 \<Longrightarrow> off < 4096 \<Longrightarrow> a < length mem \<Longrightarrow>
   write_sectors chip num off r a d mem = Inr (overlay mem a d)"
proof (induction "length d" arbitrary: num off r a d mem rule: less_induct)
  case less
  let ?s = "unat num * 4096" let ?part = "take r d" let ?old = "take r (drop off (take 4096 (drop ?s mem)))"
  have sec: "?s mod 4096 = 0" "?s + 4096 \<le> length mem"
  proof -
    obtain k where k: "length mem = 4096 * k" using less.prems(7) by (auto simp: dvd_def)
    have "unat num < k" using less.prems(1,10) k by (simp add: mult.commute)
    then show "?s + 4096 \<le> length mem" using k by (metis Suc_leI mult.commute mult_Suc_right mult_le_mono2 add.commute)
  qed simp
  have rd: "QSpiFlashRead ?s 4096 mem = Inr (take 4096 (drop ?s mem))"
    unfolding QSpiFlashRead_def using sec(2) by (rule flash_read_loop_ok)
  have l: "load_n (take 4096 (drop ?s mem)) off r = Inr ?old" "load_n d 0 r = Inr ?part"
    "store_n (take 4096 (drop ?s mem)) off ?part = Inr (overlay (take 4096 (drop ?s mem)) off ?part)"
    using sec(2) less.prems(2,3) by (auto simp: load_n_def store_n_def overlay_def)
  have part: "off + length ?part \<le> 4096" "length ?part = r" using less.prems(2,3) by simp_all
  note upd = sector_update [OF sec part(1), unfolded part(2) less.prems(1) [symmetric]]
  let ?m = "overlay mem a ?part" let ?d = "drop r d" let ?r = "if length ?d > 4096 then 4096 else length ?d"
  have step: "write_sectors chip num off r a d mem = (if length d = r then Inr ?m else if r = 0 then Inl Diverges
      else write_sectors chip (num + 1) 0 ?r (a + r) ?d ?m)"
  proof -
    have w: "(if list_ex (\<lambda>b. b \<noteq> 0xFF) ?old
        then ebind (store_n (take 4096 (drop ?s mem)) off ?part) (\<lambda>buf. QSpiWriteAny chip ?s buf (QSpiFlashEraseSector chip ?s mem))
        else QSpiWriteAny chip a ?part mem) = Inr (0, ?m)"
      using upd by (simp only: l(3) ebind.simps)
    show ?thesis
      unfolding write_sectors.simps [of chip num] Let_def FLASH_SECTOR_SIZE_def rd ebind.simps l(1,2) w by simp
  qed
  show ?case
  proof (cases "length d = r")
    case True
    then show ?thesis using step by simp
  next
    case False
    then have r: "0 < r" "off + r = 4096" "length ?d < length d" using less.prems(3,4,5) by auto
    have "unat num < 255"
      using less.prems(1,6,8) r False less.prems(3) by simp
    then have n: "unat (num + 1) = unat num + 1" by (subst unat_add_no_wrap) simp_all
    have "write_sectors chip (num + 1) 0 ?r (a + r) ?d ?m = Inr (overlay ?m (a + r) ?d)"
      using less.prems r n False by (intro less.hyps) auto
    moreover have "overlay ?m (a + r) ?d = overlay mem a d"
      using overlay_append [of a "take r d" ?d mem] less.prems(3,6) by simp
    ultimately show ?thesis using step False r(1) by simp
  qed
qed

end

text \<open>An array of bytes in which programming clears bits and erasing sets them.\<close>

definition nor_array :: nor_chip where
  "nor_array = \<lparr>page_program = (\<lambda>a d mem. overlay mem a (map2 (AND) (take (length d) (drop a mem)) d)),
     sector_erase = (\<lambda>a mem. overlay mem a (replicate 4096 0xFF))\<rparr>"

interpretation array: nor_flash nor_array
proof
  fix a and d mem :: bytes
  assume len: "a + length d \<le> length mem" and b: "blank mem a (length d)"
  have "map2 (AND) (take (length d) (drop a mem)) d = d"
  proof (rule nth_equalityI)
    fix i
    assume "i < length (map2 (AND) (take (length d) (drop a mem)) d)"
    then have i: "i < length d" by simp
    have "(0xFF :: u8) = -1" by code_simp
    then have "0xFF AND x = x" for x :: u8 by (simp only: and.left_neutral)
    then show "map2 (AND) (take (length d) (drop a mem)) d ! i = d ! i"
      using b i len by (simp add: blank_def)
  qed (use len in simp)
  then show "page_program nor_array a d mem = overlay mem a d" by (simp add: nor_array_def)
qed (simp add: nor_array_def)

section \<open>Properties\<close>

lemma WriteFlash_overlay:
  assumes chip: "nor_flash chip" and mm: "mm (word_of_nat FLASH_SECTOR_SIZE) \<noteq> None"
    and mem: "4096 dvd length mem" "length mem \<le> 2 ^ 20" and fit: "a < length mem" "a + length d \<le> length mem"
  shows "WriteFlash mm chip d a mem = Inr (overlay mem a d)"
proof -
  let ?num = "word_of_nat (a div 4096) :: u8"
  have "a div 4096 < 256" using fit(1) mem(2) by (simp add: less_mult_imp_div_less)
  then have n: "unat ?num = a div 4096" by (intro unat_of_nat_no_wrap) simp
  show ?thesis
    unfolding WriteFlash_def Let_def FLASH_SECTOR_SIZE_def using mm n mem fit
    by (simp only: if_False FLASH_SECTOR_SIZE_def) (intro nor_flash.write_sectors_ok [OF chip], auto simp: algebra_simps)
qed

lemma ReadFlash_overlay: "a + length d \<le> length mem \<Longrightarrow> ReadFlash (length d) a (overlay mem a d) = Inr d"
  unfolding ReadFlash_def QSpiFlashRead_def using flash_read_loop_ok [of a "length d" "overlay mem a d"]
  by (simp add: overlay_def)

text \<open>
  C16: \<open>WriteFlash\<close> stores data of any length at any address of the flash, across pages and sectors
  and over whatever the sectors held: the data are read back by \<open>ReadFlash\<close>, and every byte outside
  of them is as before.  The flash consists of at most 256 whole sectors.
\<close>

theorem flash_write_exact:
  assumes chip: "nor_flash chip" and mm: "mm (word_of_nat FLASH_SECTOR_SIZE) \<noteq> None"
    and mem: "4096 dvd length mem" "length mem \<le> 2 ^ 20" and fit: "a < length mem" "a + length d \<le> length mem"
  shows "\<exists>mem'. WriteFlash mm chip d a mem = Inr mem' \<and> length mem' = length mem \<and> ReadFlash (length d) a mem' = Inr d \<and>
    (\<forall>i < length mem. i < a \<or> a + length d \<le> i \<longrightarrow> mem' ! i = mem ! i)"
  using WriteFlash_overlay [where mm = mm, OF assms] ReadFlash_overlay [OF fit(2)] fit(2) by (auto simp: nth_overlay)

theorem flash_write_exact_witness:
  "\<exists>mem'. WriteFlash (\<lambda>n. Some (replicate (unat n) 0)) nor_array (replicate 5000 0x41) 4000 (replicate 12288 0x55) = Inr mem' \<and>
     ReadFlash 5000 4000 mem' = Inr (replicate 5000 0x41) \<and> mem' ! 3999 = 0x55 \<and> mem' ! 9000 = 0x55"
proof -
  have "\<exists>mem'. WriteFlash (\<lambda>n. Some (replicate (unat n) 0)) nor_array (replicate 5000 0x41) 4000 (replicate 12288 0x55) = Inr mem' \<and>
      length mem' = length (replicate 12288 (0x55 :: u8)) \<and>
      ReadFlash (length (replicate 5000 (0x41 :: u8))) 4000 mem' = Inr (replicate 5000 0x41) \<and>
      (\<forall>i < length (replicate 12288 (0x55 :: u8)). i < 4000 \<or> 4000 + length (replicate 5000 (0x41 :: u8)) \<le> i \<longrightarrow>
        mem' ! i = replicate 12288 0x55 ! i)"
    by (rule flash_write_exact [OF array.nor_flash_axioms]) simp_all
  then show ?thesis by auto
qed

lemma page_attempts_ignored:
  assumes "\<And>a d m. page_program chip a d m = m" "a + 256 \<le> length mem"
  shows "\<exists>j. page_attempts 10 chip a page mem = Inr (mem, j) \<and> j \<noteq> 0"
proof -
  have r: "QSpiFlashRead a FLASH_PAGE_SIZE mem = Inr (take 256 (drop a mem))"
    unfolding QSpiFlashRead_def FLASH_PAGE_SIZE_def using assms(2) by (rule flash_read_loop_ok)
  have w: "QSpiFlashWriteOnePage chip a page mem = mem" using assms(1) by (simp add: QSpiFlashWriteOnePage_def)
  have "page_attempts n chip a page mem = Inr (mem, - 1)" if "take 256 (drop a mem) \<noteq> page" for n
    using r w that by (induction n) (simp_all add: Let_def)
  moreover have "page_attempts (Suc n) chip a page mem = Inr (mem, word_of_nat n)" if "take 256 (drop a mem) = page" for n
    using r w that by (simp add: Let_def del: of_nat_Suc)
  from this [of 9] have "page_attempts 10 chip a page mem = Inr (mem, 9)" if "take 256 (drop a mem) = page"
    using that by (simp add: eval_nat_numeral)
  ultimately show ?thesis by (cases "take 256 (drop a mem) = page") simp_all
qed

text \<open>
  The verification in \<open>QSpiWriteOneSector\<close> reports nothing: behind ten failed attempts the counter
  has wrapped to \<open>2 ^ 32 - 1\<close> and is compared with 0.  On a chip that ignores the page commands the
  call returns success, whatever was to be written.
\<close>

theorem flash_sector_failure_unreported:
  assumes "\<And>a d m. page_program chip a d m = m" "SectorAddr + 4096 \<le> length (sector_erase chip SectorAddr mem)" "length pBuf = 4096"
  shows "QSpiWriteOneSector chip SectorAddr pBuf mem = Inr (0, sector_erase chip SectorAddr mem)"
proof -
  have "sector_pages n chip a d m = Inr (0, m)" if "a + 256 * n \<le> length m" "length d = 256 * n" for n a d m
    using that
  proof (induction n arbitrary: a d)
    case (Suc n)
    obtain j where "page_attempts 10 chip a (take 256 d) m = Inr (m, j)" "j \<noteq> 0"
      using page_attempts_ignored [OF assms(1), of a m "take 256 d"] Suc.prems by auto
    moreover have "load_n d 0 FLASH_PAGE_SIZE = Inr (take 256 d)" using Suc.prems by (simp add: load_n_def FLASH_PAGE_SIZE_def)
    ultimately show ?case using Suc.IH [of "a + 256" "drop 256 d"] Suc.prems by (simp add: FLASH_PAGE_SIZE_def)
  qed simp
  from this [of SectorAddr 16] show ?thesis
    using assms(2,3) by (simp add: QSpiWriteOneSector_def FLASH_SECTOR_SIZE_def FLASH_PAGE_SIZE_def QSpiFlashEraseSector_def)
qed

theorem flash_sector_failure_unreported_witness:
  "QSpiWriteOneSector \<lparr>page_program = (\<lambda>a d mem. mem), sector_erase = (\<lambda>a mem. mem)\<rparr> 0 (replicate 4096 0x41) (replicate 4096 0x42) =
   Inr (0, replicate 4096 0x42)"
proof -
  have "QSpiWriteOneSector \<lparr>page_program = (\<lambda>a d mem. mem), sector_erase = (\<lambda>a mem. mem)\<rparr> 0 (replicate 4096 0x41) (replicate 4096 0x42) =
      Inr (0, sector_erase \<lparr>page_program = (\<lambda>a d mem. mem), sector_erase = (\<lambda>a mem. mem)\<rparr> 0 (replicate 4096 0x42))"
    by (rule flash_sector_failure_unreported) simp_all
  then show ?thesis by simp
qed

end
