(* ===== verification/SysParam.thy ===== *)
theory SysParam
  imports Prelude "HOL-Library.Signed_Division"
begin

text \<open>
  The system parameters (\<open>Sys/param.c\<close>, \<open>Include/param.h\<close>): the configuration \<open>SysParam\<close> with the setters
  that check and store its values, and the control interface, which checks its arguments and posts a
  message to the task of the Wi-Fi library.  The queue of that task is the list of the messages posted.
  In every run the parameters that the setters check stay within their ranges and the names are
  terminated, and no message is longer than the body of a task message; \<open>WmmEn\<close>, \<open>WscEn\<close> and the IP
  settings are stored as they are given.
\<close>

section \<open>Constants and data\<close>

definition PARAM_NET_MODE_STA_BSS :: u32 where "PARAM_NET_MODE_STA_BSS = 0"
definition PARAM_NET_MODE_STA_ADHOC :: u32 where "PARAM_NET_MODE_STA_ADHOC = 1"
definition PARAM_NET_MODE_SOFTAP :: u32 where "PARAM_NET_MODE_SOFTAP = 2"
definition PARAM_NET_MODE_MAX :: u8 where "PARAM_NET_MODE_MAX = 3"
definition PARAM_PHY_MODE_MAX :: u8 where "PARAM_PHY_MODE_MAX = 3"
definition PARAM_ENC_MODE_AUTO :: u32 where "PARAM_ENC_MODE_AUTO = 4"
definition PARAM_ENC_MODE_MAX :: u8 where "PARAM_ENC_MODE_MAX = 5"
definition PARAM_AUTH_MODE_MAX :: u8 where "PARAM_AUTH_MODE_MAX = 4"
definition PARAM_WSC_MODE_PIN :: u8 where "PARAM_WSC_MODE_PIN = 1"
definition PARAM_WSC_MODE_PBC :: u8 where "PARAM_WSC_MODE_PBC = 2"
definition PARAM_RATE_MODE_CCK :: u32 where "PARAM_RATE_MODE_CCK = 0"
definition PARAM_RATE_MODE_OFDM :: u32 where "PARAM_RATE_MODE_OFDM = 1"
definition PARAM_RATE_MODE_HT :: u32 where "PARAM_RATE_MODE_HT = 2"
definition PARAM_RATE_IDX_3 :: u32 where "PARAM_RATE_IDX_3 = 4"
definition PARAM_RATE_IDX_7 :: u32 where "PARAM_RATE_IDX_7 = 8"
definition PARAM_TX_PWR_LEVEL_10 :: u32 where "PARAM_TX_PWR_LEVEL_10 = 9"
definition PS_MODE_SOFT :: u8 where "PS_MODE_SOFT = 3"
definition PROTECT_MODE_NONE :: u32 where "PROTECT_MODE_NONE = 2"
definition WAKEUP_MODE_GPIO0 :: u32 where "WAKEUP_MODE_GPIO0 = 0"
definition WAKEUP_MODE_32K_TIMER :: u32 where "WAKEUP_MODE_32K_TIMER = 0x80000000"

lemmas param_consts = PARAM_NET_MODE_STA_BSS_def PARAM_NET_MODE_STA_ADHOC_def PARAM_NET_MODE_SOFTAP_def PARAM_NET_MODE_MAX_def
  PARAM_PHY_MODE_MAX_def PARAM_ENC_MODE_AUTO_def PARAM_ENC_MODE_MAX_def PARAM_AUTH_MODE_MAX_def

datatype msg_id = MLME_SCAN_REQUEST_ID | MLME_DIRECT_CFG_ID | MLME_START_ID | MLME_STOP_ID | MLME_PS_MODE_SET_ID | MLME_DEEP_SLEEP_SET_ID
  | MLME_TX_RATE_SET_ID | MLME_TX_PWR_LEVEL_SET_ID | MLME_AUTO_WAKEUP_ID | MLME_BCN_PRD_SET_ID | MLME_LISTEN_INTVL_SET_ID
  | MLME_PEER_AGE_OUT_SET_ID | MLME_PEER_KICK_OUT_ID | MLME_PROTECT_MODE_SET_ID | MLME_WPS_START_SET_ID | MLME_WPS_STOP_SET_ID
  | MLME_SNIFFER_START_ID | MLME_VENDOR_IE_SET_ID
  | SYS_LINK_UP_ID | SYS_LINK_DOWN_ID | SYS_DHCP_TIMEOUT_ID | SYS_SCAN_DONE_ID | SYS_STA_JOIN_FAIL_ID | SYS_DIRECT_CFG_DONE_ID

record wifi_cfg =
  Ssid :: bytes
  SSIDBrdEnable :: u8
  PhyMode :: u8
  Channel :: u8
  Encry :: u8
  AuthMode :: u8
  Protocol :: u8
  KeyLength :: u8
  KeyIndex :: u8
  PSK :: bytes
  WscEn :: u8
  ConTryTimes :: u8
  WmmEn :: u8

record ip_cfg =
  ipIp :: bytes
  ipNetmask :: bytes
  ipGateWay :: bytes
  ipDns :: bytes
  bDhcp :: u8
  DhcpTryTimes :: u8
  Res_2 :: bytes

record cfg_param =
  WiFiCfg :: wifi_cfg
  IPCfg :: ip_cfg
  bDhcpServer :: u8
  bDnsServer :: u8
  cfgDnsName :: bytes
  Res_3 :: bytes

text \<open>
  The globals that the interface works on.  \<open>SysEvtCB\<close> is the address of the callback, 0 for none;
  \<open>gpMacMngTskMsgQ\<close> lists the messages posted to the task of the library.
\<close>

record sys_state =
  SysParam :: cfg_param
  PermanentAddress :: bytes
  SysEvtCB :: u32
  gpMacMngTskMsgQ :: "(msg_id \<times> bytes) list"

section \<open>Configuration interface\<close>

definition NST_MOVE_MEM :: "bytes \<Rightarrow> bytes \<Rightarrow> nat \<Rightarrow> bytes outcome" where
  "NST_MOVE_MEM dst src len = ebind (load_n src 0 len) (store_n dst 0)"

definition set_wifi :: "(wifi_cfg \<Rightarrow> wifi_cfg) \<Rightarrow> sys_state \<Rightarrow> sys_state" where
  "set_wifi f s = s\<lparr>SysParam := (SysParam s)\<lparr>WiFiCfg := f (WiFiCfg (SysParam s))\<rparr>\<rparr>"

text \<open>\<open>sprintf\<close> with \<open>%02x\<close>.\<close>

definition hex_lower :: "u8 \<Rightarrow> u8" where
  "hex_lower d = (if d < 10 then 0x30 + d else 0x57 + d)"

definition fmt_02x :: "u8 \<Rightarrow> bytes" where
  "fmt_02x b = [hex_lower (drop_bit 4 b), hex_lower (b AND 0xf)]"

definition default_ssid_prefix :: cstring where
  "default_ssid_prefix = [0x4e, 0x75, 0x41, 0x67, 0x65, 0x6e, 0x74, 0x2d]"
definition default_psk :: cstring where
  "default_psk = [0x31, 0x32, 0x33, 0x34, 0x35, 0x36, 0x37, 0x38, 0x39]"
definition default_dns_name :: cstring where
  "default_dns_name = [0x6c, 0x6f, 0x63, 0x61, 0x6c, 0x2e, 0x6e, 0x75, 0x66, 0x72, 0x6f, 0x6e, 0x74]"

definition zero_wifi :: wifi_cfg where
  "zero_wifi = \<lparr>Ssid = replicate 33 0, SSIDBrdEnable = 0, PhyMode = 0, Channel = 0, Encry = 0, AuthMode = 0, Protocol = 0, KeyLength = 0,
     KeyIndex = 0, PSK = replicate 64 0, WscEn = 0, ConTryTimes = 0, WmmEn = 0\<rparr>"

definition zero_ip :: ip_cfg where
  "zero_ip = \<lparr>ipIp = replicate 4 0, ipNetmask = replicate 4 0, ipGateWay = replicate 4 0, ipDns = replicate 4 0, bDhcp = 0, DhcpTryTimes = 0,
     Res_2 = replicate 2 0\<rparr>"

definition InfLoadDefaultParam :: "sys_state \<Rightarrow> sys_state outcome" where
  "InfLoadDefaultParam s =
     ebind (load_n (PermanentAddress s) 2 4) (\<lambda>mac.
     ebind (store_n (Ssid zero_wifi) 0 (default_ssid_prefix @ concat (map fmt_02x mac) @ [0])) (\<lambda>ssid.
     ebind (store_n (PSK zero_wifi) 0 (default_psk @ [0])) (\<lambda>psk.
     ebind (store_n (replicate 33 0) 0 (default_dns_name @ [0])) (\<lambda>dns.
     Inr (s\<lparr>SysParam :=
       \<lparr>WiFiCfg = zero_wifi\<lparr>Ssid := ssid, SSIDBrdEnable := 1, Channel := 11, Encry := 3, AuthMode := 3, Protocol := 2, KeyIndex := 0,
          PSK := psk, KeyLength := word_of_nat (length default_psk), WmmEn := 0\<rparr>,
        IPCfg = zero_ip\<lparr>bDhcp := 1, ipIp := [10, 10, 10, 1], ipNetmask := [255, 255, 255, 0], ipGateWay := [10, 10, 100, 254],
          ipDns := [10, 10, 100, 254]\<rparr>,
        bDhcpServer = 1, bDnsServer = 1, cfgDnsName = dns, Res_3 = [0]\<rparr>\<rparr>)))))"

definition InfConfigQuery :: "cfg_param option \<Rightarrow> sys_state \<Rightarrow> int \<times> cfg_param option" where
  "InfConfigQuery pParam s = (case pParam of None \<Rightarrow> (- 1, None) | Some _ \<Rightarrow> (0, Some (SysParam s)))"

definition InfNetModeSet :: "u32 \<Rightarrow> sys_state \<Rightarrow> int \<times> sys_state" where
  "InfNetModeSet Mode s = (if (ucast Mode :: u8) \<ge> PARAM_NET_MODE_MAX then (- 1, s) else (0, set_wifi (\<lambda>c. c\<lparr>Protocol := ucast Mode\<rparr>) s))"

definition InfPhyModeSet :: "u32 \<Rightarrow> sys_state \<Rightarrow> int \<times> sys_state" where
  "InfPhyModeSet Mode s = (if (ucast Mode :: u8) \<ge> PARAM_PHY_MODE_MAX then (- 1, s) else (0, set_wifi (\<lambda>c. c\<lparr>PhyMode := ucast Mode\<rparr>) s))"

definition InfSsidSet :: "bytes option \<Rightarrow> u8 \<Rightarrow> sys_state \<Rightarrow> (int \<times> sys_state) outcome" where
  "InfSsidSet pSsid SsidLen s =
     (let ssid = Ssid (WiFiCfg (SysParam s)) in
      case pSsid of
        Some p \<Rightarrow>
          if SsidLen > 32 \<or> SsidLen = 0
          then ebind (store ssid 0 0) (\<lambda>ssid. Inr (- 1, set_wifi (\<lambda>c. c\<lparr>Ssid := ssid\<rparr>) s))
          else ebind (NST_MOVE_MEM ssid p (unat SsidLen)) (\<lambda>ssid.
               ebind (store ssid (unat SsidLen) 0) (\<lambda>ssid.
               Inr (0, set_wifi (\<lambda>c. c\<lparr>Ssid := ssid\<rparr>) s)))
      | None \<Rightarrow> ebind (store ssid 0 0) (\<lambda>ssid. Inr (- 1, set_wifi (\<lambda>c. c\<lparr>Ssid := ssid\<rparr>) s)))"

definition InfSsidBrdcastSet :: "u8 \<Rightarrow> sys_state \<Rightarrow> int \<times> sys_state" where
  "InfSsidBrdcastSet En s = (0, set_wifi (\<lambda>c. c\<lparr>SSIDBrdEnable := (if En \<noteq> 0 then 1 else 0)\<rparr>) s)"

definition InfChannelSet :: "u8 \<Rightarrow> sys_state \<Rightarrow> int \<times> sys_state" where
  "InfChannelSet Ch s = (if Ch < 1 \<or> Ch > 13 then (- 1, s) else (0, set_wifi (\<lambda>c. c\<lparr>Channel := Ch\<rparr>) s))"

definition InfEncModeSet :: "u32 \<Rightarrow> sys_state \<Rightarrow> int \<times> sys_state" where
  "InfEncModeSet EncMode s = (if (ucast EncMode :: u8) \<ge> PARAM_ENC_MODE_MAX then (- 1, s) else (0, set_wifi (\<lambda>c. c\<lparr>Encry := ucast EncMode\<rparr>) s))"

definition InfAuthModeSet :: "u32 \<Rightarrow> sys_state \<Rightarrow> int \<times> sys_state" where
  "InfAuthModeSet Mode s = (if (ucast Mode :: u8) \<ge> PARAM_AUTH_MODE_MAX then (- 1, s) else (0, set_wifi (\<lambda>c. c\<lparr>AuthMode := ucast Mode\<rparr>) s))"

definition InfKeySet :: "u8 \<Rightarrow> bytes option \<Rightarrow> u8 \<Rightarrow> sys_state \<Rightarrow> (int \<times> sys_state) outcome" where
  "InfKeySet Index KeyBuf KeyLen s =
     (case KeyBuf of
        Some p \<Rightarrow>
          if Index > 3 \<or> KeyLen > 64 then Inr (- 1, s)
          else ebind (NST_MOVE_MEM (PSK (WiFiCfg (SysParam s))) p (unat KeyLen)) (\<lambda>psk.
               ebind (if KeyLen < 64 then store psk (unat KeyLen) 0 else Inr psk) (\<lambda>psk.
               Inr (0, set_wifi (\<lambda>c. c\<lparr>KeyIndex := Index, KeyLength := KeyLen, PSK := psk\<rparr>) s)))
      | None \<Rightarrow> Inr (- 1, s))"

definition InfConTryTimesSet :: "u8 \<Rightarrow> sys_state \<Rightarrow> int \<times> sys_state" where
  "InfConTryTimesSet TryTimes s = (0, set_wifi (\<lambda>c. c\<lparr>ConTryTimes := TryTimes\<rparr>) s)"

definition InfWmmEnableSet :: "u8 \<Rightarrow> sys_state \<Rightarrow> int \<times> sys_state" where
  "InfWmmEnableSet En s = (0, set_wifi (\<lambda>c. c\<lparr>WmmEn := En\<rparr>) s)"

definition InfWscEnSet :: "u8 \<Rightarrow> sys_state \<Rightarrow> int \<times> sys_state" where
  "InfWscEnSet En s = (0, set_wifi (\<lambda>c. c\<lparr>WscEn := En\<rparr>) s)"

definition InfIpSet :: "ip_cfg option \<Rightarrow> sys_state \<Rightarrow> int \<times> sys_state" where
  "InfIpSet IpParam s = (case IpParam of None \<Rightarrow> (- 1, s) | Some p \<Rightarrow> (0, s\<lparr>SysParam := (SysParam s)\<lparr>IPCfg := p\<rparr>\<rparr>))"

definition InfDhcpSrvSet :: "u8 \<Rightarrow> sys_state \<Rightarrow> int \<times> sys_state" where
  "InfDhcpSrvSet En s = (0, s\<lparr>SysParam := (SysParam s)\<lparr>bDhcpServer := (if En \<noteq> 0 then 1 else 0)\<rparr>\<rparr>)"

definition InfDnsSrvSet :: "u8 \<Rightarrow> bytes option \<Rightarrow> u8 \<Rightarrow> sys_state \<Rightarrow> (int \<times> sys_state) outcome" where
  "InfDnsSrvSet En DnsName DnsNameLen s =
     (if En \<noteq> 0
      then case DnsName of
             Some p \<Rightarrow>
               if DnsNameLen > 32 then Inr (- 1, s)
               else ebind (NST_MOVE_MEM (cfgDnsName (SysParam s)) p (unat DnsNameLen)) (\<lambda>nm.
                    Inr (0, s\<lparr>SysParam := (SysParam s)\<lparr>bDnsServer := 1, cfgDnsName := nm\<rparr>\<rparr>))
           | None \<Rightarrow> Inr (- 1, s)
      else Inr (0, s\<lparr>SysParam := (SysParam s)\<lparr>bDnsServer := 0\<rparr>\<rparr>))"

definition InfMacAddrSet :: "bytes option \<Rightarrow> sys_state \<Rightarrow> (int \<times> sys_state) outcome" where
  "InfMacAddrSet Addr s =
     (case Addr of None \<Rightarrow> Inr (- 1, s)
      | Some p \<Rightarrow> ebind (NST_MOVE_MEM (PermanentAddress s) p 6) (\<lambda>a. Inr (0, s\<lparr>PermanentAddress := a\<rparr>)))"

definition InfSysEvtCBSet :: "u32 \<Rightarrow> sys_state \<Rightarrow> int \<times> sys_state" where
  "InfSysEvtCBSet pFuncCb s = (if pFuncCb = 0 then (- 1, s) else (0, s\<lparr>SysEvtCB := pFuncCb\<rparr>))"

section \<open>Control interface\<close>

text \<open>
  Pointers that go into a message are their addresses, 0 being \<open>NULL\<close>; an \<open>INT8\<close> is the word with its
  bits.  \<open>PostTaskMsg\<close> belongs to the library and is recorded.
\<close>

definition PostTaskMsg :: "msg_id \<Rightarrow> bytes \<Rightarrow> sys_state \<Rightarrow> sys_state" where
  "PostTaskMsg TskMsgId body s = s\<lparr>gpMacMngTskMsgQ := gpMacMngTskMsgQ s @ [(TskMsgId, body)]\<rparr>"

definition InfWiFiStart :: "sys_state \<Rightarrow> int \<times> sys_state" where
  "InfWiFiStart s = (0, PostTaskMsg MLME_START_ID [] s)"

definition InfWiFiStop :: "sys_state \<Rightarrow> int \<times> sys_state" where
  "InfWiFiStop s = (0, PostTaskMsg MLME_STOP_ID [] s)"

text \<open>The table of \<open>InfScanStart\<close> is given by its address and its field \<open>InfoCount\<close>.\<close>

definition InfScanStart :: "(u32 \<times> u8) option \<Rightarrow> u8 \<Rightarrow> u8 \<Rightarrow> sys_state \<Rightarrow> int \<times> sys_state" where
  "InfScanStart pScanTable MinRssiFilter ScanType s =
     (case pScanTable of
        None \<Rightarrow> (- 1, s)
      | Some (addr, InfoCount) \<Rightarrow>
          if InfoCount = 0 then (- 1, s)
          else let MinRssiFilter = (if sint MinRssiFilter > 0 then 0 else MinRssiFilter) in
               (0, PostTaskMsg MLME_SCAN_REQUEST_ID (le32 addr @ [MinRssiFilter, ScanType]) s))"

definition InfTxRateSet :: "u32 \<Rightarrow> u32 \<Rightarrow> sys_state \<Rightarrow> int \<times> sys_state" where
  "InfTxRateSet RateMode RateIdx s =
     (let post = (0, PostTaskMsg MLME_TX_RATE_SET_ID [ucast RateMode, ucast RateIdx] s) in
      if RateMode = PARAM_RATE_MODE_CCK then if RateIdx > PARAM_RATE_IDX_3 then (- 1, s) else post
      else if RateMode = PARAM_RATE_MODE_OFDM \<or> RateMode = PARAM_RATE_MODE_HT
      then if RateIdx > PARAM_RATE_IDX_7 then (- 1, s) else post
      else (- 1, s))"

definition InfTxPwrLevelSet :: "u32 \<Rightarrow> sys_state \<Rightarrow> int \<times> sys_state" where
  "InfTxPwrLevelSet TxPwrLevel s =
     (if TxPwrLevel > PARAM_TX_PWR_LEVEL_10 then (- 1, s) else (0, PostTaskMsg MLME_TX_PWR_LEVEL_SET_ID [ucast TxPwrLevel] s))"

definition InfPowerSaveSet :: "u8 \<Rightarrow> sys_state \<Rightarrow> int \<times> sys_state" where
  "InfPowerSaveSet PowerSaveMode s =
     (if PowerSaveMode > PS_MODE_SOFT then (- 1, s) else (0, PostTaskMsg MLME_PS_MODE_SET_ID [PowerSaveMode] s))"

definition InfDeepSleepSet :: "u32 \<Rightarrow> sys_state \<Rightarrow> int \<times> sys_state" where
  "InfDeepSleepSet WakeUpMode s =
     (if WakeUpMode > WAKEUP_MODE_GPIO0 \<and> WakeUpMode AND WAKEUP_MODE_32K_TIMER = 0 then (- 1, s)
      else (0, PostTaskMsg MLME_DEEP_SLEEP_SET_ID (le32 WakeUpMode) s))"

text \<open>\<open>efuse Offset Cnt\<close> are the words that \<open>BSP_EfuseRead\<close> puts into the buffer.\<close>

definition InfEfuseInfoGet :: "(u8 \<Rightarrow> u8 \<Rightarrow> u32 list) \<Rightarrow> u8 \<Rightarrow> u8 \<Rightarrow> u32 list option \<Rightarrow> (int \<times> u32 list option) outcome" where
  "InfEfuseInfoGet efuse Offset Cnt pEfuseInfo =
     (case pEfuseInfo of
        None \<Rightarrow> Inr (- 1, None)
      | Some buf \<Rightarrow> if Offset > 0x07 then Inr (- 1, Some buf)
                   else ebind (store_n buf 0 (efuse Offset Cnt)) (\<lambda>buf. Inr (0, Some buf)))"

definition InfBeaconPeriodSet :: "u16 \<Rightarrow> u8 \<Rightarrow> sys_state \<Rightarrow> int \<times> sys_state" where
  "InfBeaconPeriodSet BcnPrd NotifyPeerEn s =
     (0, PostTaskMsg MLME_BCN_PRD_SET_ID [ucast BcnPrd, ucast (drop_bit 8 BcnPrd), NotifyPeerEn] s)"

definition InfListenIntervalSet :: "u8 \<Rightarrow> u8 \<Rightarrow> sys_state \<Rightarrow> int \<times> sys_state" where
  "InfListenIntervalSet ListenIntv ListenDtim s =
     (if ListenIntv = 0 then (- 1, s) else (0, PostTaskMsg MLME_LISTEN_INTVL_SET_ID [ListenIntv, ListenDtim] s))"

definition InfDirectCfgStart :: "u8 \<Rightarrow> u8 \<Rightarrow> u32 \<Rightarrow> sys_state \<Rightarrow> int \<times> sys_state" where
  "InfDirectCfgStart MinRssiFilter TryPeerNum pCustomStr s =
     (0, PostTaskMsg MLME_DIRECT_CFG_ID ([MinRssiFilter, TryPeerNum] @ (if pCustomStr \<noteq> 0 then le32 pCustomStr else replicate 4 0)) s)"

definition InfSnifferStart :: "u32 \<Rightarrow> bytes \<Rightarrow> u8 \<Rightarrow> sys_state \<Rightarrow> (int \<times> sys_state) outcome" where
  "InfSnifferStart pFuncCb BindBssid Ch s =
     ebind (load_n BindBssid 0 6) (\<lambda>bssid. Inr (0, PostTaskMsg MLME_SNIFFER_START_ID (le32 pFuncCb @ bssid @ [Ch]) s))"

definition InfPeerAgeOutSet :: "u32 \<Rightarrow> sys_state \<Rightarrow> int \<times> sys_state" where
  "InfPeerAgeOutSet Time s = (0, PostTaskMsg MLME_PEER_AGE_OUT_SET_ID (le32 Time) s)"

definition InfPeerKickOut :: "bytes option \<Rightarrow> sys_state \<Rightarrow> (int \<times> sys_state) outcome" where
  "InfPeerKickOut pMacAddr s =
     (case pMacAddr of None \<Rightarrow> Inr (- 1, s)
      | Some p \<Rightarrow> ebind (load_n p 0 6) (\<lambda>mac. Inr (0, PostTaskMsg MLME_PEER_KICK_OUT_ID mac s)))"

definition InfProtectModeSet :: "u32 \<Rightarrow> sys_state \<Rightarrow> int \<times> sys_state" where
  "InfProtectModeSet Mode s =
     (if Mode > PROTECT_MODE_NONE then (- 1, s) else (0, PostTaskMsg MLME_PROTECT_MODE_SET_ID [ucast Mode] s))"

definition InfWPSStart :: "u8 \<Rightarrow> u32 \<Rightarrow> sys_state \<Rightarrow> int \<times> sys_state" where
  "InfWPSStart WscMode PinCode s =
     (if WscMode > PARAM_WSC_MODE_PBC then (- 1, s)
      else (0, PostTaskMsg MLME_WPS_START_SET_ID ((if WscMode = PARAM_WSC_MODE_PIN then le32 PinCode else replicate 4 0) @ [WscMode]) s))"

definition InfWPSStop :: "sys_state \<Rightarrow> int \<times> sys_state" where
  "InfWPSStop s = (0, PostTaskMsg MLME_WPS_STOP_SET_ID [] s)"

definition InfVendorIESet :: "u32 \<Rightarrow> u8 \<Rightarrow> sys_state \<Rightarrow> int \<times> sys_state" where
  "InfVendorIESet pIePtr IeLen s = (0, PostTaskMsg MLME_VENDOR_IE_SET_ID (le32 pIePtr @ [IeLen]) s)"

text \<open>Signed 64-bit arithmetic: \<open>UINT64\<close> is \<open>__int64\<close> in \<open>types_def.h\<close>.\<close>

definition InfSysTimeGet :: "64 word \<Rightarrow> 64 word" where
  "InfSysTimeGet Ticks =
     (let t = sint Ticks in word_of_int (t sdiv 1024) * 125 + word_of_int (sint (word_of_int (t smod 1024) * 125 :: 64 word) sdiv 1024))"

section \<open>Ranges\<close>

text \<open>
  The ranges of the fields that the setters check, and the size of the body of a task message
  (\<open>global.h\<close>).  \<open>WmmEn\<close>, \<open>WscEn\<close> and \<open>bDhcp\<close>, for which the header has 0 and 1, are not among them:
  their setters store any byte (\<open>flags_stored_unchecked\<close>).  For \<open>ConTryTimes\<close> and \<open>DhcpTryTimes\<close> every byte is
  in range.
\<close>

definition wifi_ok :: "wifi_cfg \<Rightarrow> bool" where
  "wifi_ok c \<longleftrightarrow> length (Ssid c) = 33 \<and> Ssid c ! 32 = 0 \<and> length (PSK c) = 64 \<and> KeyLength c \<le> 64 \<and> KeyIndex c \<le> 3 \<and>
     SSIDBrdEnable c \<le> 1 \<and> PhyMode c \<le> 2 \<and> 1 \<le> Channel c \<and> Channel c \<le> 13 \<and> Encry c \<le> 4 \<and> AuthMode c \<le> 3 \<and> Protocol c \<le> 2"

definition sys_ok :: "sys_state \<Rightarrow> bool" where
  "sys_ok s \<longleftrightarrow> wifi_ok (WiFiCfg (SysParam s)) \<and> length (cfgDnsName (SysParam s)) = 33 \<and> cfgDnsName (SysParam s) ! 32 = 0 \<and>
     bDhcpServer (SysParam s) \<le> 1 \<and> bDnsServer (SysParam s) \<le> 1 \<and> length (PermanentAddress s) = 6 \<and>
     (\<forall>(i, body) \<in> set (gpMacMngTskMsgQ s). length body \<le> 32)"

lemma set_wifi_ok: "sys_ok s \<Longrightarrow> wifi_ok (f (WiFiCfg (SysParam s))) \<Longrightarrow> sys_ok (set_wifi f s)"
  by (simp add: sys_ok_def set_wifi_def)

lemma post_ok: "sys_ok s \<Longrightarrow> length body \<le> 32 \<Longrightarrow> sys_ok (PostTaskMsg i body s)"
  by (auto simp: sys_ok_def PostTaskMsg_def)

lemma le_pred_iff: "(x :: u8) < 3 \<longleftrightarrow> x \<le> 2" "(x :: u8) < 4 \<longleftrightarrow> x \<le> 3" "(x :: u8) < 5 \<longleftrightarrow> x \<le> 4"
  by (auto simp: word_less_nat_alt word_le_nat_alt)

lemma NST_MOVE_MEM_eq:
  "n \<le> length src \<Longrightarrow> n \<le> length dst \<Longrightarrow> NST_MOVE_MEM dst src n = Inr (take n src @ drop n dst)"
  by (simp add: NST_MOVE_MEM_def load_n_def store_n_def)

lemma NST_MOVE_MEM_D:
  "NST_MOVE_MEM dst src n = Inr d \<Longrightarrow> n \<le> length src \<and> n \<le> length dst \<and> d = take n src @ drop n dst"
  by (auto simp: NST_MOVE_MEM_def load_n_def store_n_def c_bind split: if_splits)

text \<open>The default parameters in closed form.\<close>

definition default_param :: "bytes \<Rightarrow> cfg_param" where
  "default_param mac =
     \<lparr>WiFiCfg = \<lparr>Ssid = default_ssid_prefix @ concat (map fmt_02x mac) @ replicate 17 0, SSIDBrdEnable = 1, PhyMode = 0, Channel = 11, Encry = 3,
        AuthMode = 3, Protocol = 2, KeyLength = 9, KeyIndex = 0, PSK = default_psk @ replicate 55 0, WscEn = 0, ConTryTimes = 0, WmmEn = 0\<rparr>,
      IPCfg = \<lparr>ipIp = [10, 10, 10, 1], ipNetmask = [255, 255, 255, 0], ipGateWay = [10, 10, 100, 254], ipDns = [10, 10, 100, 254],
        bDhcp = 1, DhcpTryTimes = 0, Res_2 = replicate 2 0\<rparr>,
      bDhcpServer = 1, bDnsServer = 1, cfgDnsName = default_dns_name @ replicate 20 0, Res_3 = [0]\<rparr>"

lemma store_zeros: "length xs < n \<Longrightarrow> store_n (replicate n 0) 0 (xs @ [0]) = Inr (xs @ replicate (n - length xs) (0 :: u8))"
  by (simp add: store_n_def Suc_diff_Suc [symmetric] flip: replicate_Suc)

lemma length_fmt_02x [simp]: "length (concat (map fmt_02x mac)) = 2 * length mac"
  by (induction mac) (simp_all add: fmt_02x_def)

lemma InfLoadDefaultParam_eq:
  assumes "length (PermanentAddress s) = 6"
  shows "InfLoadDefaultParam s = Inr (s\<lparr>SysParam := default_param (drop 2 (PermanentAddress s))\<rparr>)"
proof -
  let ?m = "drop 2 (PermanentAddress s)"
  have "load_n (PermanentAddress s) 2 4 = Inr ?m" using assms by (simp add: load_n_def)
  moreover have "store_n (Ssid zero_wifi) 0 (default_ssid_prefix @ concat (map fmt_02x ?m) @ [0]) =
      Inr (default_ssid_prefix @ concat (map fmt_02x ?m) @ replicate 17 0)"
    using store_zeros [of "default_ssid_prefix @ concat (map fmt_02x ?m)" 33] assms by (simp add: zero_wifi_def default_ssid_prefix_def)
  moreover have "store_n (PSK zero_wifi) 0 (default_psk @ [0]) = Inr (default_psk @ replicate 55 0)"
    using store_zeros [of default_psk 64] by (simp add: zero_wifi_def default_psk_def)
  moreover have "store_n (replicate 33 0) 0 (default_dns_name @ [0]) = Inr (default_dns_name @ replicate 20 (0 :: u8))"
    using store_zeros [of default_dns_name 33] by (simp add: default_dns_name_def)
  ultimately show ?thesis
    by (simp add: InfLoadDefaultParam_def default_param_def zero_wifi_def zero_ip_def default_psk_def)
qed

lemma default_param_ok: "length mac = 4 \<Longrightarrow> wifi_ok (WiFiCfg (default_param mac))"
  by (simp add: default_param_def wifi_ok_def nth_append default_ssid_prefix_def default_psk_def)

section \<open>Runs\<close>

text \<open>Any sequence of calls of the interface behind the first \<open>InfLoadDefaultParam\<close>, with any arguments.\<close>

inductive param_step :: "sys_state \<Rightarrow> sys_state \<Rightarrow> bool" where
  step_load: "InfLoadDefaultParam s = Inr t \<Longrightarrow> param_step s t"
| step_net: "InfNetModeSet x s = (r, t) \<Longrightarrow> param_step s t"
| step_phy: "InfPhyModeSet x s = (r, t) \<Longrightarrow> param_step s t"
| step_ssid: "InfSsidSet p l s = Inr (r, t) \<Longrightarrow> param_step s t"
| step_brdcast: "InfSsidBrdcastSet e s = (r, t) \<Longrightarrow> param_step s t"
| step_channel: "InfChannelSet e s = (r, t) \<Longrightarrow> param_step s t"
| step_enc: "InfEncModeSet x s = (r, t) \<Longrightarrow> param_step s t"
| step_auth: "InfAuthModeSet x s = (r, t) \<Longrightarrow> param_step s t"
| step_key: "InfKeySet e p l s = Inr (r, t) \<Longrightarrow> param_step s t"
| step_try: "InfConTryTimesSet e s = (r, t) \<Longrightarrow> param_step s t"
| step_wmm: "InfWmmEnableSet e s = (r, t) \<Longrightarrow> param_step s t"
| step_wsc: "InfWscEnSet e s = (r, t) \<Longrightarrow> param_step s t"
| step_ip: "InfIpSet ip s = (r, t) \<Longrightarrow> param_step s t"
| step_dhcp: "InfDhcpSrvSet e s = (r, t) \<Longrightarrow> param_step s t"
| step_dns: "InfDnsSrvSet e p l s = Inr (r, t) \<Longrightarrow> param_step s t"
| step_mac: "InfMacAddrSet p s = Inr (r, t) \<Longrightarrow> param_step s t"
| step_cb: "InfSysEvtCBSet x s = (r, t) \<Longrightarrow> param_step s t"
| step_start: "InfWiFiStart s = (r, t) \<Longrightarrow> param_step s t"
| step_stop: "InfWiFiStop s = (r, t) \<Longrightarrow> param_step s t"
| step_scan: "InfScanStart tbl e l s = (r, t) \<Longrightarrow> param_step s t"
| step_rate: "InfTxRateSet x y s = (r, t) \<Longrightarrow> param_step s t"
| step_pwr: "InfTxPwrLevelSet x s = (r, t) \<Longrightarrow> param_step s t"
| step_ps: "InfPowerSaveSet e s = (r, t) \<Longrightarrow> param_step s t"
| step_sleep: "InfDeepSleepSet x s = (r, t) \<Longrightarrow> param_step s t"
| step_beacon: "InfBeaconPeriodSet h e s = (r, t) \<Longrightarrow> param_step s t"
| step_listen: "InfListenIntervalSet e l s = (r, t) \<Longrightarrow> param_step s t"
| step_direct: "InfDirectCfgStart e l x s = (r, t) \<Longrightarrow> param_step s t"
| step_sniff: "InfSnifferStart x b e s = Inr (r, t) \<Longrightarrow> param_step s t"
| step_age: "InfPeerAgeOutSet x s = (r, t) \<Longrightarrow> param_step s t"
| step_kick: "InfPeerKickOut p s = Inr (r, t) \<Longrightarrow> param_step s t"
| step_protect: "InfProtectModeSet x s = (r, t) \<Longrightarrow> param_step s t"
| step_wps: "InfWPSStart e x s = (r, t) \<Longrightarrow> param_step s t"
| step_wps_stop: "InfWPSStop s = (r, t) \<Longrightarrow> param_step s t"
| step_ie: "InfVendorIESet x e s = (r, t) \<Longrightarrow> param_step s t"

lemma wifi_ok_upd:
  assumes "wifi_ok c"
  shows "x \<le> 2 \<Longrightarrow> wifi_ok (c\<lparr>Protocol := x\<rparr>)" "x \<le> 2 \<Longrightarrow> wifi_ok (c\<lparr>PhyMode := x\<rparr>)" "x \<le> 4 \<Longrightarrow> wifi_ok (c\<lparr>Encry := x\<rparr>)"
    "x \<le> 3 \<Longrightarrow> wifi_ok (c\<lparr>AuthMode := x\<rparr>)" "x \<le> 1 \<Longrightarrow> wifi_ok (c\<lparr>SSIDBrdEnable := x\<rparr>)" "x \<noteq> 0 \<Longrightarrow> x \<le> 13 \<Longrightarrow> wifi_ok (c\<lparr>Channel := x\<rparr>)"
    "wifi_ok (c\<lparr>ConTryTimes := x\<rparr>)" "wifi_ok (c\<lparr>WmmEn := x\<rparr>)" "wifi_ok (c\<lparr>WscEn := x\<rparr>)"
    "length k = 33 \<Longrightarrow> k ! 32 = 0 \<Longrightarrow> wifi_ok (c\<lparr>Ssid := k\<rparr>)"
    "i \<le> 3 \<Longrightarrow> x \<le> 64 \<Longrightarrow> length k = 64 \<Longrightarrow> wifi_ok (c\<lparr>KeyIndex := i, KeyLength := x, PSK := k\<rparr>)"
  using assms by (simp_all add: wifi_ok_def word_le_nat_alt unat_gt_0 Suc_le_eq)

text \<open>The setters with buffers: what they store, and that the last byte of a name stays a NUL.\<close>

lemma InfSsidSet_keeps:
  assumes "sys_ok s" "InfSsidSet p l s = Inr (r, t)"
  shows "sys_ok t"
proof -
  let ?n = "Ssid (WiFiCfg (SysParam s))"
  have n: "length ?n = 33" "?n ! 32 = 0" using assms(1) by (simp_all add: sys_ok_def wifi_ok_def)
  obtain m where m: "t = set_wifi (\<lambda>c. c\<lparr>Ssid := m\<rparr>) s" "length m = 33" "m ! 32 = 0"
  proof (cases "p \<noteq> None \<and> l \<le> 32 \<and> l \<noteq> 0")
    case True
    then have l: "unat l \<le> 32" "\<not> l > 32" by (simp_all add: word_le_nat_alt not_less)
    from True obtain q where q: "p = Some q" by auto
    obtain d where d: "NST_MOVE_MEM ?n q (unat l) = Inr d" "t = set_wifi (\<lambda>c. c\<lparr>Ssid := d[unat l := 0]\<rparr>) s"
      using assms(2) True l q by (auto simp: InfSsidSet_def Let_def c_bind store_def split: if_splits)
    from NST_MOVE_MEM_D [OF d(1)] have "length d = 33" "unat l < 32 \<Longrightarrow> d ! 32 = 0" using l n by (auto simp: nth_append)
    then have "d[unat l := 0] ! 32 = 0" using l by (cases "unat l = 32") auto
    with d(2) \<open>length d = 33\<close> show thesis by (intro that [of "d[unat l := 0]"]) auto
  next
    case False
    then have "t = set_wifi (\<lambda>c. c\<lparr>Ssid := ?n[0 := 0]\<rparr>) s"
      using assms(2) n by (auto simp: InfSsidSet_def Let_def c_bind store_def not_le split: option.splits if_splits)
    then show thesis using n by (intro that [of "?n[0 := 0]"]) auto
  qed
  have "wifi_ok (WiFiCfg (SysParam s))" using assms(1) by (simp add: sys_ok_def)
  with m show ?thesis using assms(1) by (auto intro!: set_wifi_ok wifi_ok_upd)
qed

lemma InfKeySet_keeps:
  assumes "sys_ok s" "InfKeySet e p l s = Inr (r, t)"
  shows "sys_ok t"
proof (cases "t = s")
  case False
  have w: "wifi_ok (WiFiCfg (SysParam s))" and k: "length (PSK (WiFiCfg (SysParam s))) = 64" using assms(1) by (simp_all add: sys_ok_def wifi_ok_def)
  obtain k' where "t = set_wifi (\<lambda>c. c\<lparr>KeyIndex := e, KeyLength := l, PSK := k'\<rparr>) s" "length k' = 64" "e \<le> 3" "l \<le> 64"
    using assms(2) False k
    by (auto simp: InfKeySet_def c_bind store_def not_less dest!: NST_MOVE_MEM_D split: option.splits if_splits)
  then show ?thesis using assms(1) w by (auto intro!: set_wifi_ok wifi_ok_upd)
qed (use assms(1) in simp)

lemma InfDnsSrvSet_keeps: "sys_ok s \<Longrightarrow> InfDnsSrvSet e p l s = Inr (r, t) \<Longrightarrow> sys_ok t"
  by (auto simp: InfDnsSrvSet_def c_bind not_less word_le_nat_alt sys_ok_def nth_append dest!: NST_MOVE_MEM_D split: option.splits if_splits)

lemmas wifi_setters = InfNetModeSet_def InfPhyModeSet_def InfSsidBrdcastSet_def InfChannelSet_def InfEncModeSet_def InfAuthModeSet_def
  InfConTryTimesSet_def InfWmmEnableSet_def InfWscEnSet_def

lemmas control_ops = InfWiFiStart_def InfWiFiStop_def InfScanStart_def InfTxRateSet_def InfTxPwrLevelSet_def InfPowerSaveSet_def
  InfDeepSleepSet_def InfBeaconPeriodSet_def InfListenIntervalSet_def InfDirectCfgStart_def InfPeerAgeOutSet_def InfProtectModeSet_def
  InfWPSStart_def InfWPSStop_def InfVendorIESet_def

lemma length_le32 [simp]: "length (le32 x) = 4"
  by (simp add: le32_def)

lemma ip_setters_keep:
  "sys_ok s \<Longrightarrow> InfIpSet ip s = (r, t) \<Longrightarrow> sys_ok t" "sys_ok s \<Longrightarrow> InfDhcpSrvSet e s = (r, t) \<Longrightarrow> sys_ok t"
  "sys_ok s \<Longrightarrow> InfSysEvtCBSet x s = (r, t) \<Longrightarrow> sys_ok t"
  by (auto simp: InfIpSet_def InfDhcpSrvSet_def InfSysEvtCBSet_def sys_ok_def split: option.splits if_splits)

lemma InfMacAddrSet_keeps: "sys_ok s \<Longrightarrow> InfMacAddrSet p s = Inr (r, t) \<Longrightarrow> sys_ok t"
  by (auto simp: InfMacAddrSet_def c_bind sys_ok_def dest!: NST_MOVE_MEM_D split: option.splits)

lemma wifi_setters_keep:
  assumes "sys_ok s"
  shows "InfNetModeSet x s = (r, t) \<Longrightarrow> sys_ok t" "InfPhyModeSet x s = (r, t) \<Longrightarrow> sys_ok t" "InfEncModeSet x s = (r, t) \<Longrightarrow> sys_ok t"
    "InfAuthModeSet x s = (r, t) \<Longrightarrow> sys_ok t" "InfChannelSet e s = (r, t) \<Longrightarrow> sys_ok t" "InfSsidBrdcastSet e s = (r, t) \<Longrightarrow> sys_ok t"
    "InfConTryTimesSet e s = (r, t) \<Longrightarrow> sys_ok t" "InfWmmEnableSet e s = (r, t) \<Longrightarrow> sys_ok t" "InfWscEnSet e s = (r, t) \<Longrightarrow> sys_ok t"
proof -
  have "wifi_ok (WiFiCfg (SysParam s))" using assms by (simp add: sys_ok_def)
  note ok = set_wifi_ok [OF assms] wifi_ok_upd [OF this]
  show "InfNetModeSet x s = (r, t) \<Longrightarrow> sys_ok t" "InfPhyModeSet x s = (r, t) \<Longrightarrow> sys_ok t" "InfEncModeSet x s = (r, t) \<Longrightarrow> sys_ok t"
    "InfAuthModeSet x s = (r, t) \<Longrightarrow> sys_ok t" "InfChannelSet e s = (r, t) \<Longrightarrow> sys_ok t" "InfSsidBrdcastSet e s = (r, t) \<Longrightarrow> sys_ok t"
    "InfConTryTimesSet e s = (r, t) \<Longrightarrow> sys_ok t" "InfWmmEnableSet e s = (r, t) \<Longrightarrow> sys_ok t" "InfWscEnSet e s = (r, t) \<Longrightarrow> sys_ok t"
    using assms by (auto simp: wifi_setters param_consts not_le not_less le_pred_iff ok split: if_splits)
qed

lemma control_ops_keep:
  assumes "sys_ok s"
  shows "InfWiFiStart s = (r, t) \<Longrightarrow> sys_ok t" "InfWiFiStop s = (r, t) \<Longrightarrow> sys_ok t" "InfScanStart tbl e l s = (r, t) \<Longrightarrow> sys_ok t"
    "InfTxRateSet x y s = (r, t) \<Longrightarrow> sys_ok t" "InfTxPwrLevelSet x s = (r, t) \<Longrightarrow> sys_ok t" "InfPowerSaveSet e s = (r, t) \<Longrightarrow> sys_ok t"
    "InfDeepSleepSet x s = (r, t) \<Longrightarrow> sys_ok t" "InfBeaconPeriodSet h e s = (r, t) \<Longrightarrow> sys_ok t" "InfListenIntervalSet e l s = (r, t) \<Longrightarrow> sys_ok t"
    "InfDirectCfgStart e l x s = (r, t) \<Longrightarrow> sys_ok t" "InfPeerAgeOutSet x s = (r, t) \<Longrightarrow> sys_ok t" "InfProtectModeSet x s = (r, t) \<Longrightarrow> sys_ok t"
    "InfWPSStart e x s = (r, t) \<Longrightarrow> sys_ok t" "InfWPSStop s = (r, t) \<Longrightarrow> sys_ok t" "InfVendorIESet x e s = (r, t) \<Longrightarrow> sys_ok t"
  using assms by (auto simp: control_ops Let_def post_ok split: if_splits option.splits prod.splits)

lemma control_copies_keep:
  assumes "sys_ok s"
  shows "InfSnifferStart x b e s = Inr (r, t) \<Longrightarrow> sys_ok t" "InfPeerKickOut p s = Inr (r, t) \<Longrightarrow> sys_ok t"
  using assms by (auto simp: InfSnifferStart_def InfPeerKickOut_def c_bind load_n_def post_ok split: if_splits option.splits)

lemma InfLoadDefaultParam_keeps:
  assumes "length (PermanentAddress s) = 6" "\<forall>(i, body) \<in> set (gpMacMngTskMsgQ s). length body \<le> 32" "InfLoadDefaultParam s = Inr t"
  shows "sys_ok t"
  using assms default_param_ok [of "drop 2 (PermanentAddress s)"]
  by (simp add: InfLoadDefaultParam_eq sys_ok_def) (auto simp: default_param_def default_dns_name_def nth_append)

lemma param_step_ok: "param_step s t \<Longrightarrow> sys_ok s \<Longrightarrow> sys_ok t"
proof (induction rule: param_step.induct)
  case (step_load s t)
  then show ?case by (intro InfLoadDefaultParam_keeps [of s t]) (simp_all add: sys_ok_def)
qed (erule wifi_setters_keep [rotated] control_ops_keep [rotated] control_copies_keep [rotated] ip_setters_keep [rotated]
  InfSsidSet_keeps [rotated] InfKeySet_keeps [rotated] InfDnsSrvSet_keeps [rotated] InfMacAddrSet_keeps [rotated], assumption)+

lemma length_cstr_NUL: "i < length bs \<Longrightarrow> bs ! i = 0 \<Longrightarrow> length (cstr bs) \<le> i"
  unfolding cstr_def by (metis (mono_tags, lifting) length_takeWhile_le not_less nth_mem set_takeWhileD takeWhile_nth)

lemma setters_total:
  assumes "sys_ok s" "unat l \<le> length p"
  shows "\<exists>r t. InfSsidSet (Some p) l s = Inr (r, t)" "\<exists>r t. InfKeySet e (Some p) l s = Inr (r, t)" "\<exists>r t. InfDnsSrvSet e (Some p) l s = Inr (r, t)"
  using assms
  by (auto simp: InfSsidSet_def InfKeySet_def InfDnsSrvSet_def sys_ok_def wifi_ok_def store_def NST_MOVE_MEM_eq word_less_nat_alt Let_def)

section \<open>Names and keys\<close>

lemma unat_len8: "unat (word_of_nat (length xs) :: u8) = length xs mod 256"
  by (simp add: unat_of_nat)

definition cut_name :: "cstring \<Rightarrow> cstring" where
  "cut_name xs = (if 1 \<le> length xs mod 256 \<and> length xs mod 256 \<le> 32 then take (length xs mod 256) xs else [])"

lemma InfSsidSet_name:
  assumes "length (Ssid (WiFiCfg (SysParam s))) = 33" "is_cstring xs"
  obtains r m where "InfSsidSet (Some (xs @ [0])) (word_of_nat (length xs)) s = Inr (r, set_wifi (\<lambda>c. c\<lparr>Ssid := m\<rparr>) s)" "cstr m = cut_name xs"
proof -
  let ?old = "Ssid (WiFiCfg (SysParam s))" let ?l = "word_of_nat (length xs) :: u8" let ?n = "length xs mod 256"
  have n: "unat ?l = ?n" "?n \<le> length xs" by (simp_all add: unat_len8)
  show thesis
  proof (cases "1 \<le> ?n \<and> ?n \<le> 32")
    case True
    have c: "\<not> ?l > 32" "?l \<noteq> 0" using True n(1) by (auto simp: word_less_nat_alt unat_eq_0 [symmetric])
    have "NST_MOVE_MEM ?old (xs @ [0]) ?n = Inr (take ?n xs @ drop ?n ?old)" using True n(2) assms(1) by (subst NST_MOVE_MEM_eq) auto
    moreover have "store (take ?n xs @ drop ?n ?old) ?n 0 = Inr (take ?n xs @ 0 # drop (Suc ?n) ?old)"
      using True n(2) assms(1) by (simp add: store_def list_update_append drop_nth_Cons [of ?n ?old] min_absorb2)
    moreover have "cstr (take ?n xs @ 0 # drop (Suc ?n) ?old) = take ?n xs"
      using assms(2) by (intro cstr_append_NUL) (auto simp: is_cstring_def dest: in_set_takeD)
    ultimately show thesis using True c n(1) by (intro that) (simp_all add: InfSsidSet_def Let_def cut_name_def)
  next
    case False
    then have "?l > 32 \<or> ?l = 0" using n(1) by (auto simp: word_less_nat_alt unat_eq_0 [symmetric])
    moreover have "cstr (?old[0 := 0]) = []" using assms(1) by (cases ?old) (simp_all add: cstr_def)
    moreover have "store ?old 0 0 = Inr (?old[0 := 0])" using assms(1) by (simp add: store_def)
    ultimately show thesis using False by (intro that [of "- 1" "?old[0 := 0]"]) (auto simp: InfSsidSet_def Let_def cut_name_def)
  qed
qed

text \<open>A key that is refused leaves the one that was set before.\<close>

lemma InfKeySet_key:
  assumes "length (PSK (WiFiCfg (SysParam s))) = 64"
  obtains r where "length xs mod 256 > 64" "InfKeySet 0 (Some (xs @ [0])) (word_of_nat (length xs)) s = Inr (r, s)"
  | r k where "length xs mod 256 \<le> 64" "take (length xs mod 256) k = take (length xs mod 256) xs" "length k = 64"
     "InfKeySet 0 (Some (xs @ [0])) (word_of_nat (length xs)) s =
        Inr (r, set_wifi (\<lambda>c. c\<lparr>KeyIndex := 0, KeyLength := word_of_nat (length xs), PSK := k\<rparr>) s)"
proof (cases "length xs mod 256 \<le> 64")
  case True
  let ?old = "PSK (WiFiCfg (SysParam s))" let ?l = "word_of_nat (length xs) :: u8" let ?n = "length xs mod 256"
  have n: "unat ?l = ?n" "?n \<le> length xs" by (simp_all add: unat_len8)
  have c: "\<not> ?l > 64" "?l < 64 \<longleftrightarrow> ?n < 64" using True n(1) by (auto simp: word_less_nat_alt)
  have m: "NST_MOVE_MEM ?old (xs @ [0]) ?n = Inr (take ?n xs @ drop ?n ?old)" using True n(2) assms by (subst NST_MOVE_MEM_eq) auto
  show thesis
  proof (rule that(2))
    show "InfKeySet 0 (Some (xs @ [0])) ?l s =
        Inr (0, set_wifi (\<lambda>c. c\<lparr>KeyIndex := 0, KeyLength := ?l, PSK := (take ?n xs @ drop ?n ?old)[?n := 0]\<rparr>) s)"
      using True n c m assms by (simp add: InfKeySet_def store_def not_less list_update_beyond)
  qed (use True n assms in simp_all)
next
  case False
  then show thesis using that(1) by (auto simp: InfKeySet_def word_less_nat_alt unat_len8)
qed

text \<open>The exceptions: any byte is stored where the header has 0 and 1.\<close>

lemma flags_stored_unchecked:
  "WmmEn (WiFiCfg (SysParam (snd (InfWmmEnableSet x s)))) = x"
  "WscEn (WiFiCfg (SysParam (snd (InfWscEnSet x s)))) = x"
  "IPCfg (SysParam (snd (InfIpSet (Some ip) s))) = ip"
  by (simp_all add: InfWmmEnableSet_def InfWscEnSet_def InfIpSet_def set_wifi_def)

section \<open>Properties\<close>

text \<open>
  C29: From the default parameters, any sequence of calls of the interface with any arguments leaves every
  parameter that the interface checks in its range: the name, key and key index, name broadcast, mode of
  the radio, channel, encryption, authentication, network mode and the switches of the two servers.
  The exceptions are \<open>WmmEn\<close>, \<open>WscEn\<close> and the IP settings with \<open>bDhcp\<close>, which are stored unchecked, and the
  beacon period, which is posted unchecked.  Both names stay terminated within their arrays, and no
  posted message is longer than the 32 bytes of a message body.  The setters that copy a buffer return
  whenever the buffer has the length announced, so that no such call writes out of bounds.
\<close>

theorem params_in_range:
  assumes "length (PermanentAddress s0) = 6" "gpMacMngTskMsgQ s0 = []" "InfLoadDefaultParam s0 = Inr s1" "param_step\<^sup>*\<^sup>* s1 s"
  shows "sys_ok s \<and> length (cstr (Ssid (WiFiCfg (SysParam s)))) \<le> 32 \<and> length (cstr (cfgDnsName (SysParam s))) \<le> 32 \<and>
    (\<forall>e p l. unat l \<le> length p \<longrightarrow> (\<exists>r t. InfSsidSet (Some p) l s = Inr (r, t)) \<and> (\<exists>r t. InfKeySet e (Some p) l s = Inr (r, t)) \<and>
       (\<exists>r t. InfDnsSrvSet e (Some p) l s = Inr (r, t)))"
proof -
  have "sys_ok s1" using assms(1-3) by (intro InfLoadDefaultParam_keeps) auto
  with assms(4) have ok: "sys_ok s" by (induction rule: rtranclp_induct) (use param_step_ok in blast)+
  then have "length (cstr (Ssid (WiFiCfg (SysParam s)))) \<le> 32" "length (cstr (cfgDnsName (SysParam s))) \<le> 32"
    by (auto intro!: length_cstr_NUL simp: sys_ok_def wifi_ok_def)
  with ok setters_total [OF ok] show ?thesis by blast
qed

definition sample_sys :: sys_state where
  "sample_sys = \<lparr>SysParam = default_param [0, 0, 0, 0], PermanentAddress = [0, 1, 2, 3, 0xab, 0xcd], SysEvtCB = 0, gpMacMngTskMsgQ = []\<rparr>"

theorem params_in_range_witness:
  "sys_ok (snd (InfWiFiStart (snd (InfChannelSet 6 (sample_sys\<lparr>SysParam := default_param [2, 3, 0xab, 0xcd]\<rparr>)))))"
proof -
  let ?s = "sample_sys\<lparr>SysParam := default_param [2, 3, 0xab, 0xcd]\<rparr>"
  have 1: "param_step ?s (snd (InfChannelSet 6 ?s))" by (rule step_channel) (rule prod.collapse [symmetric])
  have 2: "param_step (snd (InfChannelSet 6 ?s)) (snd (InfWiFiStart (snd (InfChannelSet 6 ?s))))"
    by (rule step_start) (rule prod.collapse [symmetric])
  have "param_step\<^sup>*\<^sup>* ?s (snd (InfWiFiStart (snd (InfChannelSet 6 ?s))))" by (rule converse_rtranclp_into_rtranclp [OF 1 r_into_rtranclp [of param_step, OF 2]])
  then show ?thesis
    using params_in_range [of sample_sys ?s] InfLoadDefaultParam_eq [of sample_sys] by (simp add: sample_sys_def)
qed

text \<open>
  The conversion of \<open>InfSysTimeGet\<close> is exact for every non-negative count: it is 125/1024 of the ticks,
  rounded down, and no intermediate value overflows.  A tick being 1/32768 of a second (\<open>bsp.h\<close>), one
  second of ticks gives 4000 instead of 1000 milliseconds.
\<close>

lemma sys_time_exact:
  assumes "0 \<le> sint Ticks"
  shows "sint (InfSysTimeGet Ticks) = sint Ticks * 125 div 1024"
proof -
  define t where "t = sint Ticks"
  have t: "0 \<le> t" "t < 2 ^ 63" using assms sint_lt [of Ticks] by (simp_all add: t_def)
  have small: "sint (word_of_int k :: 64 word) = k" if "0 \<le> k" "k < 2 ^ 63" for k
    using that by (simp add: sint_sbintrunc' signed_take_bit_int_eq_self)
  have c_div: "x sdiv 1024 = x div 1024" "x smod 1024 = x mod 1024" if "0 \<le> x" for x :: int
    using that by (cases "x = 0"; simp add: signed_divide_int_def signed_modulo_int_def sgn_if)+
  have "sint (word_of_int (t mod 1024) * 125 :: 64 word) = t mod 1024 * 125"
    using small [of "t mod 1024 * 125"] pos_mod_bound [of 1024 t] by simp
  then have "InfSysTimeGet Ticks = word_of_int (t div 1024 * 125 + t mod 1024 * 125 div 1024)"
    using t by (simp add: InfSysTimeGet_def Let_def t_def [symmetric] c_div)
  moreover have "125 * (t mod 1024) + t div 1024 * 128000 = t * 125" using mult_div_mod_eq [of 1024 t] by linarith
  then have "t div 1024 * 125 + t mod 1024 * 125 div 1024 = t * 125 div 1024"
    using div_mult_self2 [of 1024 "t mod 1024 * 125" "t div 1024 * 125"] by (simp add: algebra_simps flip: distrib_right)
  moreover have "0 \<le> t * 125 div 1024" "t * 125 div 1024 < 2 ^ 63" using t zdiv_mono1 [of "t * 125" "t * 1024" 1024] by simp_all
  ultimately show ?thesis using small by (metis t_def)
qed

lemma sys_time_four_times: "InfSysTimeGet 32768 = 4000"
  by (simp add: InfSysTimeGet_def signed_divide_int_def signed_modulo_int_def)

end
