(* ===== verification/AgentConfig.thy ===== *)
theory AgentConfig
  imports Flash SysParam
begin

text \<open>
  The state of the agent outside of the cloud session and its stored Wi-Fi settings: the configuration
  block in the flash (\<open>System/nl6621_drv.c\<close>).  What is stored is read back, and the rest of the flash
  is not touched.
\<close>

section \<open>The configuration block\<close>

text \<open>\<open>char\<close> is unsigned on the target; the block has no padding.\<close>

record agent_config =
  magicNumber :: u32
  config_flag :: u32
  wifipasscode :: bytes
  wifi_ssid :: bytes
  wifi_key :: bytes

definition XPG_CFG_FLAG_CONNECTED :: u32 where "XPG_CFG_FLAG_CONNECTED = 0x00000001"
definition AGENT_CONFIG_DATA_ADDR :: nat where "AGENT_CONFIG_DATA_ADDR = 0x64000"
definition sizeof_Agent_config :: nat where "sizeof_Agent_config = 88"

definition config_bytes :: "agent_config \<Rightarrow> bytes" where
  "config_bytes c = le32 (magicNumber c) @ le32 (config_flag c) @ wifipasscode c @ wifi_ssid c @ wifi_key c"

definition config_of :: "bytes \<Rightarrow> agent_config outcome" where
  "config_of bs =
     ebind (le32_at bs 0) (\<lambda>magic. ebind (le32_at bs 4) (\<lambda>flag.
     ebind (load_n bs 8 16) (\<lambda>passcode. ebind (load_n bs 24 32) (\<lambda>ssid. ebind (load_n bs 56 32) (\<lambda>key.
     Inr \<lparr>magicNumber = magic, config_flag = flag, wifipasscode = passcode, wifi_ssid = ssid, wifi_key = key\<rparr>)))))"

definition nl6621_GetConfigData :: "bytes \<Rightarrow> agent_config outcome" where
  "nl6621_GetConfigData mem = ebind (ReadFlash sizeof_Agent_config AGENT_CONFIG_DATA_ADDR mem) config_of"

definition nl6621_SaveConfigData :: "(u32 \<Rightarrow> bytes option) \<Rightarrow> nor_chip \<Rightarrow> agent_config \<Rightarrow> bytes \<Rightarrow> bytes outcome" where
  "nl6621_SaveConfigData mm chip c mem = WriteFlash mm chip (config_bytes c) AGENT_CONFIG_DATA_ADDR mem"

section \<open>State\<close>

datatype onboarding_status = ONBOARDING_NONE | SYS_STATUS_ONBOARDING | SYS_STATUS_ONBOARDING_SUCCESS | SYS_STATUS_ONBOARDING_FAILED

datatype wifi_status = SYS_STATUS_WIFI_STOP | SYS_STATUS_WIFI_SOFTAP | SYS_STATUS_WIFI_DIRECTCONFING | SYS_STATUS_WIFI_STA_CONNECTED | SYS_STATUS_WIFI_STA_LOGIN

datatype sys_evt = SYS_EVT_LINK_DOWN | SYS_EVT_LINK_UP | SYS_EVT_JOIN_FAIL | SYS_EVT_DHCP_FAIL | SYS_EVT_SCAN_DONE | SYS_EVT_DIRECT_CFG_DONE

text \<open>
  The calls of the interface of the system parameters (theory \<open>SysParam\<close>) that the connection manager
  makes; the structure of \<open>InfIpSet\<close> is zero but for \<open>bDhcp\<close> and \<open>DhcpTryTimes\<close>.
\<close>

datatype inf_call = Call_InfWiFiStop | Call_InfWiFiStart | Call_InfLoadDefaultParam | Call_InfIpSet u8 u8 | Call_InfConTryTimesSet u8
  | Call_InfNetModeSet u32 | Call_InfEncModeSet u32 | Call_InfSsidSet cstring | Call_InfKeySet cstring | Call_InfDirectCfgStart

text \<open>
  \<open>pending\<close> lists the events that the library reports during the successive waits of the connection
  manager; behind its end there are none.  \<open>radio\<close> lists the calls of that interface, \<open>udp_sent\<close> the
  answers on the local network, \<open>broadcasts\<close> counts the datagrams of \<open>RespondConnBroadcast\<close>,
  \<open>open_sockets\<close> its sockets, and \<open>chip_resets\<close> the calls of \<open>BSP_ChipReset\<close>.
\<close>

record agent_state =
  Agent_config_data :: agent_config
  flash_mem :: bytes
  sys_status :: wifi_status
  onboarding :: onboarding_status
  system_reset_flag :: u32
  DirectCfgFlag :: nat
  wifi_sta_connect_ap_flag :: u8
  pending :: "sys_evt list list"
  radio :: "inf_call list"
  udp_sent :: "bytes list"
  broadcasts :: nat
  open_sockets :: nat
  chip_resets :: nat

text \<open>
  What the agent calls: the allocator, the flash chip, the sockets of \<open>RespondConnBroadcast\<close> (does
  the n-th \<open>socket\<close> succeed, the n-th \<open>setsockopt\<close>, what does the n-th \<open>sendto\<close> return), and the arrays
  \<open>SysParam.WiFiCfg.Ssid\<close> and \<open>PSK\<close> as direct configuration leaves them.
\<close>

record agent_env =
  env_malloc :: "u32 \<Rightarrow> bytes option"
  env_chip :: nor_chip
  env_socket :: "nat \<Rightarrow> bool"
  env_setsockopt :: "nat \<Rightarrow> bool"
  env_sendto :: "nat \<Rightarrow> int"
  env_ssid :: bytes
  env_psk :: bytes

text \<open>\<open>memcpy\<close> of 32 bytes each, from the two buffers of the caller.\<close>

definition Agent_SaveSSIDAndKey :: "agent_env \<Rightarrow> bytes \<Rightarrow> bytes \<Rightarrow> agent_state \<Rightarrow> agent_state outcome" where
  "Agent_SaveSSIDAndKey env pSSID pKey s =
     ebind (load_n pSSID 0 32) (\<lambda>ssid. ebind (load_n pKey 0 32) (\<lambda>key.
     let c = (Agent_config_data s)\<lparr>wifi_ssid := ssid, wifi_key := key,
               config_flag := config_flag (Agent_config_data s) OR XPG_CFG_FLAG_CONNECTED\<rparr> in
     ebind (nl6621_SaveConfigData (env_malloc env) (env_chip env) c (flash_mem s)) (\<lambda>mem.
     Inr (s\<lparr>Agent_config_data := c, flash_mem := mem\<rparr>))))"

text \<open>\<open>rand () mod (end - start + 1) + start\<close>, on 32 bits; \<open>r\<close> is what \<open>rand\<close> returns.\<close>

definition make_rand :: "nat \<Rightarrow> int \<Rightarrow> int \<Rightarrow> int outcome" where
  "make_rand r start stop =
     (if stop \<le> start then Inr (- 1)
      else let n = sint (word_of_int (stop - start + 1) :: u32) in
           if n = 0 then Inl DivByZero
           else Inr (sint (word_of_int (int r mod \<bar>n\<bar> + start) :: u32)))"

section \<open>Saving and reading back\<close>

definition config_ok :: "agent_config \<Rightarrow> bool" where
  "config_ok c \<longleftrightarrow> length (wifipasscode c) = 16 \<and> length (wifi_ssid c) = 32 \<and> length (wifi_key c) = 32"

definition flash_ok :: "bytes \<Rightarrow> bool" where
  "flash_ok mem \<longleftrightarrow> 4096 dvd length mem \<and> length mem \<le> 2 ^ 20 \<and> 0x65000 \<le> length mem"

lemma length_config_bytes: "config_ok c \<Longrightarrow> length (config_bytes c) = 88"
  by (simp add: config_bytes_def config_ok_def)

lemma config_of_bytes: "config_ok c \<Longrightarrow> config_of (config_bytes c) = Inr c"
proof -
  assume ok: "config_ok c"
  let ?bs = "config_bytes c"
  have "le32_at ?bs 0 = Inr (magicNumber c)" by (rule le32_at_ok) (simp add: config_bytes_def)
  moreover have "le32_at ?bs 4 = Inr (config_flag c)" by (rule le32_at_ok) (simp add: config_bytes_def)
  moreover have "load_n ?bs 8 16 = Inr (wifipasscode c)" "load_n ?bs 24 32 = Inr (wifi_ssid c)" "load_n ?bs 56 32 = Inr (wifi_key c)"
    using ok by (simp_all add: load_n_def config_bytes_def config_ok_def)
  ultimately show ?thesis by (simp add: config_of_def)
qed

lemma save_and_get:
  assumes "nor_flash chip" "mm (word_of_nat FLASH_SECTOR_SIZE) \<noteq> None" "flash_ok mem" "config_ok c"
  obtains mem' where "nl6621_SaveConfigData mm chip c mem = Inr mem'" "nl6621_GetConfigData mem' = Inr c" "flash_ok mem'"
    "\<forall>i < length mem. i < 0x64000 \<or> 0x64058 \<le> i \<longrightarrow> mem' ! i = mem ! i"
proof -
  have "WriteFlash mm chip (config_bytes c) 0x64000 mem = Inr (overlay mem 0x64000 (config_bytes c))"
    using assms by (intro WriteFlash_overlay) (simp_all add: flash_ok_def length_config_bytes)
  moreover have "ReadFlash 88 0x64000 (overlay mem 0x64000 (config_bytes c)) = Inr (config_bytes c)"
    using ReadFlash_overlay [of "0x64000" "config_bytes c" mem] assms(3,4) by (simp add: flash_ok_def length_config_bytes)
  ultimately show thesis
    using assms(3,4) config_of_bytes
    by (intro that [of "overlay mem 0x64000 (config_bytes c)"]) (auto simp: nl6621_SaveConfigData_def nl6621_GetConfigData_def AGENT_CONFIG_DATA_ADDR_def sizeof_Agent_config_def
      flash_ok_def length_config_bytes nth_overlay)
qed

lemma config_of_total: "length bs = 88 \<Longrightarrow> \<exists>c. config_of bs = Inr c \<and> config_ok c"
  by (simp add: config_of_def le32_at_def load_def load_n_def config_ok_def)

lemma get_config_total:
  assumes "flash_ok mem"
  obtains c where "nl6621_GetConfigData mem = Inr c" "config_ok c"
proof -
  let ?bs = "take 88 (drop 0x64000 mem)"
  have r: "ReadFlash 88 0x64000 mem = Inr ?bs"
    unfolding ReadFlash_def QSpiFlashRead_def using assms by (intro flash_read_loop_ok) (simp add: flash_ok_def)
  have "length ?bs = 88" using assms by (auto simp: flash_ok_def min_def)
  then obtain c where "config_of ?bs = Inr c" "config_ok c" using config_of_total by blast
  then show thesis
    using r by (intro that) (simp_all add: nl6621_GetConfigData_def sizeof_Agent_config_def AGENT_CONFIG_DATA_ADDR_def)
qed

lemma sint_of_int_no_wrap: "0 \<le> k \<Longrightarrow> k < 2 ^ 31 \<Longrightarrow> sint (word_of_int k :: u32) = k"
  by (subst signed_of_int) (simp add: signed_take_bit_int_eq_self)

lemma make_rand_range:
  assumes "start < stop" "0 \<le> start" "stop < 2 ^ 31 - 1"
  shows "\<exists>v. make_rand r start stop = Inr v \<and> start \<le> v \<and> v \<le> stop"
proof -
  let ?n = "stop - start + 1"
  have n: "sint (word_of_int ?n :: u32) = ?n" using assms by (intro sint_of_int_no_wrap) simp_all
  have m: "0 \<le> int r mod ?n" "int r mod ?n < ?n" using assms(1) by (auto intro: pos_mod_sign pos_mod_bound simp del: zle_add1_eq_le)
  have "sint (word_of_int (int r mod ?n + start) :: u32) = int r mod ?n + start"
    using m assms by (intro sint_of_int_no_wrap) linarith+
  then show ?thesis using n m assms(1) unfolding make_rand_def Let_def by (simp only: n) auto
qed

text \<open>
  What the hardware provides (\<open>dev_ok\<close>), the same with a heap that has a sector's worth of bytes (\<open>env_ok\<close>,
  which \<open>WriteFlash\<close> does not check), and the state at the start and behind every operation.
\<close>

definition dev_ok :: "agent_env \<Rightarrow> bool" where
  "dev_ok env \<longleftrightarrow> nor_flash (env_chip env) \<and> length (env_ssid env) = 33 \<and> length (env_psk env) = 64"

definition env_ok :: "agent_env \<Rightarrow> bool" where
  "env_ok env \<longleftrightarrow> nor_flash (env_chip env) \<and> env_malloc env (word_of_nat FLASH_SECTOR_SIZE) \<noteq> None \<and>
     length (env_ssid env) = 33 \<and> length (env_psk env) = 64"

definition agent_ok :: "agent_state \<Rightarrow> bool" where
  "agent_ok s \<longleftrightarrow> flash_ok (flash_mem s) \<and> config_ok (Agent_config_data s)"

text \<open>The state at power-up, with the contents of the flash and the events to come.\<close>

definition agent_boot :: "bytes \<Rightarrow> sys_evt list list \<Rightarrow> agent_state" where
  "agent_boot mem evs =
     \<lparr>Agent_config_data = \<lparr>magicNumber = 0, config_flag = 0, wifipasscode = replicate 16 0, wifi_ssid = replicate 32 0, wifi_key = replicate 32 0\<rparr>,
      flash_mem = mem, sys_status = SYS_STATUS_WIFI_STOP, onboarding = ONBOARDING_NONE, system_reset_flag = 0, DirectCfgFlag = 0,
      wifi_sta_connect_ap_flag = 0, pending = evs, radio = [], udp_sent = [], broadcasts = 0, open_sockets = 0, chip_resets = 0\<rparr>"

lemma agent_ok_boot [simp]: "agent_ok (agent_boot mem evs) \<longleftrightarrow> flash_ok mem"
  by (simp add: agent_ok_def agent_boot_def config_ok_def)

text \<open>An environment in which nothing fails, and an erased flash of 512 KB.\<close>

definition quiet_env :: agent_env where
  "quiet_env = \<lparr>env_malloc = (\<lambda>n. Some (replicate (unat n) 0)), env_chip = nor_array, env_socket = (\<lambda>n. True), env_setsockopt = (\<lambda>n. True),
     env_sendto = (\<lambda>k. 24), env_ssid = [0x61, 0x62] @ replicate 31 0, env_psk = [0x63] @ replicate 63 0\<rparr>"

lemma env_ok_quiet: "env_ok quiet_env"
  using array.nor_flash_axioms by (simp add: env_ok_def quiet_env_def)

definition erased_flash :: bytes where
  "erased_flash = replicate 0x80000 0xFF"

lemma flash_ok_erased: "flash_ok erased_flash"
  by (simp add: flash_ok_def erased_flash_def)

lemma Agent_SaveSSIDAndKey_ok:
  assumes env: "env_ok env" and s: "agent_ok s" and len: "32 \<le> length pSSID" "32 \<le> length pKey"
  defines "c \<equiv> (Agent_config_data s)\<lparr>wifi_ssid := take 32 pSSID, wifi_key := take 32 pKey,
     config_flag := config_flag (Agent_config_data s) OR XPG_CFG_FLAG_CONNECTED\<rparr>"
  obtains mem where "Agent_SaveSSIDAndKey env pSSID pKey s = Inr (s\<lparr>Agent_config_data := c, flash_mem := mem\<rparr>)"
    "nl6621_GetConfigData mem = Inr c" "agent_ok (s\<lparr>Agent_config_data := c, flash_mem := mem\<rparr>)"
proof -
  have c: "config_ok c" using s len by (simp add: agent_ok_def config_ok_def c_def)
  obtain mem where m: "nl6621_SaveConfigData (env_malloc env) (env_chip env) c (flash_mem s) = Inr mem"
    "nl6621_GetConfigData mem = Inr c" "flash_ok mem"
    using save_and_get [of "env_chip env" "env_malloc env" "flash_mem s" c] env s c by (auto simp: env_ok_def agent_ok_def)
  show thesis
    using m len c by (intro that [of mem]) (simp_all add: Agent_SaveSSIDAndKey_def load_n_def Let_def c_def agent_ok_def)
qed

text \<open>
  How a call may end without touching memory it does not own: with a result, in a wait, or, when the heap
  has no sector buffer, at the null pointer that \<open>WriteFlash\<close> uses all the same.
\<close>

definition safe :: "agent_env \<Rightarrow> ('a \<Rightarrow> bool) \<Rightarrow> 'a outcome \<Rightarrow> bool" where
  "safe env P r \<longleftrightarrow> r = Inl Diverges \<or> (r = Inl NullPointer \<and> env_malloc env (word_of_nat FLASH_SECTOR_SIZE) = None) \<or> (\<exists>x. r = Inr x \<and> P x)"

lemma safe_Inr [simp]: "safe env P (Inr x) \<longleftrightarrow> P x"
  by (auto simp: safe_def)

lemma safe_Diverges [simp]: "safe env P (Inl Diverges)"
  by (simp add: safe_def)

lemma safe_ebind: "safe env Q r \<Longrightarrow> (\<And>x. Q x \<Longrightarrow> safe env P (f x)) \<Longrightarrow> safe env P (ebind r f)"
  by (cases r) (simp_all add: safe_def [of _ _ "Inl _"])

lemma SaveConfigData_cases:
  assumes "dev_ok env" "flash_ok mem" "config_ok c"
  obtains "env_malloc env (word_of_nat FLASH_SECTOR_SIZE) = None" "nl6621_SaveConfigData (env_malloc env) (env_chip env) c mem = Inl NullPointer"
  | mem' where "nl6621_SaveConfigData (env_malloc env) (env_chip env) c mem = Inr mem'" "flash_ok mem'"
proof (cases "env_malloc env (word_of_nat FLASH_SECTOR_SIZE)")
  case None
  then show thesis by (intro that(1)) (simp_all add: nl6621_SaveConfigData_def WriteFlash_def Let_def)
next
  case Some
  then have mm: "env_malloc env (word_of_nat FLASH_SECTOR_SIZE) \<noteq> None" by simp
  have chip: "nor_flash (env_chip env)" using assms(1) by (simp add: dev_ok_def)
  show thesis by (rule save_and_get [where mm = "env_malloc env", OF chip mm assms(2,3)]) (rule that(2))
qed

lemma SaveConfigData_safe:
  assumes "dev_ok env" "flash_ok mem" "config_ok c"
  shows "safe env flash_ok (nl6621_SaveConfigData (env_malloc env) (env_chip env) c mem)"
  by (rule SaveConfigData_cases [OF assms]) (simp_all add: safe_def)

lemma SaveConfigData_returns:
  assumes "dev_ok env" "flash_ok mem" "config_ok c"
  shows "nl6621_SaveConfigData (env_malloc env) (env_chip env) c mem \<noteq> Inl Diverges"
  by (rule SaveConfigData_cases [OF assms]) simp_all

lemma Agent_SaveSSIDAndKey_safe:
  assumes "dev_ok env" "agent_ok s" "32 \<le> length pSSID" "32 \<le> length pKey"
  shows "safe env agent_ok (Agent_SaveSSIDAndKey env pSSID pKey s)"
  using assms
  by (auto simp: Agent_SaveSSIDAndKey_def load_n_def Let_def agent_ok_def config_ok_def intro!: safe_ebind [OF SaveConfigData_safe])

end
