(* ===== verification/WifiConn.thy ===== *)
theory WifiConn
  imports AgentConfig
begin

text \<open>
  The connection manager (\<open>Wifi/wifi_conn.c\<close>): the callback for the events of the Wi-Fi library, the
  start of the access point and station modes, direct configuration and the start of the network.  The
  calls of the parameter interface are recorded in \<open>radio\<close> (theory \<open>SysMgmt\<close> performs them); the library is
  closed code, its events are the component \<open>pending\<close> of the state.
\<close>

section \<open>Events\<close>

definition BSP_ChipReset :: "agent_state \<Rightarrow> agent_state" where
  "BSP_ChipReset s = s\<lparr>chip_resets := chip_resets s + 1\<rparr>"

fun AppEvtCallBack :: "sys_evt \<Rightarrow> agent_state \<Rightarrow> agent_state" where
  "AppEvtCallBack SYS_EVT_LINK_UP s = s\<lparr>DirectCfgFlag := 1, wifi_sta_connect_ap_flag := 1\<rparr>"
| "AppEvtCallBack SYS_EVT_JOIN_FAIL s =
     (let s = s\<lparr>wifi_sta_connect_ap_flag := 0\<rparr> in
      if sys_status s = SYS_STATUS_WIFI_SOFTAP then BSP_ChipReset s else s)"
| "AppEvtCallBack SYS_EVT_DIRECT_CFG_DONE s = s\<lparr>DirectCfgFlag := 1\<rparr>"
| "AppEvtCallBack _ s = s"

text \<open>A wait, during which the library reports the next batch of events.\<close>

definition OSTimeDly :: "agent_state \<Rightarrow> agent_state" where
  "OSTimeDly s = (case pending s of [] \<Rightarrow> s | es # p \<Rightarrow> fold AppEvtCallBack es (s\<lparr>pending := p\<rparr>))"

definition radio_do :: "inf_call list \<Rightarrow> agent_state \<Rightarrow> agent_state" where
  "radio_do cs s = s\<lparr>radio := radio s @ cs\<rparr>"

section \<open>Modes\<close>

definition DRV_WiFi_SoftAPModeStart :: "agent_state \<Rightarrow> agent_state" where
  "DRV_WiFi_SoftAPModeStart s =
     radio_do [Call_InfLoadDefaultParam, Call_InfNetModeSet PARAM_NET_MODE_SOFTAP, Call_InfWiFiStart] (OSTimeDly (radio_do [Call_InfWiFiStop] s))"

text \<open>The polling loop; with no further events it does not end.\<close>

function wait_sta :: "agent_state \<Rightarrow> agent_state outcome" where
  "wait_sta s =
     (if wifi_sta_connect_ap_flag s \<noteq> 2 then Inr s
      else if pending s = [] then Inl Diverges
      else wait_sta (OSTimeDly s))"
  by pat_completeness auto

lemma AppEvtCallBack_keeps [simp]:
  "pending (AppEvtCallBack e s) = pending s" "radio (AppEvtCallBack e s) = radio s"
  "flash_mem (AppEvtCallBack e s) = flash_mem s" "Agent_config_data (AppEvtCallBack e s) = Agent_config_data s"
  "sys_status (AppEvtCallBack e s) = sys_status s" "broadcasts (AppEvtCallBack e s) = broadcasts s"
  "open_sockets (AppEvtCallBack e s) = open_sockets s" "onboarding (AppEvtCallBack e s) = onboarding s"
  "system_reset_flag (AppEvtCallBack e s) = system_reset_flag s" "udp_sent (AppEvtCallBack e s) = udp_sent s"
  by (cases e; simp add: Let_def BSP_ChipReset_def)+

lemma fold_AppEvtCallBack_keeps [simp]:
  "pending (fold AppEvtCallBack es s) = pending s" "radio (fold AppEvtCallBack es s) = radio s"
  "flash_mem (fold AppEvtCallBack es s) = flash_mem s" "Agent_config_data (fold AppEvtCallBack es s) = Agent_config_data s"
  "sys_status (fold AppEvtCallBack es s) = sys_status s" "broadcasts (fold AppEvtCallBack es s) = broadcasts s"
  "open_sockets (fold AppEvtCallBack es s) = open_sockets s" "onboarding (fold AppEvtCallBack es s) = onboarding s"
  "system_reset_flag (fold AppEvtCallBack es s) = system_reset_flag s" "udp_sent (fold AppEvtCallBack es s) = udp_sent s"
  by (induction es arbitrary: s) simp_all

lemma OSTimeDly_keeps [simp]:
  "pending (OSTimeDly s) = tl (pending s)" "radio (OSTimeDly s) = radio s"
  "flash_mem (OSTimeDly s) = flash_mem s" "Agent_config_data (OSTimeDly s) = Agent_config_data s"
  "sys_status (OSTimeDly s) = sys_status s" "broadcasts (OSTimeDly s) = broadcasts s"
  "open_sockets (OSTimeDly s) = open_sockets s" "onboarding (OSTimeDly s) = onboarding s"
  "system_reset_flag (OSTimeDly s) = system_reset_flag s" "udp_sent (OSTimeDly s) = udp_sent s"
  by (simp_all add: OSTimeDly_def split: list.split)

termination wait_sta
  by (relation "measure (\<lambda>s. length (pending s))") auto

declare wait_sta.simps [simp del]

text \<open>
  \<open>flag\<close> 1: with the given name and password, of which \<open>strlen\<close> bytes are set; 0: with the
  system parameters as they are.  The result is 0 for a link and -1 for none.
\<close>

definition DRV_WiFi_StaModeConnStart :: "bytes \<Rightarrow> bytes \<Rightarrow> int \<Rightarrow> agent_state \<Rightarrow> (int \<times> agent_state) outcome" where
  "DRV_WiFi_StaModeConnStart StaSsid StaPass flag s =
     (let s = OSTimeDly (radio_do [Call_InfWiFiStop] s);
          s = (if flag = 1
               then radio_do [Call_InfLoadDefaultParam, Call_InfIpSet 1 0, Call_InfConTryTimesSet 5, Call_InfNetModeSet PARAM_NET_MODE_STA_BSS,
                         Call_InfEncModeSet PARAM_ENC_MODE_AUTO, Call_InfSsidSet (cstr StaSsid), Call_InfKeySet (cstr StaPass)] s
               else radio_do [Call_InfNetModeSet PARAM_NET_MODE_STA_BSS, Call_InfConTryTimesSet 5] s);
          s = OSTimeDly (radio_do [Call_InfWiFiStart] s);
          s = s\<lparr>wifi_sta_connect_ap_flag := 2\<rparr>
      in ebind (wait_sta s) (\<lambda>s. Inr (if wifi_sta_connect_ap_flag s = 1 then 0 else - 1, s)))"

section \<open>The broadcast behind a successful configuration\<close>

text \<open>
  The labelled loop of \<open>RespondConnBroadcast\<close>: \<open>AGAIN\<close> opens the socket number \<open>conncount\<close>, and the
  inner loop counts the datagrams sent (\<open>count\<close>) and the failures (\<open>trycount\<close>); \<open>k\<close> numbers the calls
  of \<open>sendto\<close>.
\<close>

function broadcast_loop :: "agent_env \<Rightarrow> nat \<Rightarrow> nat \<Rightarrow> nat \<Rightarrow> nat \<Rightarrow> agent_state \<Rightarrow> agent_state"
  and broadcast_again :: "agent_env \<Rightarrow> nat \<Rightarrow> nat \<Rightarrow> agent_state \<Rightarrow> agent_state" where
  "broadcast_again env conncount k s =
     (if \<not> env_socket env conncount then s
      else let s = s\<lparr>open_sockets := open_sockets s + 1\<rparr> in
           if \<not> env_setsockopt env conncount then s\<lparr>open_sockets := open_sockets s - 1\<rparr>
           else broadcast_loop env conncount 0 0 k s)"
| "broadcast_loop env conncount trycount count k s =
     (if env_sendto env k < 0
      then let trycount = trycount + 1 in
           if trycount > 5
           then let s = s\<lparr>open_sockets := open_sockets s - 1\<rparr>; conncount = conncount + 1 in
                if conncount > 3 then s else broadcast_again env conncount (k + 1) s
           else broadcast_loop env conncount trycount count (k + 1) s
      else let s = s\<lparr>broadcasts := broadcasts s + 1\<rparr> in
           if count < 20 then broadcast_loop env conncount trycount (count + 1) (k + 1) s
           else s\<lparr>open_sockets := open_sockets s - 1\<rparr>)"
  by pat_completeness auto
termination
  by (relation "inv_image (less_than <*lex*> less_than <*lex*> less_than)
     (\<lambda>x. case x of Inr (env, conn, k, s) \<Rightarrow> (4 - conn, 1, 0)
                | Inl (env, conn, try, count, k, s) \<Rightarrow> (4 - conn, 0, (6 - try) + (20 - count)))") auto

declare broadcast_loop.simps [simp del] broadcast_again.simps [simp del]

definition RespondConnBroadcast :: "agent_env \<Rightarrow> agent_state \<Rightarrow> agent_state" where
  "RespondConnBroadcast env s = broadcast_again env 0 0 s"

section \<open>Direct configuration and the start of the network\<close>

function wait_direct :: "agent_state \<Rightarrow> agent_state outcome" where
  "wait_direct s =
     (if DirectCfgFlag s = 1 then Inr (s\<lparr>DirectCfgFlag := 0\<rparr>)
      else if pending s = [] then Inl Diverges
      else wait_direct (OSTimeDly s))"
  by pat_completeness auto
termination
  by (relation "measure (\<lambda>s. length (pending s))") auto

declare wait_direct.simps [simp del]

definition StartDirectConfigConn :: "agent_env \<Rightarrow> agent_state \<Rightarrow> (int \<times> agent_state) outcome" where
  "StartDirectConfigConn env s =
     ebind (wait_direct (radio_do [Call_InfDirectCfgStart] (s\<lparr>DirectCfgFlag := 0\<rparr>))) (\<lambda>s.
     ebind (DRV_WiFi_StaModeConnStart [] [] 0 (radio_do [Call_InfWiFiStop] s)) (\<lambda>(ret, s).
     if ret \<noteq> 0 then Inr (- 1, s)
     else ebind (Agent_SaveSSIDAndKey env (env_ssid env) (env_psk env) s) (\<lambda>s.
          Inr (0, RespondConnBroadcast env s))))"

definition Agent_reset_init :: "agent_state \<Rightarrow> agent_state" where
  "Agent_reset_init s = s\<lparr>system_reset_flag := 0x12345678\<rparr>"

definition wifissid :: cstring where
  "wifissid = [0x4e, 0x55, 0x46, 0x52, 0x4f, 0x4e, 0x54, 0x2d, 0x74, 0x65, 0x73, 0x74, 0x30, 0x33]"
definition wifikey :: cstring where
  "wifikey = [0x6e, 0x75, 0x66, 0x72, 0x6f, 0x6e, 0x74, 0x2e, 0x69, 0x6f, 0x70, 0x6a, 0x6b, 0x6c, 0x62, 0x6e, 0x6d]"

text \<open>\<open>MEMCPY(field, name, strlen(name)); field[strlen(name)] = 0;\<close>\<close>

definition set_name :: "bytes \<Rightarrow> cstring \<Rightarrow> bytes outcome" where
  "set_name field name = ebind (store_n field 0 name) (\<lambda>field. store field (length name) 0)"

text \<open>
  The part of \<open>Agent_network_init\<close> behind direct configuration.  The name goes to the library as the
  string that starts at \<open>wifi_ssid\<close>; \<open>wifi_key\<close> follows it in memory.
\<close>

definition network_start :: "agent_state \<Rightarrow> agent_state outcome" where
  "network_start s =
     (let s = Agent_reset_init s;
          softap = (\<lambda>s. (DRV_WiFi_SoftAPModeStart s)\<lparr>sys_status := SYS_STATUS_WIFI_SOFTAP\<rparr>)
      in
      ebind (nl6621_GetConfigData (flash_mem s)) (\<lambda>c.
      ebind (set_name (wifi_ssid c) wifissid) (\<lambda>ssid.
      ebind (set_name (wifi_key c) wifikey) (\<lambda>key.
      let c = c\<lparr>config_flag := config_flag c OR XPG_CFG_FLAG_CONNECTED, wifi_ssid := ssid, wifi_key := key\<rparr>;
          s = s\<lparr>Agent_config_data := c\<rparr>
      in if config_flag c AND XPG_CFG_FLAG_CONNECTED = XPG_CFG_FLAG_CONNECTED
         then ebind (DRV_WiFi_StaModeConnStart (wifi_ssid c @ wifi_key c) (wifi_key c) 1 (s\<lparr>sys_status := SYS_STATUS_WIFI_DIRECTCONFING\<rparr>)) (\<lambda>(ret, s).
              Inr (if ret \<noteq> 0 then softap s else s\<lparr>sys_status := SYS_STATUS_WIFI_STA_CONNECTED\<rparr>))
         else Inr (softap s)))))"

text \<open>\<open>gpio\<close> gives the level of the button at the two readings.\<close>

definition Agent_network_init :: "agent_env \<Rightarrow> (nat \<Rightarrow> u8) \<Rightarrow> agent_state \<Rightarrow> agent_state outcome" where
  "Agent_network_init env gpio s =
     (if gpio 0 = 0
      then let s = OSTimeDly s in
           if gpio 1 = 0
           then ebind (StartDirectConfigConn env (s\<lparr>sys_status := SYS_STATUS_WIFI_DIRECTCONFING\<rparr>)) (\<lambda>(ret, s).
                if ret = 0 then Inr (Agent_reset_init (s\<lparr>sys_status := SYS_STATUS_WIFI_STA_CONNECTED\<rparr>))
                else network_start s)
           else network_start s
      else network_start s)"

section \<open>Polling for the result of a connection\<close>

text \<open>
  What decides a connection: the first wait with a link or a failed join, and there the last of these.
\<close>

fun decisive :: "sys_evt \<Rightarrow> bool" where
  "decisive SYS_EVT_LINK_UP = True"
| "decisive SYS_EVT_JOIN_FAIL = True"
| "decisive _ = False"

primrec verdict :: "sys_evt list list \<Rightarrow> sys_evt option" where
  "verdict [] = None"
| "verdict (es # p) = (if filter decisive es = [] then verdict p else Some (last (filter decisive es)))"

text \<open>What the waits do not change.\<close>

definition same_but_flags :: "agent_state \<Rightarrow> agent_state \<Rightarrow> bool" where
  "same_but_flags s t \<longleftrightarrow> flash_mem t = flash_mem s \<and> Agent_config_data t = Agent_config_data s \<and> radio t = radio s \<and>
     sys_status t = sys_status s \<and> onboarding t = onboarding s \<and> broadcasts t = broadcasts s \<and>
     open_sockets t = open_sockets s \<and> udp_sent t = udp_sent s \<and> system_reset_flag t = system_reset_flag s \<and>
     chip_resets s \<le> chip_resets t"

lemma same_but_flags_refl [simp]: "same_but_flags s s"
  by (simp add: same_but_flags_def)

lemma same_but_flags_trans: "same_but_flags s t \<Longrightarrow> same_but_flags t u \<Longrightarrow> same_but_flags s u"
  by (auto simp: same_but_flags_def)

lemma chip_resets_fold:
  "chip_resets s \<le> chip_resets (fold AppEvtCallBack es s)"
  "SYS_EVT_JOIN_FAIL \<in> set es \<Longrightarrow> sys_status s = SYS_STATUS_WIFI_SOFTAP \<Longrightarrow> chip_resets s < chip_resets (fold AppEvtCallBack es s)"
proof -
  have step: "chip_resets s \<le> chip_resets (AppEvtCallBack e s)" for e s
    by (cases e) (simp_all add: Let_def BSP_ChipReset_def)
  have mono: "chip_resets s \<le> chip_resets (fold AppEvtCallBack es s)" for es s
  proof (induction es arbitrary: s)
    case (Cons e es)
    from order_trans [OF step Cons] show ?case by simp
  qed simp
  show "chip_resets s \<le> chip_resets (fold AppEvtCallBack es s)" by (rule mono)
  show "chip_resets s < chip_resets (fold AppEvtCallBack es s)"
    if "SYS_EVT_JOIN_FAIL \<in> set es" "sys_status s = SYS_STATUS_WIFI_SOFTAP"
    using that
  proof (induction es arbitrary: s)
    case (Cons e es)
    show ?case
    proof (cases "e = SYS_EVT_JOIN_FAIL")
      case True
      then have "chip_resets s < chip_resets (AppEvtCallBack e s)" using Cons.prems(2) by (simp add: Let_def BSP_ChipReset_def)
      from less_le_trans [OF this mono] show ?thesis by simp
    next
      case False
      then have "chip_resets (AppEvtCallBack e s) < chip_resets (fold AppEvtCallBack es (AppEvtCallBack e s))"
        using Cons.prems by (intro Cons.IH) simp_all
      from le_less_trans [OF step this] show ?thesis by simp
    qed
  qed simp
qed

lemma chip_resets_OSTimeDly [simp]: "chip_resets s \<le> chip_resets (OSTimeDly s)"
proof (cases "pending s")
  case (Cons es p)
  then show ?thesis using chip_resets_fold(1) [of "s\<lparr>pending := p\<rparr>" es] by (simp add: OSTimeDly_def)
qed (simp add: OSTimeDly_def)

lemma same_but_flags_OSTimeDly [simp]: "same_but_flags s (OSTimeDly s)"
  by (simp add: same_but_flags_def)

lemma flag_fold:
  "wifi_sta_connect_ap_flag (fold AppEvtCallBack es s) =
     (if filter decisive es = [] then wifi_sta_connect_ap_flag s
      else if last (filter decisive es) = SYS_EVT_LINK_UP then 1 else 0)"
proof (induction es rule: rev_induct)
  case (snoc e es)
  then show ?case by (cases e) (auto simp: Let_def BSP_ChipReset_def)
qed simp

lemma wait_sta_none:
  "verdict (pending s) = None \<Longrightarrow> wifi_sta_connect_ap_flag s = 2 \<Longrightarrow> wait_sta s = Inl Diverges"
proof (induction "pending s" arbitrary: s)
  case (Cons es p)
  have "filter decisive es = []" "verdict p = None" using Cons.prems(1) Cons.hyps(2) [symmetric] by (auto split: if_splits)
  then have "wait_sta (OSTimeDly s) = Inl Diverges"
    using Cons.prems(2) Cons.hyps(2) [symmetric] by (intro Cons.hyps(1)) (simp_all add: OSTimeDly_def flag_fold)
  then show ?case using Cons.prems(2) Cons.hyps(2) [symmetric] by (simp add: wait_sta.simps [of s])
qed (simp add: wait_sta.simps)

lemma wait_sta_some:
  "verdict (pending s) = Some e \<Longrightarrow> wifi_sta_connect_ap_flag s = 2 \<Longrightarrow>
   \<exists>t. wait_sta s = Inr t \<and> wifi_sta_connect_ap_flag t = (if e = SYS_EVT_LINK_UP then 1 else 0) \<and> same_but_flags s t"
proof (induction "pending s" arbitrary: s)
  case (Cons es p)
  note p = Cons.hyps(2) [symmetric]
  have step: "wait_sta s = wait_sta (OSTimeDly s)" using Cons.prems(2) p by (simp add: wait_sta.simps [of s])
  show ?case
  proof (cases "filter decisive es = []")
    case True
    then have "\<exists>t. wait_sta (OSTimeDly s) = Inr t \<and> wifi_sta_connect_ap_flag t = (if e = SYS_EVT_LINK_UP then 1 else 0) \<and>
        same_but_flags (OSTimeDly s) t"
      using Cons.prems p by (intro Cons.hyps(1)) (simp_all add: OSTimeDly_def flag_fold)
    then show ?thesis unfolding step using same_but_flags_trans [OF same_but_flags_OSTimeDly] by blast
  next
    case False
    then have f: "wifi_sta_connect_ap_flag (OSTimeDly s) = (if e = SYS_EVT_LINK_UP then 1 else 0)"
      using Cons.prems p by (simp add: OSTimeDly_def flag_fold)
    then have "wait_sta (OSTimeDly s) = Inr (OSTimeDly s)" by (simp add: wait_sta.simps [of "OSTimeDly s"])
    then show ?thesis using f step by simp
  qed
qed simp

lemma wait_sta_join_fail:
  "wait_sta s = Inr t \<Longrightarrow> wifi_sta_connect_ap_flag s = 2 \<Longrightarrow> verdict (pending s) = Some SYS_EVT_JOIN_FAIL \<Longrightarrow>
   sys_status s = SYS_STATUS_WIFI_SOFTAP \<Longrightarrow> chip_resets s < chip_resets t"
proof (induction "pending s" arbitrary: s)
  case (Cons es p)
  note p = Cons.hyps(2) [symmetric]
  have step: "wait_sta (OSTimeDly s) = Inr t" using Cons.prems(1,2) p by (simp add: wait_sta.simps [of s])
  show ?case
  proof (cases "filter decisive es = []")
    case True
    then have "chip_resets (OSTimeDly s) < chip_resets t"
      using Cons.prems(2-4) p step by (intro Cons.hyps(1)) (simp_all add: OSTimeDly_def flag_fold)
    then show ?thesis using chip_resets_OSTimeDly [of s] by linarith
  next
    case False
    then have last: "last (filter decisive es) = SYS_EVT_JOIN_FAIL" using Cons.prems(3) p by simp
    then have "SYS_EVT_JOIN_FAIL \<in> set es" using False by (metis filter_is_subset last_in_set subsetD)
    then have "chip_resets s < chip_resets (OSTimeDly s)"
      using chip_resets_fold(2) [of es "s\<lparr>pending := p\<rparr>"] Cons.prems(4) p by (simp add: OSTimeDly_def)
    moreover have "wifi_sta_connect_ap_flag (OSTimeDly s) = 0" using False last p by (simp add: OSTimeDly_def flag_fold)
    then have "wait_sta (OSTimeDly s) = Inr (OSTimeDly s)" by (simp add: wait_sta.simps [of "OSTimeDly s"])
    ultimately show ?thesis using step by simp
  qed
qed simp

definition sta_commands :: "bytes \<Rightarrow> bytes \<Rightarrow> int \<Rightarrow> inf_call list" where
  "sta_commands ssid pass flag = Call_InfWiFiStop #
     (if flag = 1
      then [Call_InfLoadDefaultParam, Call_InfIpSet 1 0, Call_InfConTryTimesSet 5, Call_InfNetModeSet PARAM_NET_MODE_STA_BSS,
            Call_InfEncModeSet PARAM_ENC_MODE_AUTO, Call_InfSsidSet (cstr ssid), Call_InfKeySet (cstr pass)]
      else [Call_InfNetModeSet PARAM_NET_MODE_STA_BSS, Call_InfConTryTimesSet 5]) @ [Call_InfWiFiStart]"

lemma StaModeConnStart_none:
  "verdict (drop 2 (pending s)) = None \<Longrightarrow> DRV_WiFi_StaModeConnStart ssid pass flag s = Inl Diverges"
  by (simp add: DRV_WiFi_StaModeConnStart_def Let_def wait_sta_none radio_do_def drop_Suc numeral_2_eq_2)

lemma StaModeConnStart_some:
  assumes "verdict (drop 2 (pending s)) = Some e"
  obtains t where "DRV_WiFi_StaModeConnStart ssid pass flag s = Inr (if e = SYS_EVT_LINK_UP then 0 else - 1, t)"
    "same_but_flags (s\<lparr>radio := radio s @ sta_commands ssid pass flag\<rparr>) t"
    "e = SYS_EVT_JOIN_FAIL \<Longrightarrow> sys_status s = SYS_STATUS_WIFI_SOFTAP \<Longrightarrow> chip_resets s < chip_resets t"
proof -
  define v where "v = radio_do [Call_InfWiFiStart] ((if flag = 1
      then radio_do [Call_InfLoadDefaultParam, Call_InfIpSet 1 0, Call_InfConTryTimesSet 5, Call_InfNetModeSet PARAM_NET_MODE_STA_BSS,
                Call_InfEncModeSet PARAM_ENC_MODE_AUTO, Call_InfSsidSet (cstr ssid), Call_InfKeySet (cstr pass)]
      else radio_do [Call_InfNetModeSet PARAM_NET_MODE_STA_BSS, Call_InfConTryTimesSet 5]) (OSTimeDly (radio_do [Call_InfWiFiStop] s)))"
  define u where "u = (OSTimeDly v)\<lparr>wifi_sta_connect_ap_flag := 2\<rparr>"
  have "same_but_flags (s\<lparr>radio := radio s @ sta_commands ssid pass flag\<rparr>) v"
    using chip_resets_OSTimeDly [of "radio_do [Call_InfWiFiStop] s"] by (simp add: v_def same_but_flags_def radio_do_def sta_commands_def)
  moreover have "same_but_flags v u" by (simp add: u_def same_but_flags_def)
  ultimately have same: "same_but_flags (s\<lparr>radio := radio s @ sta_commands ssid pass flag\<rparr>) u" by (rule same_but_flags_trans)
  have p: "pending u = drop 2 (pending s)" by (simp add: u_def v_def radio_do_def drop_Suc numeral_2_eq_2)
  obtain t where t: "wait_sta u = Inr t" "wifi_sta_connect_ap_flag t = (if e = SYS_EVT_LINK_UP then 1 else 0)" "same_but_flags u t"
    using wait_sta_some [of u e] assms p by (auto simp: u_def)
  have "DRV_WiFi_StaModeConnStart ssid pass flag s = ebind (wait_sta u) (\<lambda>s. Inr (if wifi_sta_connect_ap_flag s = 1 then 0 else - 1, s))"
    by (simp add: DRV_WiFi_StaModeConnStart_def Let_def u_def v_def)
  moreover have "chip_resets s < chip_resets t" if "e = SYS_EVT_JOIN_FAIL" "sys_status s = SYS_STATUS_WIFI_SOFTAP"
  proof -
    have "chip_resets u < chip_resets t"
      using t(1) assms p that same by (intro wait_sta_join_fail) (simp_all add: u_def v_def same_but_flags_def)
    then show ?thesis using same by (simp add: same_but_flags_def)
  qed
  ultimately show thesis using t same same_but_flags_trans by (intro that [of t]) auto
qed

lemma StaModeConnStart_cases:
  obtains "DRV_WiFi_StaModeConnStart ssid pass flag s = Inl Diverges"
  | ret t where "DRV_WiFi_StaModeConnStart ssid pass flag s = Inr (ret, t)"
      "same_but_flags (s\<lparr>radio := radio s @ sta_commands ssid pass flag\<rparr>) t"
proof (cases "verdict (drop 2 (pending s))")
  case None
  then show thesis by (intro that(1) StaModeConnStart_none)
next
  case (Some e)
  show thesis by (rule StaModeConnStart_some [OF Some]) (rule that(2))
qed

text \<open>
  C32: Starting the station mode ends exactly when the library reports a link or a failed join after the
  first two waits, and returns 0 exactly for the link.  An event that arrives before, between the start
  of the radio and the write of the polled flag, is lost: without a later one the call never returns.
  The name and the password are handed over up to their first NUL.
\<close>

theorem sta_connect_verdict:
  "case verdict (drop 2 (pending s)) of
     None \<Rightarrow> DRV_WiFi_StaModeConnStart ssid pass 1 s = Inl Diverges
   | Some e \<Rightarrow> \<exists>t. DRV_WiFi_StaModeConnStart ssid pass 1 s = Inr (if e = SYS_EVT_LINK_UP then 0 else - 1, t) \<and>
       radio t = radio s @ [Call_InfWiFiStop, Call_InfLoadDefaultParam, Call_InfIpSet 1 0, Call_InfConTryTimesSet 5, Call_InfNetModeSet PARAM_NET_MODE_STA_BSS,
         Call_InfEncModeSet PARAM_ENC_MODE_AUTO, Call_InfSsidSet (cstr ssid), Call_InfKeySet (cstr pass), Call_InfWiFiStart] \<and>
       flash_mem t = flash_mem s \<and> sys_status t = sys_status s"
proof (cases "verdict (drop 2 (pending s))")
  case (Some e)
  obtain t where "DRV_WiFi_StaModeConnStart ssid pass 1 s = Inr (if e = SYS_EVT_LINK_UP then 0 else - 1, t)"
    "same_but_flags (s\<lparr>radio := radio s @ sta_commands ssid pass 1\<rparr>) t"
    using StaModeConnStart_some [OF Some] by blast
  then show ?thesis using Some by (simp add: same_but_flags_def sta_commands_def)
qed (simp add: StaModeConnStart_none)

section \<open>Sockets and datagrams of the broadcast\<close>

lemma broadcast_counts:
  "conncount \<le> 3 \<Longrightarrow> count \<le> 20 \<Longrightarrow> 0 < open_sockets s \<Longrightarrow>
     open_sockets (broadcast_loop env conncount trycount count k s) = open_sockets s - 1 \<and>
     broadcasts s \<le> broadcasts (broadcast_loop env conncount trycount count k s) \<and>
     broadcasts (broadcast_loop env conncount trycount count k s) \<le> broadcasts s + (21 - count) + 20 * (3 - conncount)"
  "conncount \<le> 3 \<Longrightarrow>
     open_sockets (broadcast_again env conncount k s) = open_sockets s \<and>
     broadcasts s \<le> broadcasts (broadcast_again env conncount k s) \<and>
     broadcasts (broadcast_again env conncount k s) \<le> broadcasts s + 21 + 20 * (3 - conncount)"
proof (induction env conncount trycount count k s and env conncount k s rule: broadcast_loop_broadcast_again.induct)
  case (1 env conncount k s)
  then show ?case by (simp add: broadcast_again.simps [of env conncount] Let_def)
next
  case (2 env conncount trycount count k s)
  show ?case
  proof (cases "env_sendto env k < 0")
    case True
    let ?s = "s\<lparr>open_sockets := open_sockets s - 1\<rparr>"
    consider "trycount \<le> 4" | "4 < trycount" "conncount = 3" | "4 < trycount" "conncount < 3"
      using "2.prems"(1) by linarith
    then show ?thesis
    proof cases
      case 3
      then have "open_sockets (broadcast_again env (conncount + 1) (k + 1) ?s) = open_sockets ?s \<and>
          broadcasts ?s \<le> broadcasts (broadcast_again env (conncount + 1) (k + 1) ?s) \<and>
          broadcasts (broadcast_again env (conncount + 1) (k + 1) ?s) \<le> broadcasts ?s + 21 + 20 * (3 - (conncount + 1))"
        using "2.IH"(1) [OF True refl _ refl refl] by simp
      then show ?thesis using True 3 "2.prems"(2) by (simp add: broadcast_loop.simps [of env conncount] Let_def) arith
    qed (use True "2.IH"(2) "2.prems" in \<open>auto simp: broadcast_loop.simps [of env _ trycount] Let_def\<close>)
  next
    case False
    let ?s = "s\<lparr>broadcasts := broadcasts s + 1\<rparr>"
    have "open_sockets (broadcast_loop env conncount trycount (count + 1) (k + 1) ?s) = open_sockets ?s - 1 \<and>
        broadcasts ?s \<le> broadcasts (broadcast_loop env conncount trycount (count + 1) (k + 1) ?s) \<and>
        broadcasts (broadcast_loop env conncount trycount (count + 1) (k + 1) ?s) \<le> broadcasts ?s + (21 - (count + 1)) + 20 * (3 - conncount)"
      if "count < 20"
      using "2.IH"(3) [OF False refl that] "2.prems" that by simp
    moreover have "count < 20 \<or> count = 20" using "2.prems"(2) by auto
    moreover have "broadcast_loop env conncount trycount count k s =
        (if count < 20 then broadcast_loop env conncount trycount (count + 1) (k + 1) ?s else ?s\<lparr>open_sockets := open_sockets s - 1\<rparr>)"
      using False by (simp add: broadcast_loop.simps [of env conncount trycount count] Let_def)
    ultimately show ?thesis by (elim disjE) (simp_all, arith)
  qed
qed

lemma broadcast_all_sent:
  "(\<And>k. 0 \<le> env_sendto env k) \<Longrightarrow> count \<le> 20 \<Longrightarrow>
     broadcasts (broadcast_loop env conncount 0 count k s) = broadcasts s + (21 - count)"
proof (induction "20 - count" arbitrary: count k s)
  case 0
  then show ?case by (simp add: broadcast_loop.simps not_less [symmetric])
next
  case (Suc n)
  then have "count < 20" "\<not> env_sendto env k < 0" by (simp_all add: not_less)
  then show ?case using Suc.hyps(1) [of "count + 1" "k + 1" "s\<lparr>broadcasts := broadcasts s + 1\<rparr>"] Suc.hyps(2) Suc.prems
    by (simp add: broadcast_loop.simps [of env conncount 0 count] Let_def)
qed

text \<open>
  C33: \<open>RespondConnBroadcast\<close> ends whatever the stack answers, closes every socket it has opened and sends
  at most 81 datagrams; when nothing fails it sends 21.
\<close>

theorem broadcast_bounded:
  "open_sockets (RespondConnBroadcast env s) = open_sockets s \<and>
   broadcasts s \<le> broadcasts (RespondConnBroadcast env s) \<and> broadcasts (RespondConnBroadcast env s) \<le> broadcasts s + 81 \<and>
   (env_socket env 0 \<and> env_setsockopt env 0 \<and> (\<forall>k. 0 \<le> env_sendto env k) \<longrightarrow> broadcasts (RespondConnBroadcast env s) = broadcasts s + 21)"
  using broadcast_counts(2) [of 0 env 0 s] broadcast_all_sent [of env 0 0 0 "s\<lparr>open_sockets := open_sockets s + 1\<rparr>"]
  by (auto simp: RespondConnBroadcast_def broadcast_again.simps [of env 0] Let_def)

theorem broadcast_bounded_witness:
  "broadcasts (RespondConnBroadcast quiet_env (agent_boot erased_flash [])) = 21"
  using broadcast_bounded [of quiet_env "agent_boot erased_flash []"] by (simp add: quiet_env_def agent_boot_def)

lemma RespondConnBroadcast_keeps [simp]:
  "flash_mem (RespondConnBroadcast env s) = flash_mem s" "Agent_config_data (RespondConnBroadcast env s) = Agent_config_data s"
  "radio (RespondConnBroadcast env s) = radio s" "chip_resets (RespondConnBroadcast env s) = chip_resets s"
  "sys_status (RespondConnBroadcast env s) = sys_status s"
proof -
  let ?same = "\<lambda>s t. flash_mem t = flash_mem s \<and> Agent_config_data t = Agent_config_data s \<and> radio t = radio s \<and>
    chip_resets t = chip_resets s \<and> sys_status t = sys_status s"
  have "?same s (broadcast_loop env conncount trycount count k s)" "?same s (broadcast_again env conncount k s)" for conncount trycount count k
  proof (induction env conncount trycount count k s and env conncount k s rule: broadcast_loop_broadcast_again.induct)
    case (1 env conncount k s)
    then show ?case by (simp add: broadcast_again.simps [of env conncount] Let_def)
  next
    case (2 env conncount trycount count k s)
    then show ?case by (simp add: broadcast_loop.simps [of env conncount trycount count] Let_def)
  qed
  then show "flash_mem (RespondConnBroadcast env s) = flash_mem s" "Agent_config_data (RespondConnBroadcast env s) = Agent_config_data s"
    "radio (RespondConnBroadcast env s) = radio s" "chip_resets (RespondConnBroadcast env s) = chip_resets s"
    "sys_status (RespondConnBroadcast env s) = sys_status s"
    by (simp_all add: RespondConnBroadcast_def)
qed

section \<open>Direct configuration\<close>

text \<open>The waits behind the one in which direct configuration is done.\<close>

primrec direct_rest :: "sys_evt list list \<Rightarrow> sys_evt list list option" where
  "direct_rest [] = None"
| "direct_rest (es # p) = (if SYS_EVT_LINK_UP \<in> set es \<or> SYS_EVT_DIRECT_CFG_DONE \<in> set es then Some p else direct_rest p)"

lemma DirectCfgFlag_fold:
  "DirectCfgFlag (fold AppEvtCallBack es s) =
     (if SYS_EVT_LINK_UP \<in> set es \<or> SYS_EVT_DIRECT_CFG_DONE \<in> set es then 1 else DirectCfgFlag s)"
proof (induction es rule: rev_induct)
  case (snoc e es)
  then show ?case by (cases e) (auto simp: Let_def BSP_ChipReset_def)
qed simp

lemma wait_direct_rest:
  "DirectCfgFlag s = 0 \<Longrightarrow>
   (case direct_rest (pending s) of
      None \<Rightarrow> wait_direct s = Inl Diverges
    | Some p \<Rightarrow> \<exists>t. wait_direct s = Inr t \<and> pending t = p \<and> same_but_flags s t)"
proof (induction "pending s" arbitrary: s)
  case (Cons es p)
  note p = Cons.hyps(2) [symmetric]
  have step: "wait_direct s = wait_direct (OSTimeDly s)" using Cons.prems p by (simp add: wait_direct.simps [of s])
  show ?case
  proof (cases "SYS_EVT_LINK_UP \<in> set es \<or> SYS_EVT_DIRECT_CFG_DONE \<in> set es")
    case True
    then have "DirectCfgFlag (OSTimeDly s) = 1" using p by (simp add: OSTimeDly_def DirectCfgFlag_fold)
    then have "wait_direct (OSTimeDly s) = Inr ((OSTimeDly s)\<lparr>DirectCfgFlag := 0\<rparr>)"
      by (simp add: wait_direct.simps [of "OSTimeDly s"])
    then show ?thesis using True p step by (simp add: same_but_flags_def)
  next
    case False
    then have "case direct_rest (pending (OSTimeDly s)) of None \<Rightarrow> wait_direct (OSTimeDly s) = Inl Diverges
        | Some p \<Rightarrow> \<exists>t. wait_direct (OSTimeDly s) = Inr t \<and> pending t = p \<and> same_but_flags (OSTimeDly s) t"
      using Cons.prems p by (intro Cons.hyps(1)) (simp_all add: OSTimeDly_def DirectCfgFlag_fold)
    then show ?thesis
      unfolding step using p False same_but_flags_trans [OF same_but_flags_OSTimeDly] by (auto split: option.splits)
  qed
qed (simp add: wait_direct.simps)

lemma agent_ok_same: "same_but_flags s t \<Longrightarrow> agent_ok t = agent_ok s"
  by (simp add: same_but_flags_def agent_ok_def)

lemma StartDirectConfigConn_ok:
  assumes env: "env_ok env" and s: "agent_ok s" and dir: "direct_rest (pending s) = Some p" and v: "verdict (drop 2 p) = Some e"
  obtains t where "StartDirectConfigConn env s = Inr (if e = SYS_EVT_LINK_UP then 0 else - 1, t)" "agent_ok t"
    "e = SYS_EVT_LINK_UP \<Longrightarrow> nl6621_GetConfigData (flash_mem t) = Inr ((Agent_config_data s)\<lparr>wifi_ssid := take 32 (env_ssid env),
       wifi_key := take 32 (env_psk env), config_flag := config_flag (Agent_config_data s) OR XPG_CFG_FLAG_CONNECTED\<rparr>)"
proof -
  let ?s = "radio_do [Call_InfDirectCfgStart] (s\<lparr>DirectCfgFlag := 0\<rparr>)"
  obtain u where u: "wait_direct ?s = Inr u" "pending u = p" "same_but_flags ?s u"
    using wait_direct_rest [of ?s] dir by (auto simp: radio_do_def)
  have pw: "verdict (drop 2 (pending (radio_do [Call_InfWiFiStop] u))) = Some e" using v u(2) by (simp add: radio_do_def)
  obtain w where w: "DRV_WiFi_StaModeConnStart [] [] 0 (radio_do [Call_InfWiFiStop] u) = Inr (if e = SYS_EVT_LINK_UP then 0 else - 1, w)"
    "same_but_flags ((radio_do [Call_InfWiFiStop] u)\<lparr>radio := radio (radio_do [Call_InfWiFiStop] u) @ sta_commands [] [] 0\<rparr>) w"
    using StaModeConnStart_some [of "radio_do [Call_InfWiFiStop] u" e] pw by blast
  have keep: "flash_mem w = flash_mem s" "Agent_config_data w = Agent_config_data s"
    using u(3) w(2) by (simp_all add: same_but_flags_def radio_do_def)
  then have ok: "agent_ok w" using s by (simp add: agent_ok_def)
  show thesis
  proof (cases "e = SYS_EVT_LINK_UP")
    case True
    obtain mem where m: "Agent_SaveSSIDAndKey env (env_ssid env) (env_psk env) w =
        Inr (w\<lparr>Agent_config_data := (Agent_config_data w)\<lparr>wifi_ssid := take 32 (env_ssid env), wifi_key := take 32 (env_psk env),
          config_flag := config_flag (Agent_config_data w) OR XPG_CFG_FLAG_CONNECTED\<rparr>, flash_mem := mem\<rparr>)"
      "nl6621_GetConfigData mem = Inr ((Agent_config_data w)\<lparr>wifi_ssid := take 32 (env_ssid env), wifi_key := take 32 (env_psk env),
          config_flag := config_flag (Agent_config_data w) OR XPG_CFG_FLAG_CONNECTED\<rparr>)"
      "agent_ok (w\<lparr>Agent_config_data := (Agent_config_data w)\<lparr>wifi_ssid := take 32 (env_ssid env), wifi_key := take 32 (env_psk env),
          config_flag := config_flag (Agent_config_data w) OR XPG_CFG_FLAG_CONNECTED\<rparr>, flash_mem := mem\<rparr>)"
      using Agent_SaveSSIDAndKey_ok [OF env ok, of "env_ssid env" "env_psk env"] env by (auto simp: env_ok_def)
    show thesis
      using True u(1) w(1) m keep by (intro that) (auto simp: StartDirectConfigConn_def agent_ok_def)
  qed (use u(1) w(1) ok in \<open>auto intro!: that simp: StartDirectConfigConn_def\<close>)
qed

text \<open>
  With the button for direct configuration held at the start and a link to the configured network,
  the agent is connected, and the flash holds the name and the password (32 bytes each) with the flag
  that says so.
\<close>

theorem direct_config_persists:
  assumes "env_ok env" "agent_ok s" "gpio 0 = 0" "gpio 1 = 0"
    and "direct_rest (tl (pending s)) = Some p" "verdict (drop 2 p) = Some SYS_EVT_LINK_UP"
  shows "\<exists>t. Agent_network_init env gpio s = Inr t \<and> sys_status t = SYS_STATUS_WIFI_STA_CONNECTED \<and>
    nl6621_GetConfigData (flash_mem t) = Inr ((Agent_config_data s)\<lparr>wifi_ssid := take 32 (env_ssid env),
      wifi_key := take 32 (env_psk env), config_flag := config_flag (Agent_config_data s) OR XPG_CFG_FLAG_CONNECTED\<rparr>)"
proof -
  let ?s = "(OSTimeDly s)\<lparr>sys_status := SYS_STATUS_WIFI_DIRECTCONFING\<rparr>"
  have "agent_ok ?s" using assms(2) by (simp add: agent_ok_def)
  then obtain t where "StartDirectConfigConn env ?s = Inr (0, t)"
    "nl6621_GetConfigData (flash_mem t) = Inr ((Agent_config_data s)\<lparr>wifi_ssid := take 32 (env_ssid env),
       wifi_key := take 32 (env_psk env), config_flag := config_flag (Agent_config_data s) OR XPG_CFG_FLAG_CONNECTED\<rparr>)"
    using StartDirectConfigConn_ok [OF assms(1), of ?s p SYS_EVT_LINK_UP] assms(5,6) by auto
  then show ?thesis using assms(3,4) by (simp add: Agent_network_init_def Let_def Agent_reset_init_def)
qed

section \<open>The start of the network\<close>

lemma set_name_ok:
  "length name < length field \<Longrightarrow> set_name field name = Inr (name @ 0 # drop (Suc (length name)) field)"
  by (simp add: set_name_def store_n_def store_def list_update_append drop_nth_Cons)

lemma set_network_names:
  assumes "config_ok c"
  shows "set_name (wifi_ssid c) wifissid = Inr (wifissid @ 0 # drop 15 (wifi_ssid c))"
    "set_name (wifi_key c) wifikey = Inr (wifikey @ 0 # drop 18 (wifi_key c))"
proof -
  have "length wifissid = 14" "length wifikey = 17" by (simp_all add: wifissid_def wifikey_def)
  then show "set_name (wifi_ssid c) wifissid = Inr (wifissid @ 0 # drop 15 (wifi_ssid c))"
    "set_name (wifi_key c) wifikey = Inr (wifikey @ 0 # drop 18 (wifi_key c))"
    using assms by (simp_all add: set_name_ok config_ok_def)
qed

lemma connected_flag_set: "(f OR XPG_CFG_FLAG_CONNECTED) AND XPG_CFG_FLAG_CONNECTED = XPG_CFG_FLAG_CONNECTED"
  by (rule bit_word_eqI) (auto simp: bit_simps)

lemma network_start_ok:
  assumes flash: "flash_ok (flash_mem s)" and v: "verdict (drop 2 (pending s)) = Some e"
  obtains t where "network_start s = Inr t" "agent_ok t" "flash_mem t = flash_mem s"
    "sys_status t = (if e = SYS_EVT_LINK_UP then SYS_STATUS_WIFI_STA_CONNECTED else SYS_STATUS_WIFI_SOFTAP)"
    "radio t = radio s @ sta_commands wifissid wifikey 1 @ (if e = SYS_EVT_LINK_UP then []
       else [Call_InfWiFiStop, Call_InfLoadDefaultParam, Call_InfNetModeSet PARAM_NET_MODE_SOFTAP, Call_InfWiFiStart])"
proof -
  obtain c where c: "nl6621_GetConfigData (flash_mem s) = Inr c" "config_ok c" using get_config_total [OF flash] by blast
  let ?ssid = "wifissid @ 0 # drop 15 (wifi_ssid c)" let ?key = "wifikey @ 0 # drop 18 (wifi_key c)"
  have len: "length wifissid = 14" "length wifikey = 17" by (simp_all add: wifissid_def wifikey_def)
  note names = set_network_names [OF c(2)]
  have strs: "cstr (?ssid @ ?key) = wifissid" "cstr ?key = wifikey" "cstr wifissid = wifissid" "cstr wifikey = wifikey"
    using cstr_append_NUL [of wifissid] cstr_append_NUL [of wifikey] cstr_id [of wifissid] cstr_id [of wifikey]
    by (simp_all add: is_cstring_def wifissid_def wifikey_def)
  define c' where "c' = c\<lparr>config_flag := config_flag c OR XPG_CFG_FLAG_CONNECTED, wifi_ssid := ?ssid, wifi_key := ?key\<rparr>"
  have c': "config_ok c'" using c(2) len by (simp add: config_ok_def c'_def)
  define u where "u = (Agent_reset_init s)\<lparr>Agent_config_data := c', sys_status := SYS_STATUS_WIFI_DIRECTCONFING\<rparr>"
  have pu: "verdict (drop 2 (pending u)) = Some e" using v by (simp add: u_def Agent_reset_init_def)
  obtain w where w: "DRV_WiFi_StaModeConnStart (?ssid @ ?key) ?key 1 u = Inr (if e = SYS_EVT_LINK_UP then 0 else - 1, w)"
    "same_but_flags (u\<lparr>radio := radio u @ sta_commands (?ssid @ ?key) ?key 1\<rparr>) w"
    using StaModeConnStart_some [of u e] pu by blast
  have cmds: "sta_commands (?ssid @ ?key) ?key 1 = sta_commands wifissid wifikey 1"
    using strs by (simp add: sta_commands_def)
  have keep: "flash_mem w = flash_mem s" "Agent_config_data w = c'" "radio w = radio s @ sta_commands wifissid wifikey 1"
    using w(2) unfolding cmds by (simp_all add: same_but_flags_def u_def Agent_reset_init_def)
  define t where "t = (if e = SYS_EVT_LINK_UP then w\<lparr>sys_status := SYS_STATUS_WIFI_STA_CONNECTED\<rparr>
      else (DRV_WiFi_SoftAPModeStart w)\<lparr>sys_status := SYS_STATUS_WIFI_SOFTAP\<rparr>)"
  have "network_start s = Inr t"
    using c(1) names w(1) by (simp add: connected_flag_set network_start_def Let_def u_def c'_def Agent_reset_init_def t_def)
  then show thesis
    using keep c' flash by (intro that [of t]) (auto simp: agent_ok_def DRV_WiFi_SoftAPModeStart_def radio_do_def t_def)
qed

text \<open>
  Whatever name and password the flash holds, the agent joins the network that is compiled into the
  program; when that fails it starts the access point.
\<close>

theorem network_start_ignores_settings:
  assumes "gpio 0 \<noteq> 0" "flash_ok (flash_mem s)" "verdict (drop 2 (pending s)) = Some e"
  shows "\<exists>t. Agent_network_init env gpio s = Inr t \<and>
    Call_InfSsidSet wifissid \<in> set (radio t) \<and> Call_InfKeySet wifikey \<in> set (radio t) \<and>
    (\<forall>name. Call_InfSsidSet name \<in> set (radio t) \<longrightarrow> name = wifissid \<or> Call_InfSsidSet name \<in> set (radio s)) \<and>
    sys_status t = (if e = SYS_EVT_LINK_UP then SYS_STATUS_WIFI_STA_CONNECTED else SYS_STATUS_WIFI_SOFTAP)"
proof -
  have "cstr wifissid = wifissid" "cstr wifikey = wifikey" by (simp_all add: cstr_def wifissid_def wifikey_def)
  moreover obtain t where "network_start s = Inr t"
    "sys_status t = (if e = SYS_EVT_LINK_UP then SYS_STATUS_WIFI_STA_CONNECTED else SYS_STATUS_WIFI_SOFTAP)"
    "radio t = radio s @ sta_commands wifissid wifikey 1 @ (if e = SYS_EVT_LINK_UP then []
       else [Call_InfWiFiStop, Call_InfLoadDefaultParam, Call_InfNetModeSet PARAM_NET_MODE_SOFTAP, Call_InfWiFiStart])"
    using network_start_ok [OF assms(2,3)] by blast
  ultimately show ?thesis using assms(1) by (auto simp: Agent_network_init_def sta_commands_def)
qed

theorem network_start_ignores_settings_witness:
  "\<exists>t. Agent_network_init quiet_env (\<lambda>k. 1) (agent_boot erased_flash [[], [], [SYS_EVT_LINK_UP]]) = Inr t \<and>
     Call_InfSsidSet wifissid \<in> set (radio t) \<and> sys_status t = SYS_STATUS_WIFI_STA_CONNECTED"
  using network_start_ignores_settings [of "\<lambda>k. 1" "agent_boot erased_flash [[], [], [SYS_EVT_LINK_UP]]" SYS_EVT_LINK_UP quiet_env]
    flash_ok_erased by (simp add: agent_boot_def) metis

theorem direct_config_persists_witness:
  "\<exists>t. Agent_network_init quiet_env (\<lambda>k. 0) (agent_boot erased_flash [[], [SYS_EVT_DIRECT_CFG_DONE], [], [], [SYS_EVT_LINK_UP]]) = Inr t \<and>
     sys_status t = SYS_STATUS_WIFI_STA_CONNECTED \<and> (\<exists>c. nl6621_GetConfigData (flash_mem t) = Inr c \<and> cstr (wifi_ssid c) = [0x61, 0x62])"
proof -
  let ?s = "agent_boot erased_flash [[], [SYS_EVT_DIRECT_CFG_DONE], [], [], [SYS_EVT_LINK_UP]]"
  have "pending ?s = [[], [SYS_EVT_DIRECT_CFG_DONE], [], [], [SYS_EVT_LINK_UP]]" by (simp add: agent_boot_def)
  then obtain t where t: "Agent_network_init quiet_env (\<lambda>k. 0) ?s = Inr t" "sys_status t = SYS_STATUS_WIFI_STA_CONNECTED"
    "nl6621_GetConfigData (flash_mem t) = Inr ((Agent_config_data ?s)\<lparr>wifi_ssid := take 32 (env_ssid quiet_env),
       wifi_key := take 32 (env_psk quiet_env), config_flag := config_flag (Agent_config_data ?s) OR XPG_CFG_FLAG_CONNECTED\<rparr>)"
    using direct_config_persists [of quiet_env ?s "\<lambda>k. 0" "[[], [], [SYS_EVT_LINK_UP]]"] env_ok_quiet flash_ok_erased by auto
  moreover have "cstr (take 32 (env_ssid quiet_env)) = [0x61, 0x62]" by (simp add: quiet_env_def cstr_def)
  ultimately show ?thesis by simp
qed

section \<open>No fault but a wait without end\<close>

lemma network_start_safe:
  assumes "flash_ok (flash_mem s)"
  shows "safe env agent_ok (network_start s)"
proof (cases "verdict (drop 2 (pending s))")
  case None
  obtain c where c: "nl6621_GetConfigData (flash_mem s) = Inr c" "config_ok c" using get_config_total [OF assms] by blast
  show ?thesis
    using c(1) set_network_names [OF c(2)] None by (simp add: connected_flag_set network_start_def Let_def Agent_reset_init_def StaModeConnStart_none)
next
  case (Some e)
  obtain t where "network_start s = Inr t" "agent_ok t" using network_start_ok [OF assms Some] by blast
  then show ?thesis by simp
qed

lemma StaModeConnStart_safe: "agent_ok s \<Longrightarrow> safe env (\<lambda>(ret, t). agent_ok t) (DRV_WiFi_StaModeConnStart ssid pass flag s)"
  by (rule StaModeConnStart_cases [of ssid pass flag s]) (auto simp: same_but_flags_def agent_ok_def)

lemma StartDirectConfigConn_safe:
  assumes "dev_ok env" "agent_ok s"
  shows "safe env (\<lambda>(ret, t). agent_ok t) (StartDirectConfigConn env s)"
proof -
  let ?s = "radio_do [Call_InfDirectCfgStart] (s\<lparr>DirectCfgFlag := 0\<rparr>)"
  have "safe env agent_ok (wait_direct ?s)"
    using wait_direct_rest [of ?s] assms(2) by (auto simp: radio_do_def same_but_flags_def agent_ok_def split: option.splits)
  moreover have "safe env agent_ok (Agent_SaveSSIDAndKey env (env_ssid env) (env_psk env) t)" if "agent_ok t" for t
    using assms(1) that by (intro Agent_SaveSSIDAndKey_safe) (simp_all add: dev_ok_def)
  ultimately show ?thesis
    unfolding StartDirectConfigConn_def
    by (auto intro!: safe_ebind [where Q = agent_ok] safe_ebind [OF StaModeConnStart_safe] simp: radio_do_def agent_ok_def)
qed

lemma Agent_network_init_safe:
  assumes env: "dev_ok env" and s: "agent_ok s"
  shows "safe env agent_ok (Agent_network_init env gpio s)"
proof -
  let ?s = "(OSTimeDly s)\<lparr>sys_status := SYS_STATUS_WIFI_DIRECTCONFING\<rparr>"
  have "agent_ok ?s" using s by (simp add: agent_ok_def)
  from StartDirectConfigConn_safe [OF env this] have "safe env agent_ok (ebind (StartDirectConfigConn env ?s) (\<lambda>(ret, s).
      if ret = 0 then Inr (Agent_reset_init (s\<lparr>sys_status := SYS_STATUS_WIFI_STA_CONNECTED\<rparr>)) else network_start s))"
    by (rule safe_ebind) (auto simp: Agent_reset_init_def agent_ok_def intro!: network_start_safe)
  moreover have "safe env agent_ok (network_start s)" "safe env agent_ok (network_start (OSTimeDly s))"
    using s by (auto intro!: network_start_safe simp: agent_ok_def)
  ultimately show ?thesis by (simp add: Agent_network_init_def Let_def)
qed

end
