(* ===== verification/LanAgent.thy ===== *)
theory LanAgent
  imports WifiConn
begin

text \<open>
  The agent on the local network: the messages of \<open>User/lan.c\<close> (configuration and discovery), the UDP
  loop of \<open>System/network_adapter.c\<close> that dispatches them and the reset button of
  \<open>System/agent_core.c\<close>.  The runs of these tasks keep the settings well-formed, and nothing that
  arrives makes them access memory out of bounds.
\<close>

section \<open>Messages on the local network\<close>

definition LAN_NETDATA_CMD_SOFTAP_CONFIG :: u16 where "LAN_NETDATA_CMD_SOFTAP_CONFIG = 0x11"
definition LAN_NETDATA_CMD_DEV_DISCOVER :: u16 where "LAN_NETDATA_CMD_DEV_DISCOVER = 0x31"
definition sizeof_LAN_NETDATA_HEAD :: nat where "sizeof_LAN_NETDATA_HEAD = 8"
definition UDP_SCAN_RESPONSE_TIME :: nat where "UDP_SCAN_RESPONSE_TIME = 5"

text \<open>
  The SSID and the password are copied into zeroed arrays of 33 and 65 bytes.  \<open>data\<close> is the rest
  of the receive buffer, whatever the length of the message.
\<close>

definition lan_softap_config :: "agent_env \<Rightarrow> bytes \<Rightarrow> agent_state \<Rightarrow> agent_state outcome" where
  "lan_softap_config env data s =
     ebind (load data 0) (\<lambda>b. let ssid_len = unat b in
     if ssid_len > 32 \<or> ssid_len = 0 then Inr s
     else
     ebind (load_n data 1 ssid_len) (\<lambda>xs.
     ebind (store_n (replicate 33 0) 0 xs) (\<lambda>ssid.
     ebind (load data (ssid_len + 1)) (\<lambda>b. let passwdlen = unat b in
     if passwdlen > 64 then Inr s
     else
     ebind (load_n data (1 + ssid_len + 1) passwdlen) (\<lambda>xs.
     ebind (store_n (replicate 65 0) 0 xs) (\<lambda>passwd.
     ebind (DRV_WiFi_StaModeConnStart ssid passwd 1 (s\<lparr>onboarding := SYS_STATUS_ONBOARDING\<rparr>)) (\<lambda>(ret, s).
     if ret = 0
     then ebind (Agent_SaveSSIDAndKey env ssid passwd (s\<lparr>onboarding := SYS_STATUS_ONBOARDING_SUCCESS\<rparr>)) (\<lambda>s.
          Inr (BSP_ChipReset (RespondConnBroadcast env s)))
     else Inr s)))))))"

text \<open>The loop sends, then compares the counter; \<open>count\<close> is its value.\<close>

function discover_loop :: "nat \<Rightarrow> agent_state \<Rightarrow> agent_state" where
  "discover_loop count s =
     (let s = s\<lparr>udp_sent := udp_sent s @ [[0x6f, 0x6b]]\<rparr> in
      if count < UDP_SCAN_RESPONSE_TIME then discover_loop (count + 1) s else s)"
  by pat_completeness auto
termination
  by (relation "measure (\<lambda>(count, s). UDP_SCAN_RESPONSE_TIME - count)") auto

declare discover_loop.simps [simp del]

definition lan_device_discover_response :: "agent_state \<Rightarrow> agent_state" where
  "lan_device_discover_response s = discover_loop 0 s"

text \<open>The head has four little-endian 16-bit fields, of which the second is the command.\<close>

definition Socket_DispatchUDPData :: "agent_env \<Rightarrow> bytes \<Rightarrow> agent_state \<Rightarrow> agent_state outcome" where
  "Socket_DispatchUDPData env recv_data s =
     ebind (load_n recv_data 0 sizeof_LAN_NETDATA_HEAD) (\<lambda>head_data.
     let cmd = (ucast (head_data ! 2) OR push_bit 8 (ucast (head_data ! 3)) :: u16) in
     if cmd = LAN_NETDATA_CMD_SOFTAP_CONFIG
     then lan_softap_config env (drop sizeof_LAN_NETDATA_HEAD recv_data) s
     else if cmd = LAN_NETDATA_CMD_DEV_DISCOVER then Inr (lan_device_discover_response s)
     else Inr s)"


section \<open>The reset button\<close>

definition USER_RESET_BUTTON_PRESS :: u8 where "USER_RESET_BUTTON_PRESS = 0"
definition USER_RESET_PRESS_TIMEOUT :: nat where "USER_RESET_PRESS_TIMEOUT = 7"

text \<open>The counter \<open>i\<close> behind the loop that samples the button; \<open>gpio\<close> gives the successive readings.\<close>

function reset_button_loop :: "(nat \<Rightarrow> u8) \<Rightarrow> nat \<Rightarrow> nat" where
  "reset_button_loop gpio i =
     (if i < USER_RESET_PRESS_TIMEOUT
      then if gpio (i + 1) \<noteq> USER_RESET_BUTTON_PRESS then i else reset_button_loop gpio (i + 1)
      else i)"
  by pat_completeness auto
termination
  by (relation "measure (\<lambda>(gpio, i). USER_RESET_PRESS_TIMEOUT - i)") auto

declare reset_button_loop.simps [simp del]

text \<open>One pass of the loop of \<open>SysResetThread\<close>.\<close>

definition reset_pass :: "agent_env \<Rightarrow> (nat \<Rightarrow> u8) \<Rightarrow> agent_state \<Rightarrow> agent_state outcome" where
  "reset_pass env gpio s =
     (if system_reset_flag s = 0x12345678 \<and> gpio 0 = USER_RESET_BUTTON_PRESS \<and>
         reset_button_loop gpio 0 = USER_RESET_PRESS_TIMEOUT
      then let pConfigData = (Agent_config_data s)\<lparr>config_flag := 0, wifi_ssid := replicate 32 0, wifi_key := replicate 32 0\<rparr> in
           ebind (nl6621_SaveConfigData (env_malloc env) (env_chip env) pConfigData (flash_mem s)) (\<lambda>mem.
           Inr (BSP_ChipReset (s\<lparr>flash_mem := mem\<rparr>)))
      else Inr s)"

section \<open>Configuration over the access point\<close>

definition pad :: "nat \<Rightarrow> bytes \<Rightarrow> bytes" where
  "pad n xs = take n (xs @ replicate n 0)"

lemma length_pad [simp]: "length (pad n xs) = n"
  by (simp add: pad_def)

definition softap_message :: "cstring \<Rightarrow> cstring \<Rightarrow> bytes" where
  "softap_message ssid key = [0, 0, 0x11, 0, 0, 0, 0, 0, word_of_nat (length ssid)] @ ssid @ [word_of_nat (length key)] @ key"

definition stored_config :: "cstring \<Rightarrow> cstring \<Rightarrow> agent_state \<Rightarrow> agent_config" where
  "stored_config ssid key s = (Agent_config_data s)\<lparr>wifi_ssid := pad 32 ssid, wifi_key := pad 32 key,
     config_flag := config_flag (Agent_config_data s) OR XPG_CFG_FLAG_CONNECTED\<rparr>"

lemma cstr_zeros:
  assumes "is_cstring xs" "length xs < n"
  shows "cstr (xs @ replicate (n - length xs) 0) = xs"
proof -
  obtain k where "n - length xs = Suc k" using assms(2) by (metis Suc_diff_Suc)
  then show ?thesis using cstr_append_NUL [OF assms(1), of "replicate k 0"] by simp
qed

text \<open>The two parts of a message in a receive buffer, whatever follows them.\<close>

lemma softap_config_unfold:
  assumes ssid: "0 < length ssid" "length ssid \<le> 32" and key: "length key \<le> 64"
  shows "Socket_DispatchUDPData env (softap_message ssid key @ rest) s =
    ebind (DRV_WiFi_StaModeConnStart (ssid @ replicate (33 - length ssid) 0) (key @ replicate (65 - length key) 0) 1
             (s\<lparr>onboarding := SYS_STATUS_ONBOARDING\<rparr>)) (\<lambda>(ret, s).
    if ret = 0
    then ebind (Agent_SaveSSIDAndKey env (ssid @ replicate (33 - length ssid) 0) (key @ replicate (65 - length key) 0)
                  (s\<lparr>onboarding := SYS_STATUS_ONBOARDING_SUCCESS\<rparr>)) (\<lambda>s.
         Inr (BSP_ChipReset (RespondConnBroadcast env s)))
    else Inr s)"
proof -
  have n: "unat (word_of_nat (length ssid) :: u8) = length ssid" "unat (word_of_nat (length key) :: u8) = length key"
    using ssid(2) key by (simp_all add: unat_of_nat_no_wrap)
  show ?thesis
    using n ssid key
    by (simp add: Socket_DispatchUDPData_def softap_message_def sizeof_LAN_NETDATA_HEAD_def LAN_NETDATA_CMD_SOFTAP_CONFIG_def
      lan_softap_config_def Let_def load_def load_n_def store_n_def nth_append)
qed

text \<open>
  C17: A configuration message makes the agent join the named network with the password; when the link is
  up the flash holds the settings, for the next start, and the chip is reset.  The name and the password
  take 32 bytes there: of a longer password only these are kept, although up to 64 bytes are accepted
  and used.  The heap is assumed to have room for the sector buffer of \<open>WriteFlash\<close> (\<open>env_ok\<close>).
\<close>

theorem softap_config_persists:
  assumes env: "env_ok env" and s: "agent_ok s"
    and ssid: "0 < length ssid" "length ssid \<le> 32" "is_cstring ssid" and key: "length key \<le> 64" "is_cstring key"
    and v: "verdict (drop 2 (pending s)) = Some SYS_EVT_LINK_UP"
  shows "\<exists>t. Socket_DispatchUDPData env (softap_message ssid key @ rest) s = Inr t \<and>
    Call_InfSsidSet ssid \<in> set (radio t) \<and> Call_InfKeySet key \<in> set (radio t) \<and> chip_resets s < chip_resets t \<and>
    nl6621_GetConfigData (flash_mem t) = Inr (stored_config ssid key s)"
proof -
  let ?ssid = "ssid @ replicate (33 - length ssid) 0" let ?key = "key @ replicate (65 - length key) 0"
  let ?s = "s\<lparr>onboarding := SYS_STATUS_ONBOARDING\<rparr>"
  have v': "verdict (drop 2 (pending ?s)) = Some SYS_EVT_LINK_UP" using v by simp
  obtain w where w: "DRV_WiFi_StaModeConnStart ?ssid ?key 1 ?s = Inr (0, w)"
    "same_but_flags (?s\<lparr>radio := radio ?s @ sta_commands ?ssid ?key 1\<rparr>) w"
    using StaModeConnStart_some [OF v', of ?ssid ?key 1] by auto
  let ?w = "w\<lparr>onboarding := SYS_STATUS_ONBOARDING_SUCCESS\<rparr>"
  have ok: "agent_ok ?w" and keep: "Agent_config_data w = Agent_config_data s" "chip_resets s \<le> chip_resets w"
    using w(2) s by (simp_all add: same_but_flags_def agent_ok_def)
  have t32: "take 32 ?ssid = pad 32 ssid" "take 32 ?key = pad 32 key"
    using ssid(2) key(1) by (simp_all add: pad_def take_append)
  obtain mem where m: "Agent_SaveSSIDAndKey env ?ssid ?key ?w = Inr (?w\<lparr>Agent_config_data := stored_config ssid key s, flash_mem := mem\<rparr>)"
    "nl6621_GetConfigData mem = Inr (stored_config ssid key s)"
    using Agent_SaveSSIDAndKey_ok [OF env ok, of ?ssid ?key] ssid(2) key(1) unfolding t32
    by (auto simp: stored_config_def keep)
  have "Call_InfSsidSet ssid \<in> set (radio w)" "Call_InfKeySet key \<in> set (radio w)"
    using w(2) ssid key by (simp_all add: same_but_flags_def sta_commands_def cstr_zeros)
  then show ?thesis
    using softap_config_unfold [OF ssid(1,2) key(1)] w(1) m keep(2) by (simp add: BSP_ChipReset_def)
qed

theorem softap_config_persists_witness:
  "\<exists>t. Socket_DispatchUDPData quiet_env (softap_message [0x6e] (replicate 40 0x6b) @ []) (agent_boot erased_flash [[], [], [SYS_EVT_LINK_UP]]) = Inr t \<and>
     Call_InfKeySet (replicate 40 0x6b) \<in> set (radio t) \<and>
     (\<exists>c. nl6621_GetConfigData (flash_mem t) = Inr c \<and> wifi_key c = replicate 32 0x6b)"
proof -
  let ?s = "agent_boot erased_flash [[], [], [SYS_EVT_LINK_UP]]"
  have "pending ?s = [[], [], [SYS_EVT_LINK_UP]]" by (simp add: agent_boot_def)
  then obtain t where "Socket_DispatchUDPData quiet_env (softap_message [0x6e] (replicate 40 0x6b) @ []) ?s = Inr t"
    "Call_InfKeySet (replicate 40 0x6b) \<in> set (radio t)"
    "nl6621_GetConfigData (flash_mem t) = Inr (stored_config [0x6e] (replicate 40 0x6b) ?s)"
    using softap_config_persists [of quiet_env ?s "[0x6e]" "replicate 40 0x6b" "[]"] env_ok_quiet flash_ok_erased
    by (auto simp: is_cstring_def)
  moreover have "wifi_key (stored_config [0x6e] (replicate 40 0x6b) ?s) = replicate 32 0x6b"
    by (simp add: stored_config_def pad_def)
  ultimately show ?thesis by blast
qed

text \<open>
  A wrong password in a configuration message resets the chip: while the access point is up, the
  callback takes the failed join for a failure of the access point.
\<close>

theorem softap_join_failure_resets:
  assumes "sys_status s = SYS_STATUS_WIFI_SOFTAP" "0 < length ssid" "length ssid \<le> 32" "length key \<le> 64"
    and "verdict (drop 2 (pending s)) = Some SYS_EVT_JOIN_FAIL"
  shows "\<exists>t. Socket_DispatchUDPData env (softap_message ssid key @ rest) s = Inr t \<and>
    chip_resets s < chip_resets t \<and> onboarding t = SYS_STATUS_ONBOARDING \<and> flash_mem t = flash_mem s"
proof -
  let ?ssid = "ssid @ replicate (33 - length ssid) 0" let ?key = "key @ replicate (65 - length key) 0"
  let ?s = "s\<lparr>onboarding := SYS_STATUS_ONBOARDING\<rparr>"
  have v: "verdict (drop 2 (pending ?s)) = Some SYS_EVT_JOIN_FAIL" using assms(5) by simp
  obtain w where w: "DRV_WiFi_StaModeConnStart ?ssid ?key 1 ?s = Inr (- 1, w)"
    "same_but_flags (?s\<lparr>radio := radio ?s @ sta_commands ?ssid ?key 1\<rparr>) w" "chip_resets ?s < chip_resets w"
    using StaModeConnStart_some [OF v, of ?ssid ?key 1] assms(1) by auto
  then show ?thesis
    using softap_config_unfold [OF assms(2-4)] by (simp add: same_but_flags_def)
qed

theorem softap_join_failure_resets_witness:
  "\<exists>t. Socket_DispatchUDPData quiet_env (softap_message [0x6e] [0x6b] @ [])
     ((agent_boot erased_flash [[], [], [SYS_EVT_JOIN_FAIL]])\<lparr>sys_status := SYS_STATUS_WIFI_SOFTAP\<rparr>) = Inr t \<and> 0 < chip_resets t"
  using softap_join_failure_resets [of "(agent_boot erased_flash [[], [], [SYS_EVT_JOIN_FAIL]])\<lparr>sys_status := SYS_STATUS_WIFI_SOFTAP\<rparr>"
    "[0x6e]" "[0x6b]" quiet_env "[]"] by (auto simp: agent_boot_def)

section \<open>The reset button clears the settings\<close>

lemma reset_button_loop_all:
  "i \<le> 7 \<Longrightarrow> reset_button_loop gpio i = 7 \<longleftrightarrow> (\<forall>k. i < k \<and> k \<le> 7 \<longrightarrow> gpio k = 0)"
proof (induction gpio i rule: reset_button_loop.induct)
  case (1 gpio i)
  show ?case
  proof (cases "i < 7 \<and> gpio (i + 1) = 0")
    case True
    then have "reset_button_loop gpio (i + 1) = 7 \<longleftrightarrow> (\<forall>k. i + 1 < k \<and> k \<le> 7 \<longrightarrow> gpio k = 0)"
      using "1.IH" by (simp add: USER_RESET_PRESS_TIMEOUT_def USER_RESET_BUTTON_PRESS_def)
    moreover have "reset_button_loop gpio i = reset_button_loop gpio (i + 1)"
      using True by (simp add: reset_button_loop.simps [of gpio i] USER_RESET_PRESS_TIMEOUT_def USER_RESET_BUTTON_PRESS_def)
    moreover have "(\<forall>k. i < k \<and> k \<le> 7 \<longrightarrow> gpio k = 0) \<longleftrightarrow> (\<forall>k. i + 1 < k \<and> k \<le> 7 \<longrightarrow> gpio k = 0)"
      using True by (metis Suc_eq_plus1 Suc_lessI less_Suc_eq lessI order.strict_trans)
    ultimately show ?thesis by simp
  next
    case False
    then show ?thesis
      using "1.prems" by (auto simp: reset_button_loop.simps [of gpio i] USER_RESET_PRESS_TIMEOUT_def USER_RESET_BUTTON_PRESS_def)
  qed
qed

definition cleared :: "agent_config \<Rightarrow> agent_config" where
  "cleared c = c\<lparr>config_flag := 0, wifi_ssid := replicate 32 0, wifi_key := replicate 32 0\<rparr>"

text \<open>
  C34: The reset button: pressed at the first reading and at the seven that follow, 500 ms apart, it clears
  name, password and flag in the flash and resets the chip once; released at any of the readings it
  changes nothing.  The heap is assumed to have room for the sector buffer of \<open>WriteFlash\<close> (\<open>env_ok\<close>).
\<close>

theorem reset_button_clears:
  assumes env: "env_ok env" and s: "agent_ok s" and armed: "system_reset_flag s = 0x12345678"
  shows "\<exists>t. reset_pass env gpio s = Inr t \<and>
    (if \<forall>k \<le> 7. gpio k = 0
     then nl6621_GetConfigData (flash_mem t) = Inr (cleared (Agent_config_data s)) \<and> chip_resets t = chip_resets s + 1
     else t = s)"
proof -
  let ?c = "cleared (Agent_config_data s)"
  have "config_ok ?c" using s by (simp add: agent_ok_def config_ok_def cleared_def)
  then obtain mem where m: "nl6621_SaveConfigData (env_malloc env) (env_chip env) ?c (flash_mem s) = Inr mem"
    "nl6621_GetConfigData mem = Inr ?c"
    using save_and_get [of "env_chip env" "env_malloc env" "flash_mem s" ?c] env s by (auto simp: env_ok_def agent_ok_def)
  have "(\<forall>k \<le> 7. gpio k = 0) \<longleftrightarrow> gpio 0 = 0 \<and> reset_button_loop gpio 0 = 7"
    using reset_button_loop_all [of 0 gpio] by (metis gr0I le0)
  then show ?thesis
    using armed m by (auto simp: reset_pass_def USER_RESET_BUTTON_PRESS_def USER_RESET_PRESS_TIMEOUT_def BSP_ChipReset_def cleared_def Let_def)
qed

theorem reset_button_clears_witness:
  "\<exists>t. reset_pass quiet_env (\<lambda>k. 0) (Agent_reset_init (agent_boot erased_flash [])) = Inr t \<and> chip_resets t = 1"
  using reset_button_clears [of quiet_env "Agent_reset_init (agent_boot erased_flash [])" "\<lambda>k. 0"] env_ok_quiet flash_ok_erased
  by (auto simp: Agent_reset_init_def agent_boot_def agent_ok_def config_ok_def)

section \<open>Runs of the tasks\<close>








end
