(* ===== verification/NtpClient.thy ===== *)
theory NtpClient
  imports Prelude "HOL-Library.Signed_Division"
begin

text \<open>
  The NTP client (\<open>Lib/ntp_client.c\<close>): the query, the reply and the clock, which is the tick counter of
  the kernel, 100 ticks per second in 32 bits.  \<open>open_fds\<close> counts the calls of \<open>socket\<close> that succeeded
  minus those of \<open>close\<close>.
\<close>

section \<open>The query\<close>

definition JAN_1970 :: u32 where "JAN_1970 = 0x83aa7e80"
definition OS_TICKS_PER_SEC :: nat where "OS_TICKS_PER_SEC = 100"
definition NTPFRAC :: "u32 \<Rightarrow> u32" where "NTPFRAC x = 4294 * x + signed_drop_bit 11 (1981 * x)"
definition USEC :: "u32 \<Rightarrow> u32" where "USEC x = drop_bit 12 x - 759 * drop_bit 16 (drop_bit 10 x + 32768)"

record ntp_state =
  OSTime :: u32
  ntp_sent :: "bytes list"
  open_fds :: int

text \<open>
  The 48 bytes of the packet: a field that goes through \<open>htonl\<close> lies in memory with its high byte first.
  \<open>root_delay\<close> is set from \<open>root_dispersion\<close>; reference id and the first three time stamps are 0.
\<close>

definition ntp_query :: "u32 \<Rightarrow> bytes" where
  "ntp_query now =
     (let local_precision = 0xFA; Poll = 4; stratum = 0; Mode = 3; VN = 3; LI = 0;
          headData = local_precision OR push_bit 8 Poll OR push_bit 16 stratum OR push_bit 24 (Mode OR push_bit 3 VN OR push_bit 6 LI);
          root_dispersion = push_bit 16 1;
          timer = word_of_int (sint now sdiv int OS_TICKS_PER_SEC)
      in be32 headData @ be32 root_dispersion @ be32 root_dispersion @ replicate 28 0 @
         be32 (timer + JAN_1970) @ be32 (NTPFRAC timer))"

definition SendQueryTimePacked :: "ntp_state \<Rightarrow> ntp_state" where
  "SendQueryTimePacked s = s\<lparr>ntp_sent := ntp_sent s @ [ntp_query (OSTime s)]\<rparr>"

section \<open>The reply and the clock\<close>

definition ntohl_at :: "bytes \<Rightarrow> nat \<Rightarrow> u32 outcome" where
  "ntohl_at m i =
     ebind (load m i) (\<lambda>a. ebind (load m (i + 1)) (\<lambda>b. ebind (load m (i + 2)) (\<lambda>c. ebind (load m (i + 3)) (\<lambda>d.
     Inr (push_bit 24 (ucast a) OR push_bit 16 (ucast b) OR push_bit 8 (ucast c) OR ucast d)))))"

definition GetSynTimeFromNtpPacked :: "bytes \<Rightarrow> (u32 \<times> u32) outcome" where
  "GetSynTimeFromNtpPacked pkt =
     ebind (ntohl_at pkt 40) (\<lambda>coarse. ebind (ntohl_at pkt 44) (\<lambda>fine.
     Inr (coarse - JAN_1970, USEC fine)))"

definition GetLocalTime :: "ntp_state \<Rightarrow> u32 \<times> u32" where
  "GetLocalTime s =
     (let ticks = OSTime s;
          tv_sec = ticks div word_of_nat OS_TICKS_PER_SEC + 1417305600 + 28800;
          tv_usec = ticks mod word_of_nat OS_TICKS_PER_SEC div word_of_nat OS_TICKS_PER_SEC * 1000
      in (tv_sec, tv_usec))"

definition ModifyLocalTime :: "u32 \<times> u32 \<Rightarrow> ntp_state \<Rightarrow> ntp_state" where
  "ModifyLocalTime tv s =
     (let time = fst tv - 1417305600;
          ticks = time * word_of_nat OS_TICKS_PER_SEC
      in s\<lparr>OSTime := ticks\<rparr>)"

text \<open>
  The answers of the stack: does \<open>socket\<close> succeed, the result of \<open>select\<close>, the bit of the socket behind
  it, and the datagram or the error of \<open>recvfrom\<close>.  \<open>stack\<close> is what the structure on the stack holds
  before.
\<close>

record ntp_env =
  ntp_socket :: bool
  ntp_select :: int
  ntp_isset :: bool
  ntp_reply :: "bytes option"
  ntp_stack :: bytes

definition close_fd :: "ntp_state \<Rightarrow> ntp_state" where
  "close_fd s = s\<lparr>open_fds := open_fds s - 1\<rparr>"

definition CreateNtpClientSockfd :: "ntp_env \<Rightarrow> ntp_state \<Rightarrow> bool \<times> ntp_state" where
  "CreateNtpClientSockfd env s =
     (if ntp_socket env then (True, s\<lparr>open_fds := open_fds s + 1\<rparr>) else (False, s))"

text \<open>\<open>None\<close> stands for the result -1; the packet is the datagram on top of the old contents.\<close>

definition RecvNtpPacked :: "ntp_env \<Rightarrow> ntp_state \<Rightarrow> bytes option \<times> ntp_state" where
  "RecvNtpPacked env s =
     (case ntp_reply env of
        None \<Rightarrow> (None, close_fd s)
      | Some d \<Rightarrow> (Some (take 48 d @ drop (length (take 48 d)) (ntp_stack env)), s))"

definition start_ntp :: "ntp_env \<Rightarrow> ntp_state \<Rightarrow> (int \<times> ntp_state) outcome" where
  "start_ntp env s =
     (let (ok, s) = CreateNtpClientSockfd env s in
      if \<not> ok then Inr (1, s)
      else let s = SendQueryTimePacked s in
           if ntp_select env = 0 \<or> \<not> ntp_isset env
           then Inr (1, close_fd (SendQueryTimePacked s))
           else case RecvNtpPacked env s of
                  (Some pkt, s) \<Rightarrow>
                    ebind (GetSynTimeFromNtpPacked pkt) (\<lambda>new_time.
                    Inr (0, close_fd (ModifyLocalTime new_time s)))
                | (None, s) \<Rightarrow> Inr (1, close_fd s))"

section \<open>Properties\<close>

lemma length_ntp_query: "length (ntp_query now) = 48"
  by (simp add: ntp_query_def Let_def)

lemma ntohl_join:
  "push_bit 24 (ucast (ucast (drop_bit 24 v) :: u8)) OR push_bit 16 (ucast (ucast (drop_bit 16 v) :: u8)) OR
     push_bit 8 (ucast (ucast (drop_bit 8 v) :: u8)) OR ucast (ucast v :: u8) = (v :: u32)"
  using le32_join [of v] by (simp add: or.assoc or.commute or.left_commute)

lemma ntohl_at_ok:
  assumes "drop i m = be32 v @ rest"
  shows "ntohl_at m i = Inr v"
proof -
  have d: "drop i m = ucast (drop_bit 24 v) # ucast (drop_bit 16 v) # ucast (drop_bit 8 v) # ucast v # rest"
    using assms by (simp add: be32_def)
  note d1 = drop_eq_ConsD(3) [OF d] note d2 = drop_eq_ConsD(3) [OF d1] note d3 = drop_eq_ConsD(3) [OF d2]
  have "load m i = Inr (ucast (drop_bit 24 v))" "load m (i + 1) = Inr (ucast (drop_bit 16 v))"
    "load m (i + 2) = Inr (ucast (drop_bit 8 v))" "load m (i + 3) = Inr (ucast v)"
    using load_drop [OF d] load_drop [OF d1] load_drop [OF d2] load_drop [OF d3]
    by (simp_all add: numeral_2_eq_2 numeral_3_eq_3)
  then show ?thesis by (simp add: ntohl_at_def ntohl_join)
qed

text \<open>The fraction of a second in microseconds: in range for every time stamp, and exact to 381 microseconds.\<close>

lemma USEC_range: "unat (USEC x) < 1000000"
  and USEC_error: "\<bar>int (unat (USEC x)) * 67108864 - int (unat x) * 15625\<bar> \<le> 381 * 67108864"
proof -
  define n where "n = unat x"
  define a where "a = n div 4096"
  define b where "b = (n div 1024 + 32768) div 65536"
  have n: "n < 4294967296" using unat_u32_less [of x] by (simp add: n_def)
  have u: "unat (drop_bit 12 x) = a" "unat (drop_bit 10 x) = n div 1024"
    by (simp_all add: a_def n_def drop_bit_eq_div unat_div)
  have "unat (drop_bit 10 x + 32768) = n div 1024 + 32768" using u(2) n by (subst unat_add_no_wrap) simp_all
  then have b: "unat (drop_bit 16 (drop_bit 10 x + 32768)) = b" by (simp add: drop_bit_eq_div unat_div b_def)
  have div: "4096 * a \<le> n" "n < 4096 * a + 4096" "65536 * b \<le> n div 1024 + 32768" "n div 1024 + 32768 < 65536 * b + 65536"
      "1024 * (n div 1024) \<le> n" "n < 1024 * (n div 1024) + 1024"
    unfolding a_def b_def by (simp_all add: algebra_simps dividend_less_times_div div_times_less_eq_dividend)
  have "b \<le> 64" using div n by linarith
  moreover have "759 * b \<le> a" using div by (cases "b = 0") linarith+
  moreover have "a < 759 * b + 1000000" using div n calculation(1) by (cases "b = 64") linarith+
  ultimately have ab: "b \<le> 64" "759 * b \<le> a" "a < 759 * b + 1000000" .
  have m: "unat (759 * drop_bit 16 (drop_bit 10 x + 32768)) = 759 * b" using b ab(1) by (simp add: unat_word_ariths)
  then have e: "unat (USEC x) = a - 759 * b"
    unfolding USEC_def using u(1) ab(2) by (subst unat_sub_no_wrap) simp_all
  show "unat (USEC x) < 1000000" using e ab(3) by simp
  have "int (a - 759 * b) = int a - 759 * int b" using ab(2) by simp
  moreover have "\<bar>(int a - 759 * int b) * 67108864 - int n * 15625\<bar> \<le> 381 * 67108864"
  proof -
    define c where "c = n div 1024"
    have "4096 * int a \<le> int n" "int n < 4096 * int a + 4096" "65536 * int b \<le> int c + 32768" "int c + 32768 < 65536 * int b + 65536"
        "1024 * int c \<le> int n" "int n < 1024 * int c + 1024"
      using div unfolding c_def by linarith+
    then show ?thesis by (intro abs_leI) (simp_all add: left_diff_distrib)
  qed
  ultimately show "\<bar>int (unat (USEC x)) * 67108864 - int (unat x) * 15625\<bar> \<le> 381 * 67108864"
    using e by (simp add: n_def)
qed

text \<open>The clock behind a reply with the time stamp \<open>T\<close>, in seconds since 1970.\<close>

lemma start_ntp_reply:
  assumes env: "ntp_socket env" "ntp_select env \<noteq> 0" "ntp_isset env"
    and reply: "ntp_reply env = Some (head @ be32 (T + JAN_1970) @ be32 fine)" "length head = 40"
  shows "start_ntp env s = Inr (0, s\<lparr>ntp_sent := ntp_sent s @ [ntp_query (OSTime s)], OSTime := (T - 1417305600) * 100\<rparr>)"
proof -
  let ?d = "head @ be32 (T + JAN_1970) @ be32 fine"
  define pkt where "pkt = ?d @ drop 48 (ntp_stack env)"
  have len: "length ?d = 48" using reply(2) by simp
  have "ntohl_at pkt 40 = Inr (T + JAN_1970)" "ntohl_at pkt 44 = Inr fine"
    unfolding pkt_def using reply(2) by (intro ntohl_at_ok, simp)+
  then have "GetSynTimeFromNtpPacked pkt = Inr (T, USEC fine)" by (simp add: GetSynTimeFromNtpPacked_def)
  moreover have "RecvNtpPacked env u = (Some pkt, u)" for u
    unfolding RecvNtpPacked_def reply(1) pkt_def option.case using len by (simp only: take_all order_refl)
  ultimately show ?thesis
    using env by (simp add: start_ntp_def CreateNtpClientSockfd_def SendQueryTimePacked_def ModifyLocalTime_def close_fd_def
      OS_TICKS_PER_SEC_def Let_def)
qed

lemma unat_local_seconds: "unat (fst (GetLocalTime s)) = unat (OSTime s) div 100 + 1417334400"
proof -
  have "unat (OSTime s div 100) = unat (OSTime s) div 100" by (simp add: unat_div)
  moreover have "unat (OSTime s) div 100 \<le> 42949672" using unat_u32_less [of "OSTime s"] by simp
  ultimately show ?thesis
    by (simp add: GetLocalTime_def Let_def OS_TICKS_PER_SEC_def add.assoc) (subst unat_add_no_wrap, simp_all)
qed

text \<open>
  C26: A reply with a time stamp sets the clock to it, eight hours ahead of UTC, and leaves no socket open
  (the first conjuncts), as long as the time is at most 42949672 seconds after the 30th of November 2014.
  The tick counter has no more room: whatever the reply, the local time never passes the 10th of April
  2016, so that for any later time stamp the clock is wrong.
\<close>

theorem ntp_clock_until_2016:
  assumes "ntp_socket env" "ntp_select env \<noteq> 0" "ntp_isset env"
    and "ntp_reply env = Some (head @ be32 (T + JAN_1970) @ be32 fine)" "length head = 40"
  shows "\<exists>t. start_ntp env s = Inr (0, t) \<and> open_fds t = open_fds s \<and>
    (1417305600 \<le> unat T \<and> unat T \<le> 1460255272 \<longrightarrow> unat (fst (GetLocalTime t)) = unat T + 28800) \<and>
    unat (fst (GetLocalTime t)) \<le> 1460284072 \<and> snd (GetLocalTime t) = 0"
proof -
  let ?t = "s\<lparr>ntp_sent := ntp_sent s @ [ntp_query (OSTime s)], OSTime := (T - 1417305600) * 100\<rparr>"
  have "unat (fst (GetLocalTime ?t)) = unat T + 28800" if T: "1417305600 \<le> unat T" "unat T \<le> 1460255272"
  proof -
    have "unat (T - 1417305600) = unat T - 1417305600" using T(1) by (subst unat_sub_no_wrap) simp_all
    then have "unat ((T - 1417305600) * 100) = (unat T - 1417305600) * 100"
      using T(2) by (simp only: unat_word_ariths(2)) simp
    then show ?thesis using T(1) by (simp add: unat_local_seconds)
  qed
  moreover have "unat (fst (GetLocalTime ?t)) \<le> 1460284072"
    using unat_u32_less [of "(T - 1417305600) * 100"] by (simp add: unat_local_seconds)
  moreover have "snd (GetLocalTime ?t) = 0"
  proof -
    have "unat (OSTime ?t mod 100 div 100) = 0" by (simp only: unat_div unat_mod) simp
    then have "OSTime ?t mod 100 div 100 = 0" by (simp only: unat_eq_0)
    then show ?thesis by (simp add: GetLocalTime_def Let_def OS_TICKS_PER_SEC_def)
  qed
  ultimately show ?thesis using start_ntp_reply [OF assms] by simp
qed

theorem ntp_clock_until_2016_witness:
  "\<exists>t. start_ntp \<lparr>ntp_socket = True, ntp_select = 1, ntp_isset = True,
      ntp_reply = Some (replicate 40 0 @ be32 (1430000000 + JAN_1970) @ be32 0), ntp_stack = []\<rparr>
     \<lparr>OSTime = 0, ntp_sent = [], open_fds = 0\<rparr> = Inr (0, t) \<and> unat (fst (GetLocalTime t)) = 1430028800"
proof -
  let ?env = "\<lparr>ntp_socket = True, ntp_select = 1, ntp_isset = True,
      ntp_reply = Some (replicate 40 0 @ be32 (1430000000 + JAN_1970) @ be32 0), ntp_stack = []\<rparr>"
  have "\<exists>t. start_ntp ?env \<lparr>OSTime = 0, ntp_sent = [], open_fds = 0\<rparr> = Inr (0, t) \<and> open_fds t = open_fds \<lparr>OSTime = 0, ntp_sent = [], open_fds = 0\<rparr> \<and>
      (1417305600 \<le> unat (1430000000 :: u32) \<and> unat (1430000000 :: u32) \<le> 1460255272 \<longrightarrow>
        unat (fst (GetLocalTime t)) = unat (1430000000 :: u32) + 28800) \<and>
      unat (fst (GetLocalTime t)) \<le> 1460284072 \<and> snd (GetLocalTime t) = 0"
    by (rule ntp_clock_until_2016 [where head = "replicate 40 0" and T = 1430000000 and fine = 0]) simp_all
  then show ?thesis by auto
qed

text \<open>An error of \<open>recvfrom\<close> closes the socket twice.\<close>

lemma ntp_error_closes_twice:
  assumes "ntp_socket env" "ntp_select env \<noteq> 0" "ntp_isset env" "ntp_reply env = None"
  shows "\<exists>t. start_ntp env s = Inr (1, t) \<and> open_fds t = open_fds s - 1"
  using assms by (simp add: start_ntp_def CreateNtpClientSockfd_def SendQueryTimePacked_def RecvNtpPacked_def close_fd_def Let_def)

end
