(* ===== verification/RestClient.thy ===== *)
theory RestClient
  imports CJsonTree NetAdapter
begin

text \<open>
  The REST client of OneNet (\<open>OneNet/restful.c\<close>, mode 4 of \<open>onenet_comm.h\<close>): the three HTTP requests, the
  test run and the reading of a response.  A response with the id of a new device stores it; the bounds
  of the buffers are those of the code.
\<close>

section \<open>Requests\<close>

record rest_state = net_state +
  new_device :: u8
  DeviceID :: bytes

text \<open>Literals, without their NUL.\<close>

definition lit :: "string \<Rightarrow> bytes" where
  "lit s = map (\<lambda>c. word_of_nat (of_char c)) s"

definition CRLF :: bytes where "CRLF = [0x0d, 0x0a]"
definition HTTP_API_KEY :: bytes where "HTTP_API_KEY = lit ''eafOBKUzn3Ox8Zo3UUA8EyVhjd4A''"
definition RESTFUL_SERVER_DOMAIN :: bytes where "RESTFUL_SERVER_DOMAIN = lit ''api.heclouds.com''"

text \<open>\<open>sprintf\<close> into the block of 400 bytes, then the text is sent; the result of the send is only logged.\<close>

definition send_request :: "mallocator \<Rightarrow> cstring \<Rightarrow> rest_state \<Rightarrow> (int \<times> rest_state) outcome" where
  "send_request mm text s =
     (case mm 400 of
        None \<Rightarrow> Inr (1, s)
      | Some postBuf \<Rightarrow>
          ebind (store_n postBuf 0 (text @ [0])) (\<lambda>postBuf.
          ebind (Socket_TCPClientSendData (cstr postBuf) s) (\<lambda>(ret, s). Inr (0, s))))"

definition post_text :: cstring where
  "post_text =
     (let Content = [0x7b, 0x22] @ lit ''title'' @ [0x22, 0x3a, 0x22] @ lit ''6211662F4E2D56FD4EBA'' @ [0x22, 0x7d] @ CRLF in
      lit ''POST /devices HTTP/1.1'' @ CRLF @ lit ''api-key:'' @ HTTP_API_KEY @ CRLF @ lit ''Host:'' @ RESTFUL_SERVER_DOMAIN @ CRLF @
      lit ''Content-Length:'' @ fmt_d (int (length Content)) @ CRLF @ CRLF @ Content)"

definition HttpPOST_NewDevice :: "mallocator \<Rightarrow> rest_state \<Rightarrow> (int \<times> rest_state) outcome" where
  "HttpPOST_NewDevice mm s = send_request mm post_text s"

definition device_request :: "string \<Rightarrow> cstring \<Rightarrow> cstring" where
  "device_request verb deviceid =
     lit verb @ lit '' /devices/'' @ deviceid @ lit '' HTTP/1.1'' @ CRLF @ lit ''api-key:'' @ HTTP_API_KEY @ CRLF @
     lit ''Host:'' @ RESTFUL_SERVER_DOMAIN @ CRLF @ CRLF"

text \<open>An id that fills its array has no NUL, and \<open>sprintf\<close> reads on behind it.\<close>

definition HttpGET_Device :: "mallocator \<Rightarrow> bytes \<Rightarrow> rest_state \<Rightarrow> (int \<times> rest_state) outcome" where
  "HttpGET_Device mm deviceid s =
     (if 0 \<notin> set deviceid then Inl OutOfBounds else send_request mm (device_request ''GET'' (cstr deviceid)) s)"

definition HttpDELETE_Device :: "mallocator \<Rightarrow> bytes \<Rightarrow> rest_state \<Rightarrow> (int \<times> rest_state) outcome" where
  "HttpDELETE_Device mm deviceid s =
     (if 0 \<notin> set deviceid then Inl OutOfBounds else send_request mm (device_request ''DELETE'' (cstr deviceid)) s)"

text \<open>\<open>wait\<close> is what the receiving task does during the delays.\<close>

definition RestFul_Run :: "mallocator \<Rightarrow> (rest_state \<Rightarrow> rest_state outcome) \<Rightarrow> rest_state \<Rightarrow> (int \<times> rest_state) outcome" where
  "RestFul_Run mm wait s =
     ebind (HttpPOST_NewDevice mm s) (\<lambda>(rc, s).
     ebind (wait s) (\<lambda>s.
     if new_device s = 1
     then let s = s\<lparr>new_device := 0\<rparr> in
          ebind (HttpGET_Device mm (DeviceID s) s) (\<lambda>(rc, s).
          ebind (wait s) (\<lambda>s.
          ebind (HttpDELETE_Device mm (DeviceID s) s) (\<lambda>(rc, s).
          ebind (wait s) (\<lambda>s. Inr (0, s)))))
     else Inr (0, s)))"

section \<open>Responses\<close>

definition lit_errno :: cstring where "lit_errno = lit ''errno''"
definition lit_data :: cstring where "lit_data = lit ''data''"
definition lit_device_id :: cstring where "lit_device_id = lit ''device_id''"

text \<open>What is done with the parsed text; members that are missing are dereferenced as null pointers.\<close>

definition store_device_id :: "'d cJSON \<Rightarrow> rest_state \<Rightarrow> rest_state outcome" where
  "store_device_id json s =
     (case cJSON_GetObjectItem json lit_errno of
        None \<Rightarrow> Inl NullPointer
      | Some json_value \<Rightarrow>
          if jtype json_value = cJSON_Number \<and> valueint json_value = 0
          then (case cJSON_GetObjectItem json lit_data of
                  None \<Rightarrow> Inl NullPointer
                | Some json_Object \<Rightarrow>
                    if jtype json_Object = cJSON_Object
                    then (case cJSON_GetObjectItem json_Object lit_device_id of
                            None \<Rightarrow> Inl NullPointer
                          | Some json_str \<Rightarrow>
                              if jtype json_str = cJSON_String
                              then (case valuestring json_str of
                                      None \<Rightarrow> Inl NullPointer
                                    | Some str \<Rightarrow>
                                        ebind (store_n (DeviceID s) 0 str) (\<lambda>d.
                                        Inr (s\<lparr>DeviceID := d, new_device := 1\<rparr>)))
                              else Inr s)
                    else Inr s)
          else Inr s)"

definition RestFul_RecvProcess :: "'d doubles \<Rightarrow> mallocator \<Rightarrow> bytes \<Rightarrow> rest_state \<Rightarrow> (int \<times> rest_state) outcome" where
  "RestFul_RecvProcess D mm data s =
     ebind (Search_str (Some data) (Some (lit ''200 OK'' @ CRLF @ [0]))) (\<lambda>presult.
     if presult \<noteq> 0
     then ebind (Search_str (Some data) (Some ([0x7b, 0x22] @ lit_errno @ [0x22, 0]))) (\<lambda>presult.
          if presult \<noteq> 0
          then if presult < 9 then Inl OutOfBounds
               else ebind (cJSON_Parse D mm (cstr (drop (nat (presult - 9)) data))) (\<lambda>json.
                    case json of
                      None \<Rightarrow> Inr (0, s)
                    | Some json \<Rightarrow> ebind (store_device_id json s) (\<lambda>s. Inr (0, s)))
          else Inr (0, s))
     else Inr (1, s))"

section \<open>Requests fit\<close>

lemma length_lit [simp]: "length (lit s) = length s"
  by (simp add: lit_def)

lemma length_device_request: "length (device_request verb deviceid) = length verb + length deviceid + 84"
  by (simp add: device_request_def CRLF_def HTTP_API_KEY_def RESTFUL_SERVER_DOMAIN_def)

section \<open>The response to a new device\<close>

definition status_line :: cstring where
  "status_line = lit ''HTTP/1.1 200 OK'' @ CRLF"

text \<open>
  The replies that the code takes for positive: objects with the member \<open>errno\<close> of value 0 in front, as the
  code looks for its text behind the brace, and, anywhere, an object \<open>data\<close> with the string
  \<open>device_id\<close>.  Other members may stand behind and between them.
\<close>

fun positive_reply :: "'d doubles \<Rightarrow> 'd cJSON \<Rightarrow> cstring \<Rightarrow> bool" where
  "positive_reply D (Item t vs vi vd n []) devid \<longleftrightarrow> False"
| "positive_reply D (Item t vs vi vd n (m # ms)) devid \<longleftrightarrow>
     json_ok D (Item t vs vi vd n (m # ms)) \<and> t = cJSON_Object \<and> n = None \<and>
     jstring m = Some lit_errno \<and> jtype m = cJSON_Number \<and> valueint m = 0 \<and>
     (case cJSON_GetObjectItem (Item t vs vi vd n (m # ms)) lit_data of
        None \<Rightarrow> False
      | Some d \<Rightarrow> jtype d = cJSON_Object \<and>
          (case cJSON_GetObjectItem d lit_device_id of
             None \<Rightarrow> False
           | Some i \<Rightarrow> jtype i = cJSON_String \<and> valuestring i = Some devid))"

lemma lit_values:
  "lit_errno = [0x65, 0x72, 0x72, 0x6e, 0x6f]" "lit_data = [0x64, 0x61, 0x74, 0x61]"
  "lit_device_id = [0x64, 0x65, 0x76, 0x69, 0x63, 0x65, 0x5f, 0x69, 0x64]"
  "lit ''200 OK'' = [0x32, 0x30, 0x30, 0x20, 0x4f, 0x4b]"
  "status_line = [0x48, 0x54, 0x54, 0x50, 0x2f, 0x31, 0x2e, 0x31, 0x20, 0x32, 0x30, 0x30, 0x20, 0x4f, 0x4b, 0x0d, 0x0a]"
  by (simp_all add: lit_errno_def lit_data_def lit_device_id_def status_line_def lit_def CRLF_def)

lemma positive_replyE:
  assumes "positive_reply D j devid"
  obtains vs vi vd m ms where "j = Item cJSON_Object vs vi vd None (m # ms)" "json_ok D j" "jstring j = None" "jstring m = Some lit_errno"
    "jtype m = cJSON_Number" "valueint m = 0"
  using assms by (cases "(D, j, devid)" rule: positive_reply.cases) auto

lemma errno_found:
  assumes "positive_reply D j devid"
  shows "\<exists>m. cJSON_GetObjectItem j lit_errno = Some m \<and> jtype m = cJSON_Number \<and> valueint m = 0"
  using assms by (elim positive_replyE) (auto simp: cJSON_GetObjectItem_def cJSON_strcasecmp_def to_lower_def lit_values)

lemma store_reply:
  assumes "positive_reply D j devid"
  shows "store_device_id j s = ebind (store_n (DeviceID s) 0 devid) (\<lambda>d. Inr (s\<lparr>DeviceID := d, new_device := 1\<rparr>))"
  using assms errno_found [OF assms]
  by (cases "(D, j, devid)" rule: positive_reply.cases) (auto simp: store_device_id_def split: option.splits)

lemma render_reply:
  assumes "positive_reply D j devid"
  shows "\<exists>tl. render False 0 j = [0x7b, 0x22, 0x65, 0x72, 0x72, 0x6e, 0x6f, 0x22] @ tl"
  using assms by (elim positive_replyE) (auto simp: render.simps object_text_def json_string_def lit_values escape_char_def)

text \<open>The search skips what is not the first character of its pattern.\<close>

lemma search_skips:
  "x \<notin> set (take k (drop s source)) \<Longrightarrow> 0 \<notin> set (take k (drop s source)) \<Longrightarrow> s + k \<le> length source \<Longrightarrow> x \<noteq> 0 \<Longrightarrow>
   search_outer source (x # cs) s 0 len = search_outer source (x # cs) (s + k) 0 (len + int k)"
proof (induction k arbitrary: s len)
  case (Suc k)
  then have "drop s source = source ! s # drop (Suc s) source" by (simp add: Cons_nth_drop_Suc)
  with Suc.prems have "source ! s \<noteq> x" "source ! s \<noteq> 0" "x \<notin> set (take k (drop (Suc s) source))" "0 \<notin> set (take k (drop (Suc s) source))"
    by auto
  with Suc.IH [of "Suc s" "len + 1"] Suc.prems show ?case
    by (subst search_outer.simps) (simp add: load_def ac_simps)
qed simp

lemma search_status: "Search_str (Some (status_line @ rest)) (Some (lit ''200 OK'' @ CRLF @ [0])) = Inr 17"
  by (simp add: Search_str_def lit_values CRLF_def search_outer.simps search_inner.simps load_def)

lemma search_errno:
  assumes "0x7b \<notin> set head" "is_cstring head"
  shows "Search_str (Some (head @ [0x7b, 0x22, 0x65, 0x72, 0x72, 0x6e, 0x6f, 0x22] @ rest)) (Some ([0x7b, 0x22] @ lit_errno @ [0x22, 0])) =
    Inr (int (length head) + 8)"
proof -
  let ?d = "head @ [0x7b, 0x22, 0x65, 0x72, 0x72, 0x6e, 0x6f, 0x22] @ rest" and ?p = "[0x22] @ lit_errno @ [0x22, 0]"
  have "search_outer ?d (0x7b # ?p) 0 0 0 = search_outer ?d (0x7b # ?p) (0 + length head) 0 (0 + int (length head))"
    using assms by (intro search_skips) (auto simp: is_cstring_def)
  also have "\<dots> = Inr (int (length head) + 8)"
    by (simp add: lit_values search_outer.simps search_inner.simps load_def nth_append)
  finally show ?thesis by (simp add: Search_str_def)
qed

lemma parse_behind_blank:
  assumes mm: "byte_malloc mm limit" and D: "exact_integers D" and j: "json_ok D j" "jstring j = None"
    and len: "length (render False 0 j) \<le> limit"
  shows "cJSON_Parse D mm (0x0a # render False 0 j) = Inr (Some j)"
proof -
  let ?r = "render False 0 j"
  have "parse_value D mm (length (0x0a # ?r) + 1) (value_item D cJSON_False j) (?r @ []) = Inr (Inr (j, []))"
    by (rule parse_value_render [OF mm D j(1) len]) (simp_all add: number_end_def is_digit_def)
  moreover have "value_item D cJSON_False j = zero_item D" by (simp add: value_item_def zero_item_def j(2))
  moreover have "skip (0x0a # ?r) = ?r" using skip_render [of False 0 j "[]"] by simp
  ultimately show ?thesis by (simp add: cJSON_Parse_def cJSON_ParseWithOpts_def with_item_ok [OF mm])
qed

text \<open>
  C25: A response of the status line \<open>HTTP/1.1 200 OK\<close>, header lines without an opening brace and a body
  printed without white space, a JSON object with \<open>errno\<close> 0 as its first member, an object \<open>data\<close> with the
  string \<open>device_id\<close> and any other members whose numbers are 32-bit integers, stores the id and the flag, for
  any id of at most 20 characters; the rest of the array is not cleared, so that the end of a longer
  earlier id stays.  An id of more than 20 characters is written behind the array.
\<close>

theorem rest_device_id:
  assumes "byte_malloc mm limit" "exact_integers D" "is_cstring hdrs" "0x7b \<notin> set hdrs" "positive_reply D j devid"
    and "length (render False 0 j) \<le> limit" "length (DeviceID s) = 20"
  shows "RestFul_RecvProcess D mm (status_line @ hdrs @ 0x0a # render False 0 j @ 0 # rest) s =
    (if length devid \<le> 20 then Inr (0, s\<lparr>DeviceID := devid @ drop (length devid) (DeviceID s), new_device := 1\<rparr>)
     else Inl OutOfBounds)"
proof -
  let ?r = "render False 0 j" and ?head = "status_line @ hdrs @ [0x0a]"
  let ?data = "status_line @ hdrs @ 0x0a # ?r @ 0 # rest"
  obtain j: "json_ok D j" "jstring j = None" using positive_replyE [OF assms(5)] by metis
  obtain tl where tl: "?r = [0x7b, 0x22, 0x65, 0x72, 0x72, 0x6e, 0x6f, 0x22] @ tl" using render_reply [OF assms(5)] by blast
  have "0x7b \<notin> set ?head" "is_cstring ?head" using assms(3,4) by (simp_all add: lit_values is_cstring_def)
  from search_errno [OF this, of "tl @ 0 # rest"]
  have errno: "Search_str (Some ?data) (Some ([0x7b, 0x22] @ lit_errno @ [0x22, 0])) = Inr (int (length ?head) + 8)"
    by (simp add: tl)
  have "is_cstring (0x0a # ?r)" using render_nonzero [OF j(1)] by (auto simp: is_cstring_def)
  then have "cstr ((0x0a # ?r) @ 0 # rest) = 0x0a # ?r" by (rule cstr_append_NUL)
  moreover have "nat (int (length ?head) + 8 - 9) = length (status_line @ hdrs)" by simp
  then have "drop (nat (int (length ?head) + 8 - 9)) ?data = 0x0a # ?r @ 0 # rest"
    by (simp only: append_assoc [symmetric] append_eq_conv_conj [THEN iffD1, OF refl, THEN conjunct2, symmetric])
  ultimately have body: "cstr (drop (nat (int (length ?head) + 8 - 9)) ?data) = 0x0a # ?r" by simp
  have "\<not> int (length ?head) + 8 < 9" "int (length ?head) + 8 \<noteq> 0" by (simp_all add: lit_values)
  then show ?thesis
    unfolding RestFul_RecvProcess_def search_status errno ebind.simps body parse_behind_blank [OF assms(1,2) j assms(6)]
    using assms(7) store_reply [OF assms(5), of s] by (simp add: store_n_def)
qed

text \<open>A reply with a header line and a member behind \<open>data\<close>.\<close>

definition sample_reply :: "int cJSON" where
  "sample_reply =
     Item cJSON_Object None 0 0 None
       [Item cJSON_Number None 0 0 (Some lit_errno) [],
        Item cJSON_Object None 0 0 (Some lit_data) [Item cJSON_String (Some [0x37, 0x38]) 0 0 (Some lit_device_id) []],
        Item cJSON_String (Some [0x6f, 0x6b]) 0 0 (Some [0x65, 0x72, 0x72, 0x6f, 0x72]) []]"

lemma sample_reply_ok: "positive_reply int_doubles sample_reply [0x37, 0x38]" "length (render False 0 sample_reply) \<le> 2000"
  by (simp_all add: sample_reply_def json_ok.simps lit_values is_cstring_def int_doubles_def cJSON_GetObjectItem_def cJSON_strcasecmp_def
      to_lower_def render.simps object_text_def json_string_def escape_char_def fmt_d_def dec_nat.simps)

theorem rest_device_id_witness:
  "\<exists>s'. RestFul_RecvProcess int_doubles (\<lambda>n. Some (replicate (unat n) 0))
       (status_line @ (lit ''Connection: close'' @ CRLF @ [0x0d]) @ 0x0a # render False 0 sample_reply @ 0 # [])
     \<lparr>TCPClientFd = 3, TCPClient_reset_flag = 0, send_lock = False, net_out = [], net_in = [], tx_script = [], new_device = 0, DeviceID = replicate 20 0\<rparr> = Inr (0, s') \<and>
     cstr (DeviceID s') = [0x37, 0x38] \<and> new_device s' = 1"
proof -
  have mm: "byte_malloc (\<lambda>n. Some (replicate (unat n) (0 :: u8))) 2000" by unfold_locales auto
  have "is_cstring (lit ''Connection: close'' @ CRLF @ [0x0d])" "0x7b \<notin> set (lit ''Connection: close'' @ CRLF @ [0x0d])"
    by (simp_all add: lit_def CRLF_def is_cstring_def)
  from rest_device_id [OF mm int_doubles_exact this sample_reply_ok, of
      "\<lparr>TCPClientFd = 3, TCPClient_reset_flag = 0, send_lock = False, net_out = [], net_in = [], tx_script = [], new_device = 0, DeviceID = replicate 20 0\<rparr>" "[]"]
  show ?thesis by (simp add: cstr_def)
qed

section \<open>The requests on the connection\<close>

text \<open>A text that fits is sent as it is.\<close>

lemma send_request_ok:
  assumes mm: "byte_malloc mm limit" and req: "is_cstring req" "length req < 400"
  shows "send_request mm req s = ebind (Socket_TCPClientSendData req s) (\<lambda>(ret, s). Inr (0, s))"
proof -
  have "unat (400 :: u32) \<le> limit" using byte_malloc.limit_ge [OF mm] by simp
  then obtain d where d: "mm 400 = Some d" using byte_malloc.mm_total [OF mm] by blast
  then have "length d = 400" using byte_malloc.mm_length [OF mm d] by simp
  then show ?thesis
    using d req cstr_append_NUL [OF req(1), of "drop (Suc (length req)) d"] by (simp add: send_request_def store_n_def)
qed

lemma is_cstring_device_request:
  assumes "is_cstring devid" "verb = ''GET'' \<or> verb = ''DELETE''"
  shows "is_cstring (device_request verb devid)"
  using assms by (auto simp: device_request_def is_cstring_def lit_def CRLF_def HTTP_API_KEY_def RESTFUL_SERVER_DOMAIN_def)

text \<open>The array for the id, when it ends with a NUL, leads to requests that fit into their buffer.\<close>

lemma device_requests_sent:
  assumes mm: "byte_malloc mm limit" and devid: "length deviceid = 20" "0 \<in> set deviceid"
  shows "HttpGET_Device mm deviceid s = ebind (Socket_TCPClientSendData (device_request ''GET'' (cstr deviceid)) s) (\<lambda>(ret, s). Inr (0, s))"
    and "HttpDELETE_Device mm deviceid s = ebind (Socket_TCPClientSendData (device_request ''DELETE'' (cstr deviceid)) s) (\<lambda>(ret, s). Inr (0, s))"
proof -
  have "length (cstr deviceid) \<le> 20" using length_takeWhile_le [of _ deviceid] devid(1) by (simp add: cstr_def)
  then have "length (device_request ''GET'' (cstr deviceid)) < 400" "length (device_request ''DELETE'' (cstr deviceid)) < 400"
    by (simp_all add: length_device_request)
  then show "HttpGET_Device mm deviceid s = ebind (Socket_TCPClientSendData (device_request ''GET'' (cstr deviceid)) s) (\<lambda>(ret, s). Inr (0, s))"
    "HttpDELETE_Device mm deviceid s = ebind (Socket_TCPClientSendData (device_request ''DELETE'' (cstr deviceid)) s) (\<lambda>(ret, s). Inr (0, s))"
    using devid(2) by (simp_all add: HttpGET_Device_def HttpDELETE_Device_def send_request_ok [OF mm] is_cstring_device_request)
qed

end
