(* ===== verification/CJsonMinify.thy ===== *)
theory CJsonMinify
  imports CJson
begin

text \<open>
  \<open>cJSON_Minify\<close>, which removes white space and comments from a JSON text in place.  A pointer into the text
  is the list of the characters from there up to the NUL, as in CJson; what is written never overtakes
  what is read, so that the result is the list of the characters written.  Applied to the formatted
  text of an item it produces its unformatted text.
\<close>

section \<open>Minify\<close>

text \<open>Behind an opening quote; a text that ends inside of the string is read on behind its NUL.\<close>

fun minify_string :: "cstring \<Rightarrow> (cstring \<times> cstring) outcome" where
  "minify_string [] = Inl OutOfBounds"
| "minify_string (c # json) =
     (if c = 0x22 then Inr ([c], json)
      else if c = 0x5c
      then (case json of
              [] \<Rightarrow> Inl OutOfBounds
            | d # json \<Rightarrow> ebind (minify_string json) (\<lambda>(into, json). Inr (c # d # into, json)))
      else ebind (minify_string json) (\<lambda>(into, json). Inr (c # into, json)))"

text \<open>The loop over a multi-line comment and the two characters behind it.\<close>

fun skip_comment :: "cstring \<Rightarrow> cstring outcome" where
  "skip_comment [] = Inl OutOfBounds"
| "skip_comment (c # json) =
     (if c = 0x2a \<and> peek json = 0x2f then Inr (tl json) else skip_comment json)"

lemma minify_string_length: "minify_string json = Inr (into, json') \<Longrightarrow> length json' < length json"
proof (induction json arbitrary: into json' rule: minify_string.induct)
  case (2 c json)
  then show ?case by (fastforce simp: c_bind split: if_splits list.splits)
qed simp

lemma skip_comment_length: "skip_comment json = Inr json' \<Longrightarrow> length json' < length json"
  by (induction json) (fastforce split: if_splits)+

function minify :: "cstring \<Rightarrow> cstring outcome" where
  "minify [] = Inr []"
| "minify (c # json) =
     (if c = 0x20 \<or> c = 0x09 \<or> c = 0x0d \<or> c = 0x0a then minify json
      else if c = 0x2f \<and> peek json = 0x2f then minify (dropWhile (\<lambda>c. c \<noteq> 0x0a) (c # json))
      else if c = 0x2f \<and> peek json = 0x2a then ebind (skip_comment (c # json)) minify
      else if c = 0x22
      then ebind (minify_string json) (\<lambda>(into, json). ebind (minify json) (\<lambda>rest. Inr (c # into @ rest)))
      else ebind (minify json) (\<lambda>rest. Inr (c # rest)))"
  by pat_completeness auto
termination
proof (relation "measure length", goal_cases)
  case (3 c json)
  then show ?case using length_dropWhile_le [of "\<lambda>c. c \<noteq> 0x0a" json] by (simp add: le_imp_less_Suc)
qed (auto dest!: skip_comment_length minify_string_length)

declare minify.simps(2) [simp del]

definition cJSON_Minify :: "cstring \<Rightarrow> cstring outcome" where
  "cJSON_Minify json = minify json"

section \<open>Formatted and unformatted text\<close>

text \<open>In front of any text, \<open>xs\<close> comes out as \<open>ys\<close>.\<close>

definition mins :: "cstring \<Rightarrow> cstring \<Rightarrow> bool" where
  "mins xs ys \<longleftrightarrow> (\<forall>s. minify (xs @ s) = ebind (minify s) (\<lambda>t. Inr (ys @ t)))"

lemma ebind_Inr_id [simp]: "ebind m Inr = m"
  by (cases m) simp_all

lemma ebind_assoc: "ebind (ebind m f) g = ebind m (\<lambda>x. ebind (f x) g)"
  by (cases m) simp_all

lemma mins_Nil: "mins [] []"
  by (simp add: mins_def)

lemma mins_append: "mins xs ys \<Longrightarrow> mins xs' ys' \<Longrightarrow> mins (xs @ xs') (ys @ ys')"
  by (simp add: mins_def ebind_assoc)

lemma mins_blank: "c = 0x20 \<or> c = 0x09 \<or> c = 0x0d \<or> c = 0x0a \<Longrightarrow> mins [c] []"
  by (auto simp: mins_def minify.simps(2))

lemma mins_char: "c \<notin> {0x20, 0x09, 0x0d, 0x0a, 0x2f, 0x22} \<Longrightarrow> mins [c] [c]"
  by (simp add: mins_def minify.simps(2))

lemma mins_tabs: "mins (replicate n 0x09) []"
  by (induction n) (use mins_append [OF mins_blank [of "0x09"]] mins_Nil in auto)

lemma mins_chars: "\<forall>c \<in> set xs. c \<notin> {0x20, 0x09, 0x0d, 0x0a, 0x2f, 0x22} \<Longrightarrow> mins xs xs"
  by (induction xs) (use mins_append [OF mins_char] mins_Nil in auto)

lemma minify_string_escape:
  "minify_string (escape_char c @ s) = ebind (minify_string s) (\<lambda>(into, json). Inr (escape_char c @ into, json))"
proof (cases "c < 32")
  case True
  then have "hex_char (drop_bit 4 c) \<noteq> 0x22 \<and> hex_char (drop_bit 4 c) \<noteq> 0x5c" "hex_char (c AND 0xf) \<noteq> 0x22 \<and> hex_char (c AND 0xf) \<noteq> 0x5c"
    using hex_char_plain [OF control_nibbles(1)] hex_char_plain [OF control_nibbles(2)] by auto
  then show ?thesis by (simp add: escape_char_def ebind_assoc case_prod_beta')
next
  case False
  then have "\<not> c < 32" "c > 31" by (simp_all add: word_less_nat_alt)
  then show ?thesis by (auto simp: escape_char_def case_prod_beta')
qed

lemma minify_string_json: "minify_string (concat (map escape_char xs) @ 0x22 # s) = Inr (concat (map escape_char xs) @ [0x22], s)"
  by (induction xs) (simp_all add: minify_string_escape)

lemma mins_string: "mins (json_string xs) (json_string xs)"
  by (simp add: mins_def json_string_def minify.simps(2) minify_string_json)

lemma dec_nat_digits: "c \<in> set (dec_nat n) \<Longrightarrow> is_digit c"
proof (induction n arbitrary: c rule: dec_nat.induct)
  case (1 n)
  have "is_digit (0x30 + word_of_nat k)" if "k < 10" for k
  proof -
    have "k = 0 \<or> k = 1 \<or> k = 2 \<or> k = 3 \<or> k = 4 \<or> k = 5 \<or> k = 6 \<or> k = 7 \<or> k = 8 \<or> k = 9" using that by arith
    then show ?thesis by (elim disjE) (simp_all add: is_digit_def)
  qed
  then show ?case using 1 by (subst (asm) (2) dec_nat.simps) (auto split: if_splits)
qed

lemma mins_number: "mins (fmt_d i) (fmt_d i)"
proof (rule mins_chars, rule ballI)
  fix c
  assume "c \<in> set (fmt_d i)"
  then have "c = 0x2d \<or> is_digit c" using dec_nat_digits by (auto simp: fmt_d_def split: if_splits)
  then show "c \<notin> {0x20, 0x09, 0x0d, 0x0a, 0x2f, 0x22}" by (auto simp: is_digit_def)
qed

lemma mins_array_body:
  "list_all2 mins es es' \<Longrightarrow> mins (array_body True es) (array_body False es')"
proof (induction es es' rule: list_all2_induct)
  case (Cons e es e' es')
  have "mins [0x2c, 0x20] [0x2c]" using mins_append [OF mins_char [of "0x2c"] mins_blank [of "0x20"]] by simp
  then have "mins (if es \<noteq> [] then [0x2c, 0x20] else []) (if es' \<noteq> [] then [0x2c] else [])"
    using Cons.hyps(2) mins_Nil by (auto simp: list_all2_Nil list_all2_Nil2)
  from mins_append [OF Cons.hyps(1) mins_append [OF this Cons.IH]] show ?case by (auto split: if_splits)
qed (simp add: mins_Nil)

lemma mins_object_body:
  "list_all2 (\<lambda>(n, e) (n', e'). mins n n' \<and> mins e e') es es' \<Longrightarrow> mins (object_body True depth es) (object_body False depth' es')"
proof (induction es es' rule: list_all2_induct)
  case (Cons p es p' es')
  obtain n e n' e' where p: "p = (n, e)" "p' = (n', e')" "mins n n'" "mins e e'" using Cons.hyps(1) by (cases p; cases p') auto
  have colon: "mins [0x3a, 0x09] [0x3a]" using mins_append [OF mins_char [of "0x3a"] mins_blank [of "0x09"]] by simp
  have comma: "mins (if es \<noteq> [] then [0x2c] else []) (if es' \<noteq> [] then [0x2c] else [])"
    using Cons.hyps(2) mins_Nil mins_char [of "0x2c"] by (auto simp: list_all2_Nil list_all2_Nil2)
  note mins_append [OF mins_tabs [of depth] mins_append [OF p(3) mins_append [OF colon mins_append [OF p(4)
    mins_append [OF comma mins_append [OF mins_blank [of "0x0a"] Cons.IH]]]]]]
  then show ?case unfolding p by (auto split: if_splits)
qed (simp add: mins_Nil)

lemma mins_render: "mins (render True depth j) (render False depth' j)"
proof (induction j arbitrary: depth depth')
  case (Item t vs vi vd n ch)
  have br: "mins [c] [c]" if "c \<in> {0x5b, 0x5d, 0x7b, 0x7d}" for c using that by (intro mins_char) auto
  show ?case
  proof (cases t)
    case cJSON_Array
    have "list_all2 mins (map (render True (depth + 1)) ch) (map (render False (depth' + 1)) ch)"
      using Item by (auto simp: list_all2_conv_all_nth)
    from mins_append [OF br [of "0x5b"] mins_append [OF mins_array_body [OF this] br [of "0x5d"]]]
    show ?thesis using cJSON_Array by (simp add: render.simps array_text_def)
  next
    case cJSON_Object
    have nl: "mins [0x0a] []" by (simp add: mins_blank)
    show ?thesis
    proof (cases "ch = []")
      case True
      from mins_append [OF br [of "0x7b"] mins_append [OF nl mins_append [OF mins_tabs [of "depth - 1"] br [of "0x7d"]]]]
      show ?thesis using cJSON_Object True by (simp add: render.simps)
    next
      case False
      let ?es = "\<lambda>fmt depth. map (\<lambda>c. (json_string (the (jstring c)), render fmt (depth + 1) c)) ch"
      have "list_all2 (\<lambda>(n, e) (n', e'). mins n n' \<and> mins e e') (?es True depth) (?es False depth')"
        using Item mins_string by (auto simp: list_all2_conv_all_nth)
      from mins_append [OF br [of "0x7b"] mins_append [OF nl mins_append [OF mins_object_body [OF this, of "depth + 1" "depth' + 1"]
        mins_append [OF mins_tabs [of depth] br [of "0x7d"]]]]]
      show ?thesis using cJSON_Object False by (simp add: render.simps object_text_def)
    qed
  qed (use mins_number mins_string in \<open>auto simp: render.simps lit_null_def lit_false_def lit_true_def intro!: mins_chars\<close>)
qed

text \<open>
  C27: \<open>cJSON_Minify\<close> makes the unformatted text of the formatted one: for every item whose numbers are
  32-bit integers, it turns what \<open>cJSON_Print\<close> returns into what \<open>cJSON_PrintUnformatted\<close> returns, strings with blanks,
  quotes and slashes included.
\<close>

theorem minify_is_unformatted:
  assumes "byte_malloc mm limit" "exact_integers D" "json_ok D j"
    and "4 * length (render True 0 j) + 64 \<le> limit" "4 * length (render False 0 j) + 64 \<le> limit"
  shows "\<exists>text short. cJSON_Print D mm j = Inr (Some text) \<and> cJSON_PrintUnformatted D mm j = Inr (Some short) \<and>
    cJSON_Minify text = Inr short"
proof -
  have "minify (render True 0 j @ []) = Inr (render False 0 j)" using mins_render [of 0 j 0, unfolded mins_def, rule_format, of "[]"] by simp
  then show ?thesis
    using print_value_render [OF assms(1-3), of True 0] print_value_render [OF assms(1-3), of False 0] assms(4,5)
    by (simp add: cJSON_Print_def cJSON_PrintUnformatted_def cJSON_Minify_def)
qed

theorem minify_is_unformatted_witness:
  "\<exists>text short. cJSON_Print int_doubles (pool_malloc PCB_ADDR fresh_heap) sample_item = Inr (Some text) \<and>
     cJSON_PrintUnformatted int_doubles (pool_malloc PCB_ADDR fresh_heap) sample_item = Inr (Some short) \<and> cJSON_Minify text = Inr short"
proof -
  have "length (render fmt 0 sample_item) \<le> 200" for fmt
    by (cases fmt) (simp_all add: sample_item_def render.simps object_text_def array_text_def json_string_def escape_char_def
      fmt_d_def dec_nat.simps lit_true_def)
  from this [of True] this [of False] show ?thesis
    by (intro minify_is_unformatted [OF fresh.byte_malloc_axioms int_doubles_exact])
       (simp_all add: sample_item_def json_ok.simps is_cstring_def int_doubles_def)
qed

end
