(* ===== verification/SysMgmt.thy ===== *)
theory SysMgmt
  imports DhcpMessages DnsServer WifiConn
begin

text \<open>
  The system management task (\<open>Sys/sys_mgmt.c\<close>) and the start and stop of the network interface
  (\<open>LwIP/port/lwIP.c\<close>), which join the system parameters, the DHCP and DNS servers and the callback of the
  connection manager.  In access point mode a link starts both servers on the address of the parameters;
  a failure of the DHCP server is hidden by the success of the DNS server; a link that goes down after
  the mode has been changed leaves the servers running.
\<close>

section \<open>State\<close>

text \<open>
  The interface as the TCP/IP stack keeps it, addresses in network order.  \<open>reported\<close> lists the events
  for which the callback \<open>SysEvtCB\<close> was called, \<open>gpSysMngTskMsgQ\<close> the messages that the task has posted
  to itself.
\<close>

record net_if =
  if_ip :: u32
  if_netmask :: u32
  if_gw :: u32
  if_up :: bool

record link_state =
  sysp :: sys_state
  netif :: net_if
  dns_server0 :: u32
  dhcp_client :: bool
  dhcps :: dhcp_state
  dnss :: dns_state
  reported :: "sys_evt list"
  gpSysMngTskMsgQ :: "msg_id list"

text \<open>
  The answers of the stack: whether \<open>udp_new\<close> succeeds for either server, and what the DHCP client shows
  behind each wait, that is the interface, the number of its attempts and the flag \<open>LinkReady\<close>.
\<close>

record link_env =
  udp_dhcps :: bool
  udp_dnss :: bool
  dhcp_script :: "(net_if \<times> nat \<times> bool) list"

section \<open>The interface\<close>

definition SUBNET_MASK_ADR :: u32 where "SUBNET_MASK_ADR = 0xFFFFFF00"

definition IP4_ADDR :: "bytes \<Rightarrow> u32" where
  "IP4_ADDR bs = htonl (push_bit 24 (ucast (bs ! 0)) OR push_bit 16 (ucast (bs ! 1)) OR push_bit 8 (ucast (bs ! 2)) OR ucast (bs ! 3))"

definition LoadStaticParam :: "link_state \<Rightarrow> link_state" where
  "LoadStaticParam s =
     (let ip = IPCfg (SysParam (sysp s))
      in s\<lparr>netif := \<lparr>if_ip = IP4_ADDR (ipIp ip), if_netmask = IP4_ADDR (ipNetmask ip), if_gw = IP4_ADDR (ipGateWay ip), if_up = True\<rparr>,
           dns_server0 := IP4_ADDR (ipDns ip)\<rparr>)"

text \<open>The polling loop of \<open>ifUpWhenDhcp\<close>; behind the end of the script it does not end.\<close>

fun dhcp_wait :: "(net_if \<times> nat \<times> bool) list \<Rightarrow> link_state \<Rightarrow> (int \<times> link_state) outcome" where
  "dhcp_wait script s =
     (if if_ip (netif s) \<noteq> 0 then Inr (0, s\<lparr>netif := (netif s)\<lparr>if_up := True\<rparr>\<rparr>)
      else case script of
             [] \<Rightarrow> Inl Diverges
           | (shown, tries, LinkReady) # script \<Rightarrow>
               let s = s\<lparr>netif := shown\<rparr>; limit = DhcpTryTimes (IPCfg (SysParam (sysp s))) in
               if \<not> LinkReady \<or> limit \<noteq> 0 \<and> tries > unat limit
               then Inr (- 1, s\<lparr>dhcp_client := False, gpSysMngTskMsgQ := gpSysMngTskMsgQ s @ [SYS_DHCP_TIMEOUT_ID]\<rparr>)
               else dhcp_wait script s)"

definition ifUpWhenDhcp :: "link_env \<Rightarrow> link_state \<Rightarrow> (int \<times> link_state) outcome" where
  "ifUpWhenDhcp env s = dhcp_wait (dhcp_script env) (s\<lparr>dhcp_client := True\<rparr>)"

definition is_softap :: "link_state \<Rightarrow> bool" where
  "is_softap s \<longleftrightarrow> Protocol (WiFiCfg (SysParam (sysp s))) = ucast PARAM_NET_MODE_SOFTAP"

definition uses_dhcp :: "link_state \<Rightarrow> bool" where
  "uses_dhcp s \<longleftrightarrow> Protocol (WiFiCfg (SysParam (sysp s))) = ucast PARAM_NET_MODE_STA_BSS \<and> bDhcp (IPCfg (SysParam (sysp s))) \<noteq> 0"

text \<open>The two servers; \<open>Ret\<close> is the result so far.\<close>

definition start_dhcps :: "link_env \<Rightarrow> int \<Rightarrow> link_state \<Rightarrow> (int \<times> link_state) outcome" where
  "start_dhcps env Ret s =
     (if bDhcpServer (SysParam (sysp s)) \<noteq> 0
      then ebind (DHCPS_Start (if_up (netif s)) (udp_dhcps env) (if_ip (netif s)) (if_netmask (netif s)) (dhcps s)) (\<lambda>(Ret, d).
           Inr (Ret, s\<lparr>dhcps := d\<rparr>))
      else Inr (Ret, s))"

definition start_dnss :: "link_env \<Rightarrow> int \<Rightarrow> link_state \<Rightarrow> int \<times> link_state" where
  "start_dnss env Ret s =
     (if bDnsServer (SysParam (sysp s)) \<noteq> 0
      then let (Ret, d) = DNSS_Start (udp_dnss env) (Some (if_up (netif s), if_ip (netif s))) (cstr (cfgDnsName (SysParam (sysp s)))) (dnss s)
           in (Ret, s\<lparr>dnss := d\<rparr>)
      else (Ret, s))"

definition L2LinkUp :: "link_env \<Rightarrow> link_state \<Rightarrow> (int \<times> link_state) outcome" where
  "L2LinkUp env s =
     ebind (if uses_dhcp s then ifUpWhenDhcp env s else Inr (0, LoadStaticParam s)) (\<lambda>(Ret, s).
     ebind (if is_softap s
            then ebind (start_dhcps env Ret s) (\<lambda>(Ret, s). Inr (start_dnss env Ret s))
            else Inr (Ret, s)) (\<lambda>(Ret, s).
     Inr (if Ret = 0 then 0 else - 1, s)))"

definition L2LinkDown :: "link_state \<Rightarrow> link_state" where
  "L2LinkDown s =
     (let s = s\<lparr>netif := (netif s)\<lparr>if_up := False\<rparr>\<rparr>;
          s = (if uses_dhcp s then s\<lparr>dhcp_client := False\<rparr> else s);
          s = s\<lparr>netif := (netif s)\<lparr>if_ip := 0, if_netmask := htonl SUBNET_MASK_ADR, if_gw := 0\<rparr>\<rparr>
      in if is_softap s
         then let s = (if bDhcpServer (SysParam (sysp s)) \<noteq> 0 then s\<lparr>dhcps := DHCPS_Stop (dhcps s)\<rparr> else s)
              in if bDnsServer (SysParam (sysp s)) \<noteq> 0 then s\<lparr>dnss := DNSS_Stop (dnss s)\<rparr> else s
         else s)"

section \<open>The management task\<close>

definition evt_callback :: "sys_evt \<Rightarrow> link_state \<Rightarrow> link_state" where
  "evt_callback e s = (if SysEvtCB (sysp s) \<noteq> 0 then s\<lparr>reported := reported s @ [e]\<rparr> else s)"

definition DefaultProc :: "link_env \<Rightarrow> msg_id option \<Rightarrow> link_state \<Rightarrow> link_state outcome" where
  "DefaultProc env msg s =
     (case msg of
        None \<Rightarrow> Inr s
      | Some SYS_LINK_UP_ID \<Rightarrow> ebind (L2LinkUp env s) (\<lambda>(ret, s). Inr (if ret \<noteq> 0 then s else evt_callback SYS_EVT_LINK_UP s))
      | Some SYS_LINK_DOWN_ID \<Rightarrow> Inr (evt_callback SYS_EVT_LINK_DOWN (L2LinkDown s))
      | Some SYS_STA_JOIN_FAIL_ID \<Rightarrow> Inr (evt_callback SYS_EVT_JOIN_FAIL s)
      | Some SYS_DHCP_TIMEOUT_ID \<Rightarrow> Inr (evt_callback SYS_EVT_DHCP_FAIL s)
      | Some SYS_SCAN_DONE_ID \<Rightarrow> Inr (evt_callback SYS_EVT_SCAN_DONE s)
      | Some SYS_DIRECT_CFG_DONE_ID \<Rightarrow> Inr (evt_callback SYS_EVT_DIRECT_CFG_DONE s)
      | Some _ \<Rightarrow> Inr s)"

text \<open>The messages that the loop of \<open>SysMgmtMain\<close> takes from its queue.\<close>

fun SysMgmtMain :: "(link_env \<times> msg_id option) list \<Rightarrow> link_state \<Rightarrow> link_state outcome" where
  "SysMgmtMain [] s = Inr s"
| "SysMgmtMain ((env, msg) # msgs) s = ebind (DefaultProc env msg s) (SysMgmtMain msgs)"

section \<open>The calls of the connection manager\<close>

text \<open>What a call that the connection manager has recorded does to the parameters; \<open>strlen\<close> is cut to a byte.\<close>

definition inf_call_do :: "inf_call \<Rightarrow> sys_state \<Rightarrow> sys_state outcome" where
  "inf_call_do c s =
     (case c of
        Call_InfWiFiStop \<Rightarrow> Inr (snd (InfWiFiStop s))
      | Call_InfWiFiStart \<Rightarrow> Inr (snd (InfWiFiStart s))
      | Call_InfLoadDefaultParam \<Rightarrow> InfLoadDefaultParam s
      | Call_InfIpSet dhcp tries \<Rightarrow> Inr (snd (InfIpSet (Some (zero_ip\<lparr>bDhcp := dhcp, DhcpTryTimes := tries\<rparr>)) s))
      | Call_InfConTryTimesSet n \<Rightarrow> Inr (snd (InfConTryTimesSet n s))
      | Call_InfNetModeSet m \<Rightarrow> Inr (snd (InfNetModeSet m s))
      | Call_InfEncModeSet m \<Rightarrow> Inr (snd (InfEncModeSet m s))
      | Call_InfSsidSet name \<Rightarrow> ebind (InfSsidSet (Some (name @ [0])) (word_of_nat (length name)) s) (\<lambda>(ret, s). Inr s)
      | Call_InfKeySet key \<Rightarrow> ebind (InfKeySet 0 (Some (key @ [0])) (word_of_nat (length key)) s) (\<lambda>(ret, s). Inr s)
      | Call_InfDirectCfgStart \<Rightarrow> Inr (snd (InfDirectCfgStart 0 0 0 s)))"

fun inf_calls_do :: "inf_call list \<Rightarrow> sys_state \<Rightarrow> sys_state outcome" where
  "inf_calls_do [] s = Inr s"
| "inf_calls_do (c # cs) s = ebind (inf_call_do c s) (inf_calls_do cs)"

declare dhcp_wait.simps [simp del]

lemmas call_defs = inf_call_do_def InfWiFiStop_def InfWiFiStart_def InfNetModeSet_def InfIpSet_def InfConTryTimesSet_def InfEncModeSet_def
  PostTaskMsg_def set_wifi_def param_consts InfLoadDefaultParam_eq

section \<open>The station mode\<close>

lemma station_calls:
  assumes "DRV_WiFi_StaModeConnStart ssid pass 1 a = Inr (r, b)" "radio a = []" "length (PermanentAddress s) = 6"
  shows "\<exists>t. inf_calls_do (radio b) s = Inr t \<and> gpMacMngTskMsgQ t = gpMacMngTskMsgQ s @ [(MLME_STOP_ID, []), (MLME_START_ID, [])] \<and>
    bDhcp (IPCfg (SysParam t)) = 1 \<and>
    (let w = WiFiCfg (SysParam t); n = length (cstr pass) mod 256 in
     cstr (Ssid w) = cut_name (cstr ssid) \<and> Protocol w = ucast PARAM_NET_MODE_STA_BSS \<and> Encry w = ucast PARAM_ENC_MODE_AUTO \<and> ConTryTimes w = 5 \<and>
     take (unat (KeyLength w)) (PSK w) = (if n \<le> 64 then take n (cstr pass) else default_psk))"
proof -
  let ?d = "default_param (drop 2 (PermanentAddress s))"
  let ?w = "(WiFiCfg ?d)\<lparr>ConTryTimes := 5, Protocol := 0, Encry := 4\<rparr>"
  let ?u = "s\<lparr>gpMacMngTskMsgQ := gpMacMngTskMsgQ s @ [(MLME_STOP_ID, [])],
    SysParam := ?d\<lparr>IPCfg := zero_ip\<lparr>bDhcp := 1, DhcpTryTimes := 0\<rparr>, WiFiCfg := ?w\<rparr>\<rparr>"
  have rb: "radio b = sta_commands ssid pass 1"
    by (rule StaModeConnStart_cases [of ssid pass 1 a]) (use assms(1,2) in \<open>auto simp: same_but_flags_def\<close>)
  have "inf_calls_do (radio b) s = inf_calls_do [Call_InfSsidSet (cstr ssid), Call_InfKeySet (cstr pass), Call_InfWiFiStart] ?u"
    using assms(3) by (simp add: rb sta_commands_def call_defs)
  moreover have len: "length (Ssid ?w) = 33" "length (PSK ?w) = 64"
    using default_param_ok [of "drop 2 (PermanentAddress s)"] assms(3) by (simp_all add: wifi_ok_def)
  obtain q m where m: "InfSsidSet (Some (cstr ssid @ [0])) (word_of_nat (length (cstr ssid))) ?u = Inr (q, set_wifi (\<lambda>c. c\<lparr>Ssid := m\<rparr>) ?u)"
    "cstr m = cut_name (cstr ssid)"
    by (rule InfSsidSet_name [of ?u "cstr ssid"]) (use len in simp_all)
  let ?v = "set_wifi (\<lambda>c. c\<lparr>Ssid := m\<rparr>) ?u"
  have "length (PSK (WiFiCfg (SysParam ?v))) = 64" using len by (simp add: set_wifi_def)
  then have "\<exists>t. inf_calls_do [Call_InfKeySet (cstr pass), Call_InfWiFiStart] ?v = Inr t \<and>
      gpMacMngTskMsgQ t = gpMacMngTskMsgQ ?v @ [(MLME_START_ID, [])] \<and> IPCfg (SysParam t) = IPCfg (SysParam ?v) \<and>
      Ssid (WiFiCfg (SysParam t)) = m \<and> Protocol (WiFiCfg (SysParam t)) = 0 \<and> Encry (WiFiCfg (SysParam t)) = 4 \<and>
      ConTryTimes (WiFiCfg (SysParam t)) = 5 \<and> take (unat (KeyLength (WiFiCfg (SysParam t)))) (PSK (WiFiCfg (SysParam t))) =
        (if length (cstr pass) mod 256 \<le> 64 then take (length (cstr pass) mod 256) (cstr pass) else default_psk)"
  proof (cases rule: InfKeySet_key [of ?v "cstr pass"])
    case (1 q)
    then show ?thesis by (simp add: call_defs default_param_def default_psk_def)
  next
    case (2 q k)
    then show ?thesis by (simp add: call_defs unat_len8)
  qed
  ultimately show ?thesis using m by (auto simp: inf_call_do_def set_wifi_def Let_def param_consts)
qed

section \<open>The access point\<close>

definition softap_ip :: u32 where "softap_ip = IP4_ADDR [10, 10, 10, 1]"
definition softap_mask :: u32 where "softap_mask = IP4_ADDR [255, 255, 255, 0]"

lemma softap_addr: "softap_ip = 0x010A0A0A" "softap_mask = 0x00FFFFFF"
  by (simp_all add: softap_ip_def softap_mask_def IP4_ADDR_def htonl_def)

lemma softap_pool:
  "start_pool softap_ip softap_mask = Inr (map (\<lambda>x. fresh_client (IP4_ADDR [10, 10, 10, x])) [2, 3, 4, 5, 6, 7, 8, 9])"
proof -
  have m: "host_bits (ntohl softap_mask) 8" by (simp add: softap_addr host_bits_def htonl_def mask_eq_exp_minus_1)
  have i: "unat (ntohl softap_ip AND NOT (ntohl softap_mask)) + 9 < 2 ^ 8" by (simp add: softap_addr htonl_def)
  show ?thesis unfolding start_pool_ok [OF m i] by (simp add: softap_addr htonl_def IP4_ADDR_def upt_rec)
qed

lemma softap_dhcps:
  obtains d where "DHCPS_Start True udp softap_ip softap_mask s = Inr (if udp then DHCPS_ERR_SUCCESS else DHCPS_ERR_MEM, d)"
    "Enable (DhcpServer d) = (if udp then 1 else 0)"
    "map cIpAddr (clients d) = map (\<lambda>x. IP4_ADDR [10, 10, 10, x]) [2, 3, 4, 5, 6, 7, 8, 9]"
proof -
  obtain tmp where "host_part (ntohl softap_mask) ((ntohl softap_ip AND NOT (ntohl softap_mask)) + 1) = Inr tmp"
    "init_clients (htonl ((ntohl softap_ip AND ntohl softap_mask) OR tmp)) (ntohl softap_mask) 0 DHCPS_HISTORY_CLIENT_NUM =
       Inr (map (\<lambda>x. fresh_client (IP4_ADDR [10, 10, 10, x])) [2, 3, 4, 5, 6, 7, 8, 9])"
    using softap_pool by (auto simp: start_pool_def Let_def ebind_Inr_iff)
  then show thesis by (cases udp) (auto intro!: that simp: DHCPS_Start_def Let_def cleared_server_def fresh_client_def)
qed

lemma softap_calls:
  assumes "radio a = []" "length (PermanentAddress s) = 6"
  shows "inf_calls_do (radio (DRV_WiFi_SoftAPModeStart a)) s =
    Inr (s\<lparr>SysParam := default_param (drop 2 (PermanentAddress s)),
      gpMacMngTskMsgQ := gpMacMngTskMsgQ s @ [(MLME_STOP_ID, []), (MLME_START_ID, [])]\<rparr>)"
  using assms by (simp add: DRV_WiFi_SoftAPModeStart_def radio_do_def call_defs default_param_def)

text \<open>The link of the access point: the interface gets the address of the parameters and both servers are started.\<close>

lemma softap_link:
  assumes "SysParam (sysp s) = default_param mac" "SysEvtCB (sysp s) \<noteq> 0" "udp_dnss env"
  obtains t where "DefaultProc env (Some SYS_LINK_UP_ID) s = Inr t" "reported t = reported s @ [SYS_EVT_LINK_UP]" "if_ip (netif t) = softap_ip"
    "DHCPS_Start True (udp_dhcps env) softap_ip softap_mask (dhcps s) = Inr (if udp_dhcps env then DHCPS_ERR_SUCCESS else DHCPS_ERR_MEM, dhcps t)"
    "Enable (DhcpServer (dhcps t)) = (if udp_dhcps env then 1 else 0)"
    "map cIpAddr (clients (dhcps t)) = map (\<lambda>x. IP4_ADDR [10, 10, 10, x]) [2, 3, 4, 5, 6, 7, 8, 9]"
    "dns_bound (dnss t)" "HostIp (DnsServer (dnss t)) = softap_ip" "DnsName (DnsServer (dnss t)) = default_dns_name @ replicate 19 0"
proof -
  obtain d where d: "DHCPS_Start True (udp_dhcps env) softap_ip softap_mask (dhcps s) =
      Inr (if udp_dhcps env then DHCPS_ERR_SUCCESS else DHCPS_ERR_MEM, d)" "Enable (DhcpServer d) = (if udp_dhcps env then 1 else 0)"
    "map cIpAddr (clients d) = map (\<lambda>x. IP4_ADDR [10, 10, 10, x]) [2, 3, 4, 5, 6, 7, 8, 9]"
    by (rule softap_dhcps)
  have name: "cstr (cfgDnsName (default_param mac)) = default_dns_name"
    by (simp add: default_param_def default_dns_name_def cstr_def)
  have "IP4_ADDR (ipIp (IPCfg (default_param mac))) = softap_ip" "IP4_ADDR (ipNetmask (IPCfg (default_param mac))) = softap_mask"
    "Protocol (WiFiCfg (default_param mac)) = 2" "bDhcpServer (default_param mac) = 1" "bDnsServer (default_param mac) = 1"
    by (simp_all add: default_param_def softap_ip_def softap_mask_def)
  note par = this
  show thesis
    using assms(2,3) d
    by (intro that [of "evt_callback SYS_EVT_LINK_UP (snd (start_dnss env 0 ((LoadStaticParam s)\<lparr>dhcps := d\<rparr>)))"])
      (simp_all add: DefaultProc_def L2LinkUp_def uses_dhcp_def is_softap_def param_consts LoadStaticParam_def Let_def assms(1) par start_dhcps_def
        start_dnss_def DNSS_Start_def name DNSS_ERR_SUCCESS_def evt_callback_def default_dns_name_def)
qed

section \<open>Properties\<close>

text \<open>
  C30: The station mode is started with the parameters asked for.  Performing the calls that the connection
  manager makes sets the name, the key and the station mode with automatic encryption, five attempts
  and an address by DHCP, between a stop and a start of the radio.  The lengths are cut to a byte and
  checked: a name whose length modulo 256 is not within 1 and 32 is replaced by the empty name, and a
  key whose length modulo 256 is above 64 by the default key.
\<close>

theorem station_start_params:
  assumes "DRV_WiFi_StaModeConnStart ssid pass 1 a = Inr (r, b)" "radio a = []" "length (PermanentAddress s) = 6"
  shows "\<exists>t. inf_calls_do (radio b) s = Inr t \<and> gpMacMngTskMsgQ t = gpMacMngTskMsgQ s @ [(MLME_STOP_ID, []), (MLME_START_ID, [])] \<and>
    bDhcp (IPCfg (SysParam t)) = 1 \<and>
    (let w = WiFiCfg (SysParam t); n = length (cstr pass) mod 256 in
     cstr (Ssid w) = cut_name (cstr ssid) \<and> Protocol w = ucast PARAM_NET_MODE_STA_BSS \<and> Encry w = ucast PARAM_ENC_MODE_AUTO \<and> ConTryTimes w = 5 \<and>
     take (unat (KeyLength w)) (PSK w) = (if n \<le> 64 then take n (cstr pass) else default_psk))"
  using assms by (rule station_calls)

definition sample_agent :: agent_state where
  "sample_agent = agent_boot erased_flash [[], [], [SYS_EVT_LINK_UP]]"

lemma sample_station:
  obtains b where "DRV_WiFi_StaModeConnStart [0x61] [0x62] 1 sample_agent = Inr (0, b)"
  using StaModeConnStart_some [of sample_agent SYS_EVT_LINK_UP "[0x61]" "[0x62]" 1] by (auto simp: sample_agent_def agent_boot_def verdict_def)

theorem station_start_params_witness:
  "\<exists>b t. DRV_WiFi_StaModeConnStart [0x61] [0x62] 1 sample_agent = Inr (0, b) \<and> inf_calls_do (radio b) sample_sys = Inr t \<and>
     cstr (Ssid (WiFiCfg (SysParam t))) = [0x61]"
proof -
  obtain b where b: "DRV_WiFi_StaModeConnStart [0x61] [0x62] 1 sample_agent = Inr (0, b)" by (rule sample_station)
  show ?thesis
    using station_start_params [OF b, of sample_sys] b
    by (auto simp: sample_agent_def agent_boot_def sample_sys_def Let_def cstr_def cut_name_def)
qed

text \<open>
  C28: Starting the access point makes the device ready for a phone.  When the link comes up behind the calls
  of the connection manager, the interface has the address 10.10.10.1, the DHCP server is started on it
  with the pool 10.10.10.2 to 10.10.10.9 (and so in a reachable state of its own model), the DNS server
  answers for \<open>local.nufront\<close> with that address, and the callback is told.
\<close>

theorem softap_services_started:
  assumes "radio a = []" "length (PermanentAddress (sysp s)) = 6" "SysEvtCB (sysp s) \<noteq> 0" "udp_dhcps env" "udp_dnss env"
    and "length (DhcpMsg (dhcps s)) = 548"
  shows "\<exists>p t. inf_calls_do (radio (DRV_WiFi_SoftAPModeStart a)) (sysp s) = Inr p \<and>
    DefaultProc env (Some SYS_LINK_UP_ID) (s\<lparr>sysp := p\<rparr>) = Inr t \<and> reported t = reported s @ [SYS_EVT_LINK_UP] \<and>
    if_ip (netif t) = IP4_ADDR [10, 10, 10, 1] \<and>
    dhcp_run (IP4_ADDR [10, 10, 10, 1]) (IP4_ADDR [255, 255, 255, 0]) (dhcps t) \<and> Enable (DhcpServer (dhcps t)) = 1 \<and>
    map cIpAddr (clients (dhcps t)) = map (\<lambda>x. IP4_ADDR [10, 10, 10, x]) [2, 3, 4, 5, 6, 7, 8, 9] \<and>
    dns_bound (dnss t) \<and> HostIp (DnsServer (dnss t)) = IP4_ADDR [10, 10, 10, 1] \<and>
    DnsName (DnsServer (dnss t)) = default_dns_name @ replicate 19 0"
proof -
  let ?p = "(sysp s)\<lparr>SysParam := default_param (drop 2 (PermanentAddress (sysp s))),
      gpMacMngTskMsgQ := gpMacMngTskMsgQ (sysp s) @ [(MLME_STOP_ID, []), (MLME_START_ID, [])]\<rparr>"
  obtain t where t: "DefaultProc env (Some SYS_LINK_UP_ID) (s\<lparr>sysp := ?p\<rparr>) = Inr t" "reported t = reported s @ [SYS_EVT_LINK_UP]"
    "if_ip (netif t) = softap_ip" "DHCPS_Start True True softap_ip softap_mask (dhcps s) = Inr (DHCPS_ERR_SUCCESS, dhcps t)"
    "Enable (DhcpServer (dhcps t)) = 1" "map cIpAddr (clients (dhcps t)) = map (\<lambda>x. IP4_ADDR [10, 10, 10, x]) [2, 3, 4, 5, 6, 7, 8, 9]"
    "dns_bound (dnss t)" "HostIp (DnsServer (dnss t)) = softap_ip" "DnsName (DnsServer (dnss t)) = default_dns_name @ replicate 19 0"
    by (rule softap_link [of "s\<lparr>sysp := ?p\<rparr>" _ env]) (use assms in simp_all)
  show ?thesis
    using softap_calls [OF assms(1,2)] t dhcp_run.start [OF assms(6) t(4)] by (auto simp: softap_ip_def softap_mask_def)
qed

definition sample_link :: link_state where
  "sample_link = \<lparr>sysp = sample_sys\<lparr>SysEvtCB := 0x1000\<rparr>, netif = \<lparr>if_ip = 0, if_netmask = 0, if_gw = 0, if_up = False\<rparr>, dns_server0 = 0,
     dhcp_client = False, dhcps = idle_state, dnss = boot_dns, reported = [], gpSysMngTskMsgQ = []\<rparr>"

definition sample_env :: link_env where
  "sample_env = \<lparr>udp_dhcps = True, udp_dnss = True, dhcp_script = []\<rparr>"

theorem softap_services_started_witness:
  "\<exists>p t. inf_calls_do (radio (DRV_WiFi_SoftAPModeStart sample_agent)) (sysp sample_link) = Inr p \<and>
    DefaultProc sample_env (Some SYS_LINK_UP_ID) (sample_link\<lparr>sysp := p\<rparr>) = Inr t \<and> dns_bound (dnss t)"
  using softap_services_started [of sample_agent sample_link sample_env]
  by (auto simp: sample_agent_def agent_boot_def sample_link_def sample_sys_def sample_env_def idle_state_def)

text \<open>
  A DHCP server that cannot be started is not noticed: \<open>L2LinkUp\<close> overwrites its result by that of the
  DNS server, and the callback is told that the link is up while the server is disabled.
\<close>

lemma dhcp_failure_hidden:
  assumes "SysParam (sysp s) = default_param mac" "SysEvtCB (sysp s) \<noteq> 0" "\<not> udp_dhcps env" "udp_dnss env"
  shows "\<exists>t. DefaultProc env (Some SYS_LINK_UP_ID) s = Inr t \<and> reported t = reported s @ [SYS_EVT_LINK_UP] \<and> Enable (DhcpServer (dhcps t)) = 0"
  by (rule softap_link [OF assms(1,2,4)]) (use assms(3) in auto)

text \<open>
  C31: The servers of the access point are stopped only if the link goes down before the mode is changed.
  The calls that start the station mode set the mode right behind the message that stops the radio; when the
  link goes down after them, \<open>L2LinkDown\<close> takes the device for a station and leaves the DHCP and DNS servers
  as they are, whereas before the calls it disables the DHCP server.
\<close>

theorem late_link_down_leaves_servers:
  assumes "DRV_WiFi_StaModeConnStart ssid pass 1 a = Inr (r, b)" "radio a = []" "length (PermanentAddress (sysp s)) = 6"
    and "is_softap s" "bDhcpServer (SysParam (sysp s)) \<noteq> 0"
  shows "(\<exists>p t. inf_calls_do (radio b) (sysp s) = Inr p \<and> DefaultProc env (Some SYS_LINK_DOWN_ID) (s\<lparr>sysp := p\<rparr>) = Inr t \<and>
      dhcps t = dhcps s \<and> dnss t = dnss s \<and> if_up (netif t) = False \<and> if_ip (netif t) = 0) \<and>
    (\<exists>t. DefaultProc env (Some SYS_LINK_DOWN_ID) s = Inr t \<and> Enable (DhcpServer (dhcps t)) = 0)"
proof
  obtain p where "inf_calls_do (radio b) (sysp s) = Inr p" "Protocol (WiFiCfg (SysParam p)) = 0"
    using station_calls [OF assms(1-3)] by (auto simp: Let_def param_consts)
  then show "\<exists>p t. inf_calls_do (radio b) (sysp s) = Inr p \<and> DefaultProc env (Some SYS_LINK_DOWN_ID) (s\<lparr>sysp := p\<rparr>) = Inr t \<and>
      dhcps t = dhcps s \<and> dnss t = dnss s \<and> if_up (netif t) = False \<and> if_ip (netif t) = 0"
    by (intro exI [of _ p]) (simp add: DefaultProc_def evt_callback_def L2LinkDown_def Let_def is_softap_def uses_dhcp_def param_consts)
  show "\<exists>t. DefaultProc env (Some SYS_LINK_DOWN_ID) s = Inr t \<and> Enable (DhcpServer (dhcps t)) = 0"
    using assms(4,5) by (simp add: DefaultProc_def evt_callback_def L2LinkDown_def Let_def is_softap_def uses_dhcp_def param_consts DHCPS_Stop_def cleared_server_def)
qed

theorem late_link_down_leaves_servers_witness:
  "\<exists>b p t. DRV_WiFi_StaModeConnStart [0x61] [0x62] 1 sample_agent = Inr (0, b) \<and> inf_calls_do (radio b) (sysp sample_link) = Inr p \<and>
     DefaultProc sample_env (Some SYS_LINK_DOWN_ID) (sample_link\<lparr>sysp := p\<rparr>) = Inr t \<and> dhcps t = dhcps sample_link"
proof -
  obtain b where b: "DRV_WiFi_StaModeConnStart [0x61] [0x62] 1 sample_agent = Inr (0, b)" by (rule sample_station)
  show ?thesis
    using late_link_down_leaves_servers [OF b, of sample_link sample_env] b
    by (auto simp: sample_agent_def agent_boot_def sample_link_def sample_sys_def is_softap_def default_param_def param_consts)
qed

text \<open>
  The wait for an address: it ends with a link at the first one shown, unless the link is lost or the
  attempts are used up behind the same wait, which is reported as a failure.
\<close>

lemma dhcp_wait_fails:
  assumes "if_ip (netif s) = 0" "limit = DhcpTryTimes (IPCfg (SysParam (sysp s)))" "\<not> ready \<or> limit \<noteq> 0 \<and> tries > unat limit"
  shows "dhcp_wait ((shown, tries, ready) # script) s = Inr (- 1, s\<lparr>netif := shown, dhcp_client := False,
    gpSysMngTskMsgQ := gpSysMngTskMsgQ s @ [SYS_DHCP_TIMEOUT_ID]\<rparr>)"
  using assms by (subst dhcp_wait.simps) (auto simp: Let_def)

lemma dhcp_wait_address:
  assumes "\<forall>(shown, tries, ready) \<in> set script. if_ip shown = 0 \<and> ready" "if_ip (netif s) = 0" "if_ip got \<noteq> 0"
    and "DhcpTryTimes (IPCfg (SysParam (sysp s))) = 0"
  shows "dhcp_wait (script @ (got, tries, True) # rest) s = Inr (0, s\<lparr>netif := got\<lparr>if_up := True\<rparr>\<rparr>)"
  using assms
proof (induction script arbitrary: s)
  case Nil
  then show ?case by (subst dhcp_wait.simps) (simp add: dhcp_wait.simps [of rest])
next
  case (Cons x script)
  then show ?case by (cases x) (subst dhcp_wait.simps, simp)
qed

end
