(* ===== verification/Spec2Isabelle.thy ===== *)
theory Spec2Isabelle
  imports CloudRun RingBuffer UartRecv SimuUart DhcpMessages DnsServer Checksum CString Base64 Aes LanAgent
    NtpClient RestClient CJsonMinify SysMgmt
begin

text \<open>
  \<^bold>\<open>Verification of the NL6621 OneNet agent\<close>

  The program is the firmware of a Wi-Fi module (a Cortex-M3 with uC/OS-II and LwIP) that connects a
  device to the OneNet cloud.  File names below are relative to \<open>src/Device/Source\<close>; \<open>NuAgent\<close> stands
  for \<open>App/NuAgent\<close>.

  \<^bold>\<open>Parts and how they interact.\<close>  At power-up the connection manager (\<open>NuAgent/Wifi/wifi_conn.c\<close>) reads
  the settings from the flash and joins a network or opens an access point, through the system
  parameters (\<open>Sys/param.c\<close>).  In the latter the DHCP and
  DNS servers (\<open>App/DhcpServer\<close>, \<open>App/DnsServer\<close>), which the management task (\<open>Sys/sys_mgmt.c\<close>, \<open>LwIP/port/lwIP.c\<close>)
  starts when the link comes up, serve a phone, which sends the settings in a UDP message
  (\<open>NuAgent/User/lan.c\<close>); they go through \<open>NuAgent/System/nl6621_drv.c\<close> to the flash driver
  (\<open>BSP/flash.c\<close>).  Once connected, the cloud task (\<open>NuAgent/User/cloud.c\<close>) opens a TCP connection through
  the network adapter (\<open>NuAgent/System/network_adapter.c\<close>) and exchanges EDP packets
  (\<open>NuAgent/OneNet/EdpKit.c\<close>), some of which carry JSON (\<open>NuAgent/Lib/cJSON.c\<close>); a timer and the sensor
  task (\<open>NuAgent/User/sensors.c\<close>) send on the same connection.  A serial device is attached by the UART
  receiver (\<open>NuAgent/System/nl6621_uart.c\<close>) over a ring buffer (\<open>NuAgent/Lib/ring_buffer.c\<close>).  All of it
  allocates from the memory manager (\<open>Ports/Cortex-M3/os_dmem.c\<close>) and uses the string, checksum, base64
  and AES routines of \<open>Sys/util.c\<close> and \<open>NuAgent/Lib\<close>.

  \<^bold>\<open>Conventions\<close> (theory \<open>Prelude\<close>).  Machine integers are words of their width, \<open>char\<close> is unsigned as on
  the target, a pointer into a block is the block and an offset with checked access.  A call returns
  \<open>Inr\<close> of its results, or \<open>Inl\<close> of a fault: what C leaves undefined, a failed assertion, or \<open>Diverges\<close>, a
  loop that does not end or waits for ever.  Error codes of the program are ordinary results.

  \<^bold>\<open>Theories.\<close>
  \<^item> \<open>MemUtil\<close>, \<open>Checksum\<close>, \<open>CString\<close> (\<open>Sys/util.c\<close>, \<open>Lib/str_lib.c\<close>): the overlapping move is \<open>memmove\<close>, the
    unrolled CRC-32 and the table CRC-8 are the bitwise ones, the unrolled string functions are those of
    the C standard; printing and reading of numbers are inverse.
  \<^item> \<open>DynMem\<close> (\<open>os_dmem.c\<close>): first-fit allocation on a circular list of block headers in memory.  In every
    run of requests below \<open>2 ^ 32 - 3\<close> bytes the list, the accounting and the absence of adjacent free blocks are kept, the used blocks are the
    live ones, an answer is a block of the size asked for, and freeing everything restores one block.
  \<^item> \<open>EdpBuffer\<close>, \<open>EdpPacket\<close>, \<open>EdpWire\<close>, \<open>EdpStream\<close>, \<open>EdpProtocol\<close>, \<open>EdpJson\<close> (\<open>EdpKit.c\<close>, \<open>EdpKit.h\<close>): growing
    buffers, readers and writers, every builder and parser.  The wire format is an abstract function of
    the message, builders produce it and parsers recover the message; the framing of the stream loses
    and invents nothing; length fields near \<open>2 ^ 32\<close> defeat the bounds check.
  \<^item> \<open>CJson\<close>, \<open>CJsonTree\<close>, \<open>CJsonMinify\<close> (\<open>cJSON.c\<close>): parser, printer, tree operations and minification.  The
    parser ends on every text, what is printed of items with 32-bit integers is parsed back, minifying the formatted text gives the
    unformatted one, and an escape with a quote behind it overruns the block.
  \<^item> \<open>RingBuffer\<close>, \<open>UartRecv\<close>: a bounded queue of bytes; every interleaving of interrupt, timer and task
    delivers the accepted bytes in order, and after the timer nothing stays behind.
  \<^item> \<open>SimuUart\<close> (\<open>Device/simu_uart.c\<close>, \<open>Device/gpio_int.c\<close>, \<open>Lib/log.c\<close>): the bit-banged UART and the conversions
    of \<open>print\<close>.  What the transmitter puts on the line the receiver hands to the ring buffer.
  \<^item> \<open>DhcpServer\<close>, \<open>DhcpTable\<close>, \<open>DhcpMessages\<close>: the client table and its state machine, options and replies.
    In every reachable state active leases have different addresses and owners, if the subnet has room for
    the pool; an exchange ends in a
    lease; replies parse back.
  \<^item> \<open>DnsServer\<close>: the own name, in any case, is answered with the address of the device.
  \<^item> \<open>Base64\<close>, \<open>Aes\<close>: round trips within the buffers; the optimised column mix is the matrix product over
    GF(256).
  \<^item> \<open>NetAdapter\<close>, \<open>Cloud\<close>, \<open>CloudRun\<close>: sending under the mutex, the client table of the LAN server, the packet
    handlers, and the runs of the tasks that share the connection.  A received buffer is processed as the
    sequence of messages it encodes, and what is sent consists of whole frames unless a send has failed.
  \<^item> \<open>SysParam\<close> (\<open>Sys/param.c\<close>), \<open>SysMgmt\<close> (\<open>Sys/sys_mgmt.c\<close>, \<open>LwIP/port/lwIP.c\<close>): in every run the parameters that are
    checked stay in their ranges; the calls of the connection manager set what was asked for; a link of the access point
    starts both servers on its address, and one that goes down too late does not stop them.
  \<^item> \<open>RestClient\<close> (\<open>OneNet/restful.c\<close>), \<open>NtpClient\<close> (\<open>Lib/ntp_client.c\<close>): the HTTP requests and what a reply
    does to the array of the device id; the time exchange and the range of the clock.
  \<^item> \<open>Flash\<close>, \<open>AgentConfig\<close>, \<open>WifiConn\<close>, \<open>LanAgent\<close>: writing to the flash replaces exactly the bytes asked
    for; settings are read back; when the connection manager returns; what configuration messages and
    the reset button do; a datagram leads out of bounds only when the settings are saved and the heap has
    no room for the buffer of a sector.

  \<^bold>\<open>Interfaces.\<close>  \<open>byte_malloc\<close> (theory \<open>EdpBuffer\<close>) is what the buffers need of the allocator; its lemmas
  carry the EDP theories, and \<open>DynMem\<close> interprets it for the heap of the system.  An allocator (\<open>mallocator\<close>)
  has no state: the interpretation answers each request from the heap at start-up, so that these
  theories do not account for what earlier requests have taken.  \<open>byte_fifo\<close> (theory
  \<open>RingBuffer\<close>) is what the UART receiver needs of the ring buffer and is interpreted there.  \<open>nor_flash\<close>
  (theory \<open>Flash\<close>) is what the data sheet of a serial flash promises: programming blank bytes stores them,
  erasing a sector sets its bits; it is interpreted for an array in which programming clears bits.

  \<^bold>\<open>Bounds and fuel.\<close>  The JSON parser has the length of the text as fuel, of which every call consumes at
  least one character (\<open>cJSON_Parse_terminates\<close> shows that it never runs out).  The search of the memory
  manager has the size of the pool, which has fewer blocks than bytes.  All other loops are functions
  with a measure.  Waits are bounded by scripts: the answers of the sockets (\<open>tx_script\<close>, \<open>rx_script\<close>) and
  the events of the Wi-Fi library (\<open>pending\<close>) and the progress of the DHCP client (\<open>dhcp_script\<close>) are lists, and a wait behind their end is \<open>Diverges\<close>.
  Receive buffers hold less than \<open>2 ^ 16\<close> bytes, the size parameter of \<open>NST_MoveMemOvlap\<close>; the flash has
  at most 256 sectors, since \<open>WriteFlash\<close> counts them in a byte.  The properties of JSON values are about
  numbers that are 32-bit integers: fractions are printed with few digits and do not come back.  What lies
  in memory behind a received block, which the code prints as a string without a NUL, is a component of
  the state (\<open>heap_tail\<close>), and the count of the LAN clients is an unbounded integer.

  \<^bold>\<open>Parameters.\<close>  Code that is not part of the repository is an argument: the double-precision arithmetic
  of the compiler in \<open>CJson\<close>, the Wi-Fi library (the messages to it recorded, its events given), the answers of the
  TCP/IP stack, the flash chip.

  \<^bold>\<open>Not modelled.\<close>  LwIP and uC/OS-II are third-party code, represented by their answers and by the
  interleaving of the tasks.  The register accesses of the board support package, the LED task, log
  messages and the random values of the sensors have no state that the parts above depend on.  The task
  loops of \<open>agent_core.c\<close> around the modelled steps and the creation of sockets only call the kernel and
  the stack.  Of cJSON the growing print buffer, items added by reference and
  the release of items are left out.  Delays between the bytes of the simulated UART are not modelled.
\<close>

section \<open>The flash and the heap of the system\<close>

text \<open>The settings can be saved as long as the heap has a sector's worth of bytes, as it has at the start.\<close>

lemma settings_saved_with_system_heap:
  assumes "nor_flash chip" "flash_ok mem" "config_ok c"
  shows "\<exists>mem'. nl6621_SaveConfigData (pool_malloc PCB_ADDR fresh_heap) chip c mem = Inr mem' \<and> nl6621_GetConfigData mem' = Inr c"
proof -
  have "pool_malloc PCB_ADDR fresh_heap (word_of_nat FLASH_SECTOR_SIZE) \<noteq> None"
    using fresh.mm_total [of "word_of_nat FLASH_SECTOR_SIZE"] by (auto simp: FLASH_SECTOR_SIZE_def)
  then show ?thesis using save_and_get [OF assms(1) _ assms(2,3), of "pool_malloc PCB_ADDR fresh_heap"] by blast
qed

end
